(* ===== verification/Prelude.thy ===== *)
theory Prelude
  imports Main "HOL-Library.Word" "HOL-Library.Stream"
begin

text \<open>
  Shared vocabulary of the development: the ways a C++ statement can go wrong
  (\<open>fault\<close>), the type of statements as state transformers that either give the next
  state or a fault (\<open>stmt\<close>), the control structures of the code (a block of
  statements, \<open>if\<close>, \<open>assert\<close>), the total and partial correctness judgements used
  for invariants, and a few generic facts on lists and words.
\<close>

section \<open>Faults and results\<close>

text \<open>
  \<open>AssertFailed\<close> is a failed \<open>assert\<close> (the build sets no build type, so
  \<open>NDEBUG\<close> is not defined and assertions abort), \<open>ProcessExit\<close> is a call of
  \<open>exit\<close>, \<open>UseAfterFree\<close> a read or write of a destroyed object, \<open>NullDeref\<close> a
  call through a null pointer, \<open>UndefinedBehaviour\<close> any other undefined operation (an
  iterator past the end), \<open>UncaughtException\<close> an exception that no one catches (the process
  terminates), for example that of a call of an empty \<open>std::function\<close>, \<open>Blocked\<close> a system call that does not return,
  \<open>DepthExceeded\<close> says that a
  bounded execution stopped at its bound.
\<close>

datatype fault =
    AssertFailed
  | ProcessExit int
  | UseAfterFree
  | NullDeref
  | UndefinedBehaviour
  | UncaughtException
  | Blocked
  | DepthExceeded

type_synonym 'a res = "fault + 'a"

abbreviation Ok :: "'a \<Rightarrow> 'a res" where
  "Ok \<equiv> Inr"

abbreviation Fault :: "fault \<Rightarrow> 'a res" where
  "Fault \<equiv> Inl"

type_synonym 'w stmt = "'w \<Rightarrow> 'w res"

type_synonym byte = "8 word"

named_theorems stmt_defs "definitions of the statement combinators"
named_theorems stmt_keeps "preservation rules of statements"

section \<open>Statements\<close>

primrec block :: "'w stmt list \<Rightarrow> 'w stmt" where
  "block [] w = Ok w"
| "block (s # ss) w = (case s w of Inl e \<Rightarrow> Inl e | Inr w' \<Rightarrow> block ss w')"

definition skip :: "'w stmt" where
  [stmt_defs]: "skip w = Ok w"

definition modify :: "('w \<Rightarrow> 'w) \<Rightarrow> 'w stmt" where
  [stmt_defs]: "modify f w = Ok (f w)"

definition check :: "('w \<Rightarrow> bool) \<Rightarrow> fault \<Rightarrow> 'w stmt" where
  [stmt_defs]: "check b e w = (if b w then Ok w else Fault e)"

definition assertion :: "('w \<Rightarrow> bool) \<Rightarrow> 'w stmt" where
  [stmt_defs]: "assertion b = check b AssertFailed"

definition if_then_else :: "('w \<Rightarrow> bool) \<Rightarrow> 'w stmt \<Rightarrow> 'w stmt \<Rightarrow> 'w stmt" where
  [stmt_defs]: "if_then_else b s t w = (if b w then s w else t w)"

definition if_then :: "('w \<Rightarrow> bool) \<Rightarrow> 'w stmt \<Rightarrow> 'w stmt" where
  [stmt_defs]: "if_then b s w = (if b w then s w else Ok w)"

lemma block_append:
  "block (ss @ ts) w = (case block ss w of Inl e \<Rightarrow> Inl e | Inr w' \<Rightarrow> block ts w')"
  by (induction ss arbitrary: w) (auto split: sum.splits)

lemma block_Ok_iff:
  "block (s # ss) w = Ok w'' \<longleftrightarrow> (\<exists>w'. s w = Ok w' \<and> block ss w' = Ok w'')"
  by (auto split: sum.splits)

section \<open>Judgements about statements\<close>

text \<open>
  \<open>keeps P s\<close>: if \<open>s\<close> ends normally in a \<open>P\<close>-state, it ends in a \<open>P\<close>-state.
  \<open>ensures P s Q\<close>: from every \<open>P\<close>-state \<open>s\<close> ends normally, in a \<open>Q\<close>-state.
\<close>

definition keeps :: "('w \<Rightarrow> bool) \<Rightarrow> 'w stmt \<Rightarrow> bool" where
  "keeps P s \<longleftrightarrow> (\<forall>w w'. P w \<longrightarrow> s w = Ok w' \<longrightarrow> P w')"

definition ensures :: "('w \<Rightarrow> bool) \<Rightarrow> 'w stmt \<Rightarrow> ('w \<Rightarrow> bool) \<Rightarrow> bool" where
  "ensures P s Q \<longleftrightarrow> (\<forall>w. P w \<longrightarrow> (\<exists>w'. s w = Ok w' \<and> Q w'))"

lemma keepsI: "(\<And>w w'. P w \<Longrightarrow> s w = Ok w' \<Longrightarrow> P w') \<Longrightarrow> keeps P s"
  by (auto simp: keeps_def)

lemma keepsD: "keeps P s \<Longrightarrow> P w \<Longrightarrow> s w = Ok w' \<Longrightarrow> P w'"
  by (auto simp: keeps_def)

lemma keeps_block [stmt_keeps]: "(\<And>s. s \<in> set ss \<Longrightarrow> keeps P s) \<Longrightarrow> keeps P (block ss)"
proof (induction ss)
  case Nil
  then show ?case by (auto simp: keeps_def)
next
  case (Cons s ss)
  have hd: "keeps P s" and tl: "keeps P (block ss)"
    using Cons by auto
  show ?case
  proof (rule keepsI)
    fix w w'' assume "P w" and "block (s # ss) w = Ok w''"
    then obtain w' where "s w = Ok w'" and "block ss w' = Ok w''"
      by (auto simp: block_Ok_iff simp del: block.simps)
    from hd \<open>P w\<close> \<open>s w = Ok w'\<close> have "P w'" by (rule keepsD)
    with tl show "P w''" using \<open>block ss w' = Ok w''\<close> by (rule keepsD)
  qed
qed

lemma keeps_skip [stmt_keeps]: "keeps P skip"
  by (auto simp: keeps_def skip_def)

lemma keeps_check [stmt_keeps]: "keeps P (check b e)"
  by (auto simp: keeps_def check_def)

lemma keeps_assertion [stmt_keeps]: "keeps P (assertion b)"
  by (simp add: assertion_def keeps_check)

lemma keeps_if [stmt_keeps]: "keeps P s \<Longrightarrow> keeps P t \<Longrightarrow> keeps P (if_then_else b s t)"
  by (rule keepsI) (auto simp: if_then_else_def dest: keepsD split: if_splits)

lemma keeps_if_then [stmt_keeps]: "keeps P s \<Longrightarrow> keeps P (if_then b s)"
  by (rule keepsI) (auto simp: if_then_def dest: keepsD split: if_splits)

lemma keeps_modify: "(\<And>w. P w \<Longrightarrow> P (f w)) \<Longrightarrow> keeps P (modify f)"
  by (auto simp: keeps_def modify_def)

lemma ensuresI: "(\<And>w. P w \<Longrightarrow> \<exists>w'. s w = Ok w' \<and> Q w') \<Longrightarrow> ensures P s Q"
  by (auto simp: ensures_def)

lemma ensuresD: "ensures P s Q \<Longrightarrow> P w \<Longrightarrow> \<exists>w'. s w = Ok w' \<and> Q w'"
  by (auto simp: ensures_def)

lemma ensures_Nil: "(\<And>w. P w \<Longrightarrow> Q w) \<Longrightarrow> ensures P (block []) Q"
  by (auto simp: ensures_def)

lemma ensures_Cons:
  "ensures P s R \<Longrightarrow> ensures R (block ss) Q \<Longrightarrow> ensures P (block (s # ss)) Q"
  by (fastforce simp: ensures_def)

section \<open>Generic facts\<close>

lemma sint_pos_word16_ucast:
  "0 <s (r :: 16 word) \<Longrightarrow> r \<noteq> 0"
  by (auto simp: word_sless_alt)

lemma take_drop_Suc_nth_less:
  "j < i \<Longrightarrow> i < length xs \<Longrightarrow> (take i xs @ drop (Suc i) xs) ! j = xs ! j"
  by (simp add: nth_append)

lemma take_drop_Suc_nth_ge:
  "i \<le> j \<Longrightarrow> Suc j < length xs \<Longrightarrow> (take i xs @ drop (Suc i) xs) ! j = xs ! Suc j"
  by (simp add: nth_append)

end
