(* ===== verification/Channel.thy ===== *)
theory Channel
  imports Prelude
begin

text \<open>
  The data of \<open>Channel.h\<close> / \<open>Channel.cpp\<close>: a channel ties one file descriptor to one
  event loop, records the events its user wants (\<open>events_\<close>), the events the poller
  reported (\<open>revents_\<close>), its position in the poller's array (\<open>index_\<close>, negative when
  it is not registered) and four callbacks. The \<open>poll(2)\<close> flags are the values of the
  platform header. The operations that go through the event loop (\<open>update\<close>,
  \<open>remove\<close>, \<open>handleEvent\<close>) are in theory EventLoop, where the loop's state is.
  Channel objects are heap objects: a store maps live object identities to their contents
  and has no entry for a destroyed object.
\<close>

unbundle bit_operations_syntax

section \<open>Flags of poll(2)\<close>

definition POLLIN :: "32 word" where "POLLIN = 1"
definition POLLPRI :: "32 word" where "POLLPRI = 2"
definition POLLOUT :: "32 word" where "POLLOUT = 4"
definition POLLERR :: "32 word" where "POLLERR = 8"
definition POLLHUP :: "32 word" where "POLLHUP = 16"
definition POLLNVAL :: "32 word" where "POLLNVAL = 32"

lemmas poll_flags = POLLIN_def POLLPRI_def POLLOUT_def POLLERR_def POLLHUP_def POLLNVAL_def

definition kNoneEvent :: "32 word" where
  "kNoneEvent = 0"

definition kReadEvent :: "32 word" where
  "kReadEvent = POLLIN OR POLLPRI"

definition kWriteEvent :: "32 word" where
  "kWriteEvent = POLLOUT"

lemmas event_masks = kNoneEvent_def kReadEvent_def kWriteEvent_def

section \<open>Channel objects\<close>

type_synonym chan_id = nat
type_synonym loop_id = nat

record 'cb channel =
  ch_loop :: loop_id
  ch_fd :: int
  ch_events :: "32 word"
  ch_revents :: "32 word"
  ch_index :: int
  ch_readCallback :: "'cb option"
  ch_writeCallback :: "'cb option"
  ch_errorCallback :: "'cb option"
  ch_closeCallback :: "'cb option"
  ch_handlingEvent :: bool
  ch_addedToLoop :: bool

type_synonym 'cb heap = "chan_id \<rightharpoonup> 'cb channel"

definition Channel_new :: "loop_id \<Rightarrow> int \<Rightarrow> 'cb channel" where
  "Channel_new loopPtr fd =
     \<lparr>ch_loop = loopPtr, ch_fd = fd, ch_events = 0, ch_revents = 0, ch_index = -1,
      ch_readCallback = None, ch_writeCallback = None, ch_errorCallback = None,
      ch_closeCallback = None, ch_handlingEvent = False, ch_addedToLoop = False\<rparr>"

text \<open>The setters; they unfold wherever they are used.\<close>

definition Channel_setReadCallback :: "'cb \<Rightarrow> 'cb channel \<Rightarrow> 'cb channel" where
  [simp]: "Channel_setReadCallback cb ch = ch\<lparr>ch_readCallback := Some cb\<rparr>"

definition Channel_setWriteCallback :: "'cb \<Rightarrow> 'cb channel \<Rightarrow> 'cb channel" where
  [simp]: "Channel_setWriteCallback cb ch = ch\<lparr>ch_writeCallback := Some cb\<rparr>"

definition Channel_setErrorCallback :: "'cb \<Rightarrow> 'cb channel \<Rightarrow> 'cb channel" where
  [simp]: "Channel_setErrorCallback cb ch = ch\<lparr>ch_errorCallback := Some cb\<rparr>"

definition Channel_setCloseCallback :: "'cb \<Rightarrow> 'cb channel \<Rightarrow> 'cb channel" where
  [simp]: "Channel_setCloseCallback cb ch = ch\<lparr>ch_closeCallback := Some cb\<rparr>"

definition Channel_set_revents :: "32 word \<Rightarrow> 'cb channel \<Rightarrow> 'cb channel" where
  [simp]: "Channel_set_revents revt ch = ch\<lparr>ch_revents := revt\<rparr>"

definition Channel_set_index :: "int \<Rightarrow> 'cb channel \<Rightarrow> 'cb channel" where
  [simp]: "Channel_set_index idx ch = ch\<lparr>ch_index := idx\<rparr>"

definition Channel_isNoneEvent :: "'cb channel \<Rightarrow> bool" where
  "Channel_isNoneEvent ch \<longleftrightarrow> ch_events ch = kNoneEvent"

definition Channel_isWriting :: "'cb channel \<Rightarrow> bool" where
  "Channel_isWriting ch \<longleftrightarrow> ch_events ch AND kWriteEvent \<noteq> 0"

definition Channel_isReading :: "'cb channel \<Rightarrow> bool" where
  "Channel_isReading ch \<longleftrightarrow> ch_events ch AND kReadEvent \<noteq> 0"

definition has_revents :: "'cb channel \<Rightarrow> 32 word \<Rightarrow> bool" where
  "has_revents ch m \<longleftrightarrow> ch_revents ch AND m \<noteq> 0"

section \<open>Event masks\<close>

lemma has_revents_or: "has_revents ch (a OR b) \<longleftrightarrow> has_revents ch a \<or> has_revents ch b"
  by (simp add: has_revents_def bit.conj_disj_distrib or_eq_0_iff)

lemma and_or_kReadEvent: "(e OR kReadEvent) AND kReadEvent = kReadEvent"
  by (rule bit_eqI) (auto simp: bit_simps)

lemma and_or_kWriteEvent: "(e OR kWriteEvent) AND kWriteEvent = kWriteEvent"
  by (rule bit_eqI) (auto simp: bit_simps)

lemma and_not_mask: "(e AND NOT m) AND m = (0 :: 32 word)"
  by (rule bit_eqI) (auto simp: bit_simps)

lemma masks_nonzero [simp]: "kReadEvent \<noteq> 0" "kWriteEvent \<noteq> 0"
  by (simp_all add: event_masks poll_flags)

lemma masks_disjoint: "kReadEvent AND kWriteEvent = 0" "kWriteEvent AND kReadEvent = 0"
  by (simp_all add: event_masks poll_flags)

lemma and_not_write_read: "(e AND NOT kWriteEvent) AND kReadEvent = e AND kReadEvent"
proof -
  have "NOT kWriteEvent AND kReadEvent = kReadEvent"
    by (simp add: event_masks poll_flags)
  then show ?thesis by (simp add: and.assoc)
qed

lemma isWriting_or [simp]:
  "Channel_isWriting (ch\<lparr>ch_events := ch_events ch OR kWriteEvent\<rparr>)"
  by (simp add: Channel_isWriting_def and_or_kWriteEvent)

lemma isWriting_and_not [simp]:
  "\<not> Channel_isWriting (ch\<lparr>ch_events := ch_events ch AND NOT kWriteEvent\<rparr>)"
  by (simp add: Channel_isWriting_def and_not_mask)

lemma isReading_and_not_write [simp]:
  "Channel_isReading (ch\<lparr>ch_events := ch_events ch AND NOT kWriteEvent\<rparr>) = Channel_isReading ch"
  by (simp add: Channel_isReading_def and_not_write_read)

end
