(* ===== verification/PollPoller.thy ===== *)
theory PollPoller
  imports Channel
begin

text \<open>
  \<open>PollPoller.cpp\<close>: the array of \<open>pollfd\<close> structures handed to \<open>poll(2)\<close>, the map
  from descriptors to channels, and the operations that register a channel, change its
  interest, remove it and collect the active channels after a poll. A state is the poller
  together with the store of channel objects, because registration writes the channel's
  \<open>index_\<close> and polling writes its \<open>revents_\<close>.
\<close>

section \<open>State\<close>

record pollfd =
  pfd_fd :: int
  pfd_events :: "16 word"
  pfd_revents :: "16 word"

record poller =
  pl_ownerLoop :: loop_id
  pl_pollfds :: "pollfd list"
  pl_channels :: "int \<rightharpoonup> chan_id"

type_synonym 'cb pstate = "poller \<times> 'cb heap"

definition PollPoller_new :: "loop_id \<Rightarrow> poller" where
  "PollPoller_new loop = \<lparr>pl_ownerLoop = loop, pl_pollfds = [], pl_channels = Map.empty\<rparr>"

section \<open>Operations\<close>

definition Poller_hasChannel :: "'cb channel \<Rightarrow> poller \<Rightarrow> bool" where
  "Poller_hasChannel ch p \<longleftrightarrow> pl_channels p (ch_fd ch) \<noteq> None"

definition new_pollfd :: "'cb channel \<Rightarrow> pollfd" where
  "new_pollfd ch = \<lparr>pfd_fd = ch_fd ch, pfd_events = ucast (ch_events ch), pfd_revents = 0\<rparr>"

definition set_pollfd :: "'cb channel \<Rightarrow> pollfd \<Rightarrow> pollfd" where
  "set_pollfd ch pf =
     (let pf1 = pf\<lparr>pfd_events := ucast (ch_events ch), pfd_revents := 0\<rparr>
      in if Channel_isNoneEvent ch then pf1\<lparr>pfd_fd := -1\<rparr> else pf1)"

fun PollPoller_updateChannel :: "chan_id \<Rightarrow> 'cb pstate stmt" where
  "PollPoller_updateChannel c (p, h) =
     (case h c of
        None \<Rightarrow> Fault UseAfterFree
      | Some ch \<Rightarrow>
          if ch_index ch < 0 then
            if pl_channels p (ch_fd ch) \<noteq> None then Fault AssertFailed
            else
              let pfds = pl_pollfds p @ [new_pollfd ch]
              in Ok (p\<lparr>pl_pollfds := pfds, pl_channels := (pl_channels p)(ch_fd ch \<mapsto> c)\<rparr>,
                     h(c \<mapsto> Channel_set_index (int (length pfds) - 1) ch))
          else if pl_channels p (ch_fd ch) = None then Fault AssertFailed
          else if pl_channels p (ch_fd ch) \<noteq> Some c then Fault AssertFailed
          else
            let idx = ch_index ch
            in if \<not> (0 \<le> idx \<and> idx < int (length (pl_pollfds p))) then Fault AssertFailed
               else
                 let pf = pl_pollfds p ! nat idx
                 in if \<not> (pfd_fd pf = ch_fd ch \<or> pfd_fd pf = -1) then Fault AssertFailed
                    else Ok (p\<lparr>pl_pollfds := (pl_pollfds p)[nat idx := set_pollfd ch pf]\<rparr>, h))"

fun PollPoller_removeChannel :: "chan_id \<Rightarrow> 'cb pstate stmt" where
  "PollPoller_removeChannel c (p, h) =
     (case h c of
        None \<Rightarrow> Fault UseAfterFree
      | Some ch \<Rightarrow>
          (case pl_channels p (ch_fd ch) of
             None \<Rightarrow> Fault AssertFailed
           | Some c2 \<Rightarrow>
               (case h c2 of
                  None \<Rightarrow> Fault UseAfterFree
                | Some ch2 \<Rightarrow>
                    let i = ch_index ch2
                    in if \<not> (0 \<le> i \<and> i < int (length (pl_pollfds p)))
                       then Fault UndefinedBehaviour
                       else Ok (p\<lparr>pl_pollfds :=
                                    take (nat i) (pl_pollfds p) @ drop (Suc (nat i)) (pl_pollfds p),
                                  pl_channels := (pl_channels p)(ch_fd ch := None)\<rparr>,
                                h(c \<mapsto> Channel_set_index (-1) ch)))))"

text \<open>
  \<open>fillActiveChannels\<close> walks the array while \<open>numEvents\<close> is positive; \<open>revents\<close> is a
  signed 16-bit field. The walk appends to the caller's list of active channels.
\<close>

fun PollPoller_fillActiveChannels ::
  "int \<Rightarrow> pollfd list \<Rightarrow> (int \<rightharpoonup> chan_id) \<Rightarrow> 'cb heap \<Rightarrow> chan_id list
   \<Rightarrow> (chan_id list \<times> 'cb heap) res" where
  "PollPoller_fillActiveChannels numEvents [] m h active = Ok (active, h)"
| "PollPoller_fillActiveChannels numEvents (pf # pfs) m h active =
     (if \<not> 0 < numEvents then Ok (active, h)
      else if 0 <s pfd_revents pf then
        (case m (pfd_fd pf) of
           None \<Rightarrow> Fault AssertFailed
         | Some c \<Rightarrow>
             (case h c of
                None \<Rightarrow> Fault UseAfterFree
              | Some ch \<Rightarrow>
                  if ch_fd ch \<noteq> pfd_fd pf then Fault AssertFailed
                  else PollPoller_fillActiveChannels (numEvents - 1) pfs m
                         (h(c \<mapsto> Channel_set_revents (scast (pfd_revents pf)) ch)) (active @ [c])))
      else PollPoller_fillActiveChannels numEvents pfs m h active)"

text \<open>
  \<open>poll(2)\<close> itself is the environment: it is given by the number it returns and the
  \<open>revents\<close> it stores into the array, one per entry.
\<close>

definition store_revents :: "16 word list \<Rightarrow> poller \<Rightarrow> poller" where
  "store_revents rs p =
     p\<lparr>pl_pollfds := map2 (\<lambda>pf r. pf\<lparr>pfd_revents := r\<rparr>) (pl_pollfds p) rs\<rparr>"

fun PollPoller_poll ::
  "int \<times> 16 word list \<Rightarrow> chan_id list \<Rightarrow> 'cb pstate \<Rightarrow> (chan_id list \<times> 'cb pstate) res" where
  "PollPoller_poll (numEvents, rs) active (p, h) =
     (let p1 = store_revents rs p
      in if 0 < numEvents
         then (case PollPoller_fillActiveChannels numEvents (pl_pollfds p1) (pl_channels p1) h active of
                 Inl e \<Rightarrow> Inl e
               | Inr (active', h') \<Rightarrow> Ok (active', (p1, h')))
         else Ok (active, (p1, h)))"

section \<open>Registration invariant\<close>

text \<open>
  \<open>slot_of p h c i\<close>: channel \<open>c\<close> is registered with this poller and owns entry \<open>i\<close>
  of the array. \<open>poller_ok\<close>: every registered descriptor belongs to a live channel of
  this loop that owns an entry, entries and channels correspond one to one, and exactly the
  registered channels of the loop have a non-negative index.
\<close>

definition slot_of :: "poller \<Rightarrow> 'cb heap \<Rightarrow> chan_id \<Rightarrow> nat \<Rightarrow> bool" where
  "slot_of p h c i \<longleftrightarrow>
     (\<exists>ch. h c = Some ch \<and> pl_channels p (ch_fd ch) = Some c \<and> ch_index ch = int i)"

fun registered :: "'cb pstate \<Rightarrow> chan_id set" where
  "registered (p, h) = {c. \<exists>ch. h c = Some ch \<and> pl_channels p (ch_fd ch) = Some c}"

definition entry_ok :: "poller \<Rightarrow> 'cb channel \<Rightarrow> bool" where
  "entry_ok p ch \<longleftrightarrow>
     ch_loop ch = pl_ownerLoop p \<and> 0 \<le> ch_index ch \<and> ch_index ch < int (length (pl_pollfds p)) \<and>
     pfd_fd (pl_pollfds p ! nat (ch_index ch)) \<in> {ch_fd ch, -1}"

fun poller_ok :: "'cb pstate \<Rightarrow> bool" where
  "poller_ok (p, h) \<longleftrightarrow>
     (\<forall>fd c. pl_channels p fd = Some c \<longrightarrow> (\<exists>ch. h c = Some ch \<and> ch_fd ch = fd \<and> entry_ok p ch)) \<and>
     (\<forall>c ch. h c = Some ch \<longrightarrow> ch_loop ch = pl_ownerLoop p \<longrightarrow> 0 \<le> ch_index ch \<longrightarrow>
        pl_channels p (ch_fd ch) = Some c) \<and>
     (\<forall>c d i. slot_of p h c i \<longrightarrow> slot_of p h d i \<longrightarrow> c = d) \<and>
     (\<forall>i < length (pl_pollfds p). \<exists>c. slot_of p h c i)"

text \<open>A live channel of the poller's own loop whose descriptor is its own or free.\<close>

fun updatable :: "'cb pstate \<Rightarrow> chan_id \<Rightarrow> bool" where
  "updatable (p, h) c \<longleftrightarrow>
     (\<exists>ch. h c = Some ch \<and> ch_loop ch = pl_ownerLoop p \<and>
        (pl_channels p (ch_fd ch) = None \<or> pl_channels p (ch_fd ch) = Some c))"

declare poller_ok.simps [simp del]

lemma poller_okD_reg:
  assumes "poller_ok (p, h)" "pl_channels p fd = Some c"
  obtains ch where "h c = Some ch" "ch_fd ch = fd" "entry_ok p ch"
  using assms unfolding poller_ok.simps by blast

lemma poller_okD_entry:
  assumes "poller_ok (p, h)" "h c = Some ch" "pl_channels p (ch_fd ch) = Some c"
  shows "entry_ok p ch"
  using poller_okD_reg [OF assms(1,3)] assms(2) by (metis option.inject)

lemma poller_okD_index:
  assumes "poller_ok (p, h)" "h c = Some ch" "ch_loop ch = pl_ownerLoop p" "0 \<le> ch_index ch"
  shows "pl_channels p (ch_fd ch) = Some c"
  using assms unfolding poller_ok.simps by blast

lemma slot_unique:
  assumes "poller_ok (p, h)" "slot_of p h c i" "slot_of p h d i"
  shows "c = d"
  using assms unfolding poller_ok.simps by blast

lemma poller_okD_slot:
  assumes "poller_ok (p, h)" "i < length (pl_pollfds p)"
  obtains c where "slot_of p h c i"
  using assms unfolding poller_ok.simps by blast

lemma poller_okI:
  assumes "\<And>fd c. pl_channels p fd = Some c \<Longrightarrow> \<exists>ch. h c = Some ch \<and> ch_fd ch = fd \<and> entry_ok p ch"
    and "\<And>c ch. h c = Some ch \<Longrightarrow> ch_loop ch = pl_ownerLoop p \<Longrightarrow> 0 \<le> ch_index ch \<Longrightarrow>
      pl_channels p (ch_fd ch) = Some c"
    and "\<And>c d i. slot_of p h c i \<Longrightarrow> slot_of p h d i \<Longrightarrow> c = d"
    and "\<And>i. i < length (pl_pollfds p) \<Longrightarrow> \<exists>c. slot_of p h c i"
  shows "poller_ok (p, h)"
  using assms unfolding poller_ok.simps by blast

lemma slot_bound:
  assumes "poller_ok (p, h)" "slot_of p h c i"
  shows "i < length (pl_pollfds p)"
  using assms(2) poller_okD_entry [OF assms(1)] by (fastforce simp: slot_of_def entry_ok_def)

lemma poller_ok_index:
  assumes "poller_ok (p, h)" "h c = Some ch" "ch_loop ch = pl_ownerLoop p"
  shows "pl_channels p (ch_fd ch) = Some c \<longleftrightarrow> 0 \<le> ch_index ch"
  using poller_okD_entry [OF assms(1,2)] poller_okD_index [OF assms]
  by (auto simp: entry_ok_def)

lemma poller_ok_new: "(\<And>c ch. h c = Some ch \<Longrightarrow> ch_loop ch \<noteq> l) \<Longrightarrow> poller_ok (PollPoller_new l, h)"
  by (rule poller_okI) (auto simp: PollPoller_new_def slot_of_def)

section \<open>Registration and update\<close>

text \<open>First registration: a new entry at the end of the array.\<close>

lemma update_register:
  assumes "h c = Some ch" "ch_index ch < 0" "pl_channels p (ch_fd ch) = None"
  shows "PollPoller_updateChannel c (p, h) =
    Ok (p\<lparr>pl_pollfds := pl_pollfds p @ [new_pollfd ch],
          pl_channels := (pl_channels p)(ch_fd ch \<mapsto> c)\<rparr>,
        h(c \<mapsto> ch\<lparr>ch_index := int (length (pl_pollfds p))\<rparr>))"
  using assms by (simp add: Let_def)

lemma poller_ok_register:
  assumes ok: "poller_ok (p, h)"
    and ch: "h c = Some ch" "ch_loop ch = pl_ownerLoop p" "ch_index ch < 0"
      "pl_channels p (ch_fd ch) = None"
  defines "p' \<equiv> p\<lparr>pl_pollfds := pl_pollfds p @ [new_pollfd ch],
                  pl_channels := (pl_channels p)(ch_fd ch \<mapsto> c)\<rparr>"
    and "h' \<equiv> h(c \<mapsto> ch\<lparr>ch_index := int (length (pl_pollfds p))\<rparr>)"
  shows "poller_ok (p', h')" "registered (p', h') = insert c (registered (p, h))"
proof -
  let ?n = "length (pl_pollfds p)"
  have other: "d \<noteq> c" if "pl_channels p fd = Some d" for fd d
    using poller_okD_entry [OF ok ch(1)] ch that by (metis (no_types, lifting) entry_ok_def
      option.distinct(1) option.inject poller_okD_reg [OF ok])
  have old: "entry_ok p' e" if "entry_ok p e" for e
    using that by (auto simp: entry_ok_def p'_def nth_append)
  have slot: "slot_of p' h' d i \<longleftrightarrow> (if d = c then i = ?n else slot_of p h d i)" for d i
  proof (cases "d = c")
    case True
    with ch show ?thesis by (auto simp: slot_of_def p'_def h'_def)
  next
    case False
    then have "h' d = h d" by (simp add: h'_def)
    moreover have "ch_fd e \<noteq> ch_fd ch" if "h d = Some e" "pl_channels p (ch_fd e) = Some d" for e
      using that ch(4) by auto
    ultimately show ?thesis
      using False by (auto simp: slot_of_def p'_def)
  qed
  have bound: "i < ?n" if "slot_of p h d i" for d i
    using that by (rule slot_bound [OF ok])
  have new: "entry_ok p' (ch\<lparr>ch_index := int ?n\<rparr>)"
    using ch by (simp add: entry_ok_def p'_def new_pollfd_def)
  have 1: "\<exists>e. h' d = Some e \<and> ch_fd e = fd \<and> entry_ok p' e" if "pl_channels p' fd = Some d" for fd d
  proof (cases "fd = ch_fd ch")
    case True
    with that new show ?thesis by (simp add: p'_def h'_def)
  next
    case False
    with that have "pl_channels p fd = Some d" by (simp add: p'_def)
    with other show ?thesis
      using poller_okD_reg [OF ok] old by (metis fun_upd_other h'_def)
  qed
  have 2: "pl_channels p' (ch_fd e) = Some d"
    if "h' d = Some e" "ch_loop e = pl_ownerLoop p'" "0 \<le> ch_index e" for d e
  proof (cases "d = c")
    case True
    with that ch show ?thesis by (auto simp: p'_def h'_def)
  next
    case False
    with that have "pl_channels p (ch_fd e) = Some d"
      by (intro poller_okD_index [OF ok]) (auto simp: p'_def h'_def)
    with ch show ?thesis by (auto simp: p'_def)
  qed
  have 3: "d = e" if "slot_of p' h' d i" "slot_of p' h' e i" for d e i
    using that slot bound slot_unique [OF ok] by (metis less_irrefl)
  have 4: "\<exists>d. slot_of p' h' d i" if "i < length (pl_pollfds p')" for i
  proof (cases "i = ?n")
    case True
    with slot show ?thesis by metis
  next
    case False
    with that have "i < ?n" by (simp add: p'_def)
    then obtain d where d: "slot_of p h d i" by (rule poller_okD_slot [OF ok])
    then have "d \<noteq> c" using ch by (auto simp: slot_of_def)
    with d slot show ?thesis by metis
  qed
  show "poller_ok (p', h')"
    using 1 2 3 4 by (rule poller_okI)
  have "d \<in> registered (p', h') \<longleftrightarrow> d = c \<or> d \<in> registered (p, h)" for d
  proof (cases "d = c")
    case True
    then show ?thesis by (simp add: p'_def h'_def)
  next
    case False
    then have "h' d = h d" by (simp add: h'_def)
    moreover have "ch_fd e \<noteq> ch_fd ch" if "h d = Some e" "pl_channels p (ch_fd e) = Some d" for e
      using that ch(4) by auto
    ultimately show ?thesis using False by (auto simp: p'_def)
  qed
  then show "registered (p', h') = insert c (registered (p, h))"
    by (auto simp del: registered.simps)
qed

text \<open>A later update rewrites the channel's own entry.\<close>

lemma update_existing:
  assumes ok: "poller_ok (p, h)" and ch: "h c = Some ch" "pl_channels p (ch_fd ch) = Some c"
  shows "PollPoller_updateChannel c (p, h) =
    Ok (p\<lparr>pl_pollfds := (pl_pollfds p)[nat (ch_index ch) :=
             set_pollfd ch (pl_pollfds p ! nat (ch_index ch))]\<rparr>, h)"
proof -
  from poller_okD_entry [OF ok ch] have "entry_ok p ch" .
  then show ?thesis using ch by (auto simp: entry_ok_def Let_def)
qed

lemma poller_ok_rewrite:
  assumes ok: "poller_ok (p, h)" and ch: "h c = Some ch" "pl_channels p (ch_fd ch) = Some c"
  defines "p' \<equiv> p\<lparr>pl_pollfds := (pl_pollfds p)[nat (ch_index ch) :=
             set_pollfd ch (pl_pollfds p ! nat (ch_index ch))]\<rparr>"
  shows "poller_ok (p', h)" "registered (p', h) = registered (p, h)"
proof -
  let ?i = "nat (ch_index ch)"
  have entry: "entry_ok p ch"
    by (rule poller_okD_entry [OF ok ch])
  have slot: "slot_of p' h d i \<longleftrightarrow> slot_of p h d i" for d i
    by (simp add: slot_of_def p'_def)
  have mine: "slot_of p h c ?i"
    using ch entry by (auto simp: slot_of_def entry_ok_def)
  have keep: "entry_ok p' e" if "h d = Some e" "pl_channels p (ch_fd e) = Some d" "entry_ok p e" for d e
  proof (cases "d = c")
    case True
    with that ch entry show ?thesis
      by (auto simp: entry_ok_def p'_def set_pollfd_def Let_def)
  next
    case False
    have "slot_of p h d (nat (ch_index e))"
      using that by (auto simp: slot_of_def entry_ok_def)
    with False mine have "nat (ch_index e) \<noteq> ?i"
      using slot_unique [OF ok] by metis
    with that show ?thesis by (auto simp: entry_ok_def p'_def)
  qed
  have 1: "\<exists>e. h d = Some e \<and> ch_fd e = fd \<and> entry_ok p' e" if "pl_channels p' fd = Some d" for fd d
  proof -
    from that have "pl_channels p fd = Some d" by (simp add: p'_def)
    then show ?thesis using poller_okD_reg [OF ok] keep by metis
  qed
  have 2: "pl_channels p' (ch_fd e) = Some d"
    if "h d = Some e" "ch_loop e = pl_ownerLoop p'" "0 \<le> ch_index e" for d e
    using poller_okD_index [OF ok that(1)] that(2,3) by (simp add: p'_def)
  have 3: "d = e" if "slot_of p' h d i" "slot_of p' h e i" for d e i
    using that slot slot_unique [OF ok] by metis
  have 4: "\<exists>d. slot_of p' h d i" if "i < length (pl_pollfds p')" for i
  proof -
    from that have "i < length (pl_pollfds p)" by (simp add: p'_def)
    then obtain d where "slot_of p h d i" by (rule poller_okD_slot [OF ok])
    with slot show ?thesis by blast
  qed
  show "poller_ok (p', h)"
    using 1 2 3 4 by (rule poller_okI)
  show "registered (p', h) = registered (p, h)"
    by (simp add: p'_def)
qed

lemma updatable_cases:
  assumes "poller_ok (p, h)" "updatable (p, h) c"
  obtains (fresh) ch where "h c = Some ch" "ch_loop ch = pl_ownerLoop p" "ch_index ch < 0"
      "pl_channels p (ch_fd ch) = None"
    | (known) ch where "h c = Some ch" "pl_channels p (ch_fd ch) = Some c"
  using assms(2) poller_ok_index [OF assms(1)] by (auto simp: not_le [symmetric])

lemma update_ok:
  assumes ok: "poller_ok s" and up: "updatable s c"
  shows "\<exists>s'. PollPoller_updateChannel c s = Ok s' \<and> poller_ok s' \<and>
              registered s' = insert c (registered s)"
proof (cases s)
  case (Pair p h)
  with ok up have "poller_ok (p, h)" "updatable (p, h) c" by (simp_all only:)
  then show ?thesis
  proof (cases rule: updatable_cases)
    case (fresh ch)
    then show ?thesis
      unfolding Pair using poller_ok_register [OF \<open>poller_ok (p, h)\<close> fresh]
        update_register [of h c ch p, OF fresh(1,3,4)] by blast
  next
    case (known ch)
    then have "c \<in> registered (p, h)" by auto
    with known show ?thesis
      unfolding Pair using poller_ok_rewrite [OF \<open>poller_ok (p, h)\<close> known]
        update_existing [OF \<open>poller_ok (p, h)\<close> known] insert_absorb by metis
  qed
qed

section \<open>Removal\<close>

text \<open>
  Removal erases the channel's entry and shifts every later entry down by one, but leaves
  the \<open>index_\<close> of the later channels as it was.
\<close>

definition erase_at :: "nat \<Rightarrow> 'a list \<Rightarrow> 'a list" where
  "erase_at i xs = take i xs @ drop (Suc i) xs"

lemma length_erase_at: "i < length xs \<Longrightarrow> length (erase_at i xs) = length xs - 1"
  by (simp add: erase_at_def)

lemma nth_erase_at_less: "j < i \<Longrightarrow> i < length xs \<Longrightarrow> erase_at i xs ! j = xs ! j"
  by (simp add: erase_at_def nth_append)

lemma nth_erase_at_ge: "i \<le> j \<Longrightarrow> Suc j < length xs \<Longrightarrow> erase_at i xs ! j = xs ! Suc j"
  by (simp add: erase_at_def nth_append)

lemma remove_eq:
  assumes ok: "poller_ok (p, h)" and ch: "h c = Some ch" "pl_channels p (ch_fd ch) = Some c"
  shows "PollPoller_removeChannel c (p, h) =
    Ok (p\<lparr>pl_pollfds := erase_at (nat (ch_index ch)) (pl_pollfds p),
          pl_channels := (pl_channels p)(ch_fd ch := None)\<rparr>,
        h(c \<mapsto> ch\<lparr>ch_index := -1\<rparr>))"
  using poller_okD_entry [OF ok ch] ch by (simp add: entry_ok_def erase_at_def Let_def)

lemma remove_last_ok:
  assumes ok: "poller_ok (p, h)" and ch: "h c = Some ch" "pl_channels p (ch_fd ch) = Some c"
    and last: "ch_index ch = int (length (pl_pollfds p)) - 1"
  defines "p' \<equiv> p\<lparr>pl_pollfds := erase_at (nat (ch_index ch)) (pl_pollfds p),
                  pl_channels := (pl_channels p)(ch_fd ch := None)\<rparr>"
    and "h' \<equiv> h(c \<mapsto> ch\<lparr>ch_index := -1\<rparr>)"
  shows "poller_ok (p', h')" "registered (p', h') = registered (p, h) - {c}"
proof -
  let ?n = "length (pl_pollfds p)" and ?i = "nat (ch_index ch)"
  have entry: "entry_ok p ch" by (rule poller_okD_entry [OF ok ch])
  then have pos: "0 < ?n" and i: "?i = ?n - 1"
    using last by (auto simp: entry_ok_def)
  have mine: "slot_of p h c ?i"
    using ch entry by (auto simp: slot_of_def entry_ok_def)
  have len: "length (pl_pollfds p') = ?n - 1"
    using pos i by (simp add: p'_def length_erase_at)
  have other: "fd \<noteq> ch_fd ch \<longleftrightarrow> d \<noteq> c" if "pl_channels p fd = Some d" for fd d
    using that ch poller_okD_reg [OF ok that] by (metis option.inject)
  have slot: "slot_of p' h' d j \<longleftrightarrow> slot_of p h d j \<and> d \<noteq> c" for d j
    using ch other by (auto simp: slot_of_def p'_def h'_def)
  have keep: "entry_ok p' e" if "h d = Some e" "pl_channels p (ch_fd e) = Some d" "d \<noteq> c" for d e
  proof -
    have e: "entry_ok p e" using that(1,2) by (rule poller_okD_entry [OF ok])
    then have "slot_of p h d (nat (ch_index e))"
      using that by (auto simp: slot_of_def entry_ok_def)
    with mine that(3) have "nat (ch_index e) \<noteq> ?n - 1"
      using slot_unique [OF ok] i by metis
    with e have "nat (ch_index e) < ?n - 1" "ch_index e < int ?n - 1"
      by (auto simp: entry_ok_def)
    with e pos i len show ?thesis
      by (simp add: entry_ok_def p'_def nth_erase_at_less)
  qed
  have 1: "\<exists>e. h' d = Some e \<and> ch_fd e = fd \<and> entry_ok p' e" if "pl_channels p' fd = Some d" for fd d
  proof -
    from that have old: "pl_channels p fd = Some d" and "fd \<noteq> ch_fd ch"
      by (auto simp: p'_def split: if_splits)
    with other have "d \<noteq> c" by blast
    with old show ?thesis
      using poller_okD_reg [OF ok old] keep by (metis fun_upd_other h'_def)
  qed
  have 2: "pl_channels p' (ch_fd e) = Some d"
    if "h' d = Some e" "ch_loop e = pl_ownerLoop p'" "0 \<le> ch_index e" for d e
  proof -
    from that have d: "d \<noteq> c" "h d = Some e" by (auto simp: h'_def split: if_splits)
    with that have "pl_channels p (ch_fd e) = Some d"
      by (intro poller_okD_index [OF ok]) (auto simp: p'_def)
    with other d show ?thesis by (auto simp: p'_def)
  qed
  have 3: "d = e" if "slot_of p' h' d j" "slot_of p' h' e j" for d e j
    using that slot slot_unique [OF ok] by metis
  have 4: "\<exists>d. slot_of p' h' d j" if "j < length (pl_pollfds p')" for j
  proof -
    from that len have "j < ?n" "j \<noteq> ?i" by (auto simp: i)
    then obtain d where d: "slot_of p h d j" by (auto intro: poller_okD_slot [OF ok])
    then have "d \<noteq> c" using ch \<open>j \<noteq> ?i\<close> by (auto simp: slot_of_def)
    with d slot show ?thesis by blast
  qed
  show "poller_ok (p', h')"
    using 1 2 3 4 by (rule poller_okI)
  show "registered (p', h') = registered (p, h) - {c}"
    using ch other by (auto simp: p'_def h'_def split: if_splits)
qed

text \<open>
  After a removal the later channels keep their indices while their entries move down by one:
  an update works on the entry behind the right one.
\<close>

lemma later_channels_after_remove:
  assumes ok: "poller_ok (p, h)"
    and c: "slot_of p h c i" and d: "slot_of p h d j" and "i < j"
  obtains p' h' where "PollPoller_removeChannel c (p, h) = Ok (p', h')" "slot_of p' h' d j"
    "pl_pollfds p' = erase_at i (pl_pollfds p)" "pl_pollfds p' ! (j - 1) = pl_pollfds p ! j"
    "Suc j < length (pl_pollfds p) \<Longrightarrow> pfd_fd (pl_pollfds p ! Suc j) = -1 \<Longrightarrow>
      \<exists>p'' pf. PollPoller_updateChannel d (p', h') = Ok (p'', h') \<and> pl_pollfds p'' = (pl_pollfds p')[j := pf]"
    "\<not> (Suc j < length (pl_pollfds p) \<and> pfd_fd (pl_pollfds p ! Suc j) = -1) \<Longrightarrow>
      PollPoller_updateChannel d (p', h') = Fault AssertFailed"
proof -
  obtain ch where ch: "h c = Some ch" "pl_channels p (ch_fd ch) = Some c" "ch_index ch = int i"
    using c by (auto simp: slot_of_def)
  obtain dh where dh: "h d = Some dh" "pl_channels p (ch_fd dh) = Some d" "ch_index dh = int j"
    using d by (auto simp: slot_of_def)
  have "c \<noteq> d" using ch dh \<open>i < j\<close> by auto
  then have fds: "ch_fd ch \<noteq> ch_fd dh" using ch dh by auto
  have j: "j < length (pl_pollfds p)" using d by (rule slot_bound [OF ok])
  then have len: "length (erase_at i (pl_pollfds p)) = length (pl_pollfds p) - 1"
    using \<open>i < j\<close> by (simp add: length_erase_at)
  let ?p = "p\<lparr>pl_pollfds := erase_at i (pl_pollfds p), pl_channels := (pl_channels p)(ch_fd ch := None)\<rparr>"
  let ?h = "h(c \<mapsto> ch\<lparr>ch_index := -1\<rparr>)"
  show thesis
  proof (rule that [of ?p ?h])
    show "PollPoller_removeChannel c (p, h) = Ok (?p, ?h)"
      using remove_eq [OF ok ch(1,2)] ch(3) by simp
    show "slot_of ?p ?h d j" using dh fds \<open>c \<noteq> d\<close> by (simp add: slot_of_def)
    show "pl_pollfds ?p ! (j - 1) = pl_pollfds p ! j"
      using \<open>i < j\<close> j nth_erase_at_ge [of i "j - 1" "pl_pollfds p"] by simp
    have moved: "pl_pollfds ?p ! j = pl_pollfds p ! Suc j" if "Suc j < length (pl_pollfds p)"
      using that \<open>i < j\<close> by (simp add: nth_erase_at_ge)
    show "\<exists>p'' pf. PollPoller_updateChannel d (?p, ?h) = Ok (p'', ?h) \<and> pl_pollfds p'' = (pl_pollfds ?p)[j := pf]"
      if "Suc j < length (pl_pollfds p)" "pfd_fd (pl_pollfds p ! Suc j) = -1"
      using that moved [OF that(1)] dh fds \<open>c \<noteq> d\<close> len by (auto simp: Let_def)
    show "PollPoller_updateChannel d (?p, ?h) = Fault AssertFailed"
      if live: "\<not> (Suc j < length (pl_pollfds p) \<and> pfd_fd (pl_pollfds p ! Suc j) = -1)"
    proof (cases "Suc j < length (pl_pollfds p)")
      case False
      with j have "length (erase_at i (pl_pollfds p)) = j" using len by simp
      with dh fds \<open>c \<noteq> d\<close> show ?thesis by simp
    next
      case True
      then obtain e where e: "slot_of p h e (Suc j)" by (rule poller_okD_slot [OF ok])
      then obtain eh where eh: "h e = Some eh" "pl_channels p (ch_fd eh) = Some e" "ch_index eh = int (Suc j)"
        by (auto simp: slot_of_def)
      have "pfd_fd (pl_pollfds p ! Suc j) = ch_fd eh"
        using poller_okD_entry [OF ok eh(1,2)] eh(3) live True
        by (auto simp: entry_ok_def simp del: of_nat_Suc)
      moreover have "ch_fd eh \<noteq> ch_fd dh" using eh dh by auto
      ultimately show ?thesis
        using dh fds \<open>c \<noteq> d\<close> True live moved [OF True] by (simp add: Let_def)
    qed
  qed simp
qed

section \<open>Collecting the active channels\<close>

text \<open>
  What \<open>poll(2)\<close> documents: one \<open>revents\<close> per entry, zero for an entry whose descriptor
  is negative, only defined flags (a positive 16-bit value) elsewhere, and the returned
  number is the number of entries with events (a negative one reports an error).
\<close>

fun poll_contract :: "poller \<Rightarrow> int \<times> 16 word list \<Rightarrow> bool" where
  "poll_contract p (n, rs) \<longleftrightarrow>
     length rs = length (pl_pollfds p) \<and>
     (\<forall>(pf, r) \<in> set (zip (pl_pollfds p) rs). pfd_fd pf < 0 \<longrightarrow> r = 0) \<and>
     (\<forall>r \<in> set rs. r \<noteq> 0 \<longrightarrow> 0 <s r) \<and>
     n = int (length (filter (\<lambda>r. r \<noteq> 0) rs))"

definition ready_entry :: "pollfd \<Rightarrow> bool" where
  "ready_entry pf \<longleftrightarrow> 0 <s pfd_revents pf"

definition active_of :: "(int \<rightharpoonup> chan_id) \<Rightarrow> pollfd list \<Rightarrow> chan_id list" where
  "active_of m pfs = map (\<lambda>pf. the (m (pfd_fd pf))) (filter ready_entry pfs)"

primrec mark_revents :: "(int \<rightharpoonup> chan_id) \<Rightarrow> pollfd list \<Rightarrow> 'cb heap \<Rightarrow> 'cb heap" where
  "mark_revents m [] h = h"
| "mark_revents m (pf # pfs) h =
     (if ready_entry pf
      then mark_revents m pfs (case m (pfd_fd pf) of None \<Rightarrow> h | Some c \<Rightarrow>
             h(c := map_option (ch_revents_update (\<lambda>_. scast (pfd_revents pf))) (h c)))
      else mark_revents m pfs h)"

lemma fillActiveChannels_eq:
  assumes "\<forall>pf \<in> set pfs. ready_entry pf \<longrightarrow>
      (\<exists>c ch. m (pfd_fd pf) = Some c \<and> h c = Some ch \<and> ch_fd ch = pfd_fd pf)"
    and "n = int (length (filter ready_entry pfs))"
  shows "PollPoller_fillActiveChannels n pfs m h act =
           Ok (act @ active_of m pfs, mark_revents m pfs h)"
  using assms
proof (induction pfs arbitrary: n h act)
  case Nil
  then show ?case by (simp add: active_of_def)
next
  case (Cons pf pfs)
  show ?case
  proof (cases "ready_entry pf")
    case False
    have "PollPoller_fillActiveChannels n pfs m h act = Ok (act @ active_of m pfs, mark_revents m pfs h)"
      using Cons.prems False by (intro Cons.IH) auto
    moreover have "active_of m pfs = []" "mark_revents m pfs h = h" if "n = 0"
    proof -
      from that Cons.prems(2) False have none: "filter ready_entry pfs = []" by simp
      then show "active_of m pfs = []" by (simp add: active_of_def)
      from none show "mark_revents m pfs h = h" by (induction pfs) (auto split: if_splits)
    qed
    ultimately show ?thesis
      using False Cons.prems(2) by (auto simp: ready_entry_def active_of_def)
  next
    case True
    with Cons.prems(1) obtain c ch where
      c: "m (pfd_fd pf) = Some c" "h c = Some ch" "ch_fd ch = pfd_fd pf" by auto
    let ?h = "h(c \<mapsto> ch\<lparr>ch_revents := scast (pfd_revents pf)\<rparr>)"
    have "PollPoller_fillActiveChannels (n - 1) pfs m ?h (act @ [c]) =
        Ok ((act @ [c]) @ active_of m pfs, mark_revents m pfs ?h)"
    proof (rule Cons.IH)
      show "\<forall>pf\<in>set pfs. ready_entry pf \<longrightarrow>
          (\<exists>d dh. m (pfd_fd pf) = Some d \<and> ?h d = Some dh \<and> ch_fd dh = pfd_fd pf)"
        using Cons.prems(1) c by fastforce
      show "n - 1 = int (length (filter ready_entry pfs))"
        using Cons.prems(2) True by simp
    qed
    with c True Cons.prems(2) show ?thesis
      by (auto simp: ready_entry_def active_of_def)
  qed
qed

lemma mark_revents_other:
  "\<forall>pf \<in> set pfs. ready_entry pf \<longrightarrow> m (pfd_fd pf) \<noteq> Some c \<Longrightarrow> mark_revents m pfs h c = h c"
  by (induction pfs arbitrary: h) (auto split: option.splits)

lemma mark_revents_append:
  "mark_revents m (xs @ ys) h = mark_revents m ys (mark_revents m xs h)"
  by (induction xs arbitrary: h) auto

lemma mark_revents_at:
  assumes dist: "distinct (map pfd_fd (filter ready_entry pfs))"
    and pf: "pf \<in> set pfs" "ready_entry pf" "m (pfd_fd pf) = Some c" and h: "h c = Some ch"
    and only: "\<And>fd. m fd = Some c \<Longrightarrow> fd = pfd_fd pf"
  shows "mark_revents m pfs h c = Some (ch\<lparr>ch_revents := scast (pfd_revents pf)\<rparr>)"
proof -
  from pf(1) obtain xs ys where pfs: "pfs = xs @ pf # ys" by (auto dest: split_list)
  have xs: "mark_revents m xs h' c = h' c" for h'
  proof (rule mark_revents_other, intro ballI impI notI)
    fix q assume "q \<in> set xs" "ready_entry q" "m (pfd_fd q) = Some c"
    with only dist pf(2) show False by (auto simp: pfs image_iff)
  qed
  have ys: "mark_revents m ys h' c = h' c" for h'
  proof (rule mark_revents_other, intro ballI impI notI)
    fix q assume "q \<in> set ys" "ready_entry q" "m (pfd_fd q) = Some c"
    with only dist pf(2) show False by (auto simp: pfs image_iff)
  qed
  show ?thesis
    using pf h by (simp add: pfs mark_revents_append xs ys)
qed

lemma poller_ok_frame:
  assumes ok: "poller_ok (p, h)"
    and p': "pl_ownerLoop p' = pl_ownerLoop p" "pl_channels p' = pl_channels p"
      "map pfd_fd (pl_pollfds p') = map pfd_fd (pl_pollfds p)"
    and h': "\<And>c. map_option (\<lambda>ch. (ch_loop ch, ch_fd ch, ch_index ch)) (h' c) =
                 map_option (\<lambda>ch. (ch_loop ch, ch_fd ch, ch_index ch)) (h c)"
  shows "poller_ok (p', h')" "slot_of p' h' c i \<longleftrightarrow> slot_of p h c i"
proof -
  have len: "length (pl_pollfds p') = length (pl_pollfds p)"
    using p'(3) by (metis length_map)
  have nth: "pfd_fd (pl_pollfds p' ! k) = pfd_fd (pl_pollfds p ! k)" if "k < length (pl_pollfds p)" for k
    using that len p'(3) by (metis nth_map)
  have there: "\<exists>e. h' d = Some e \<and> ch_loop e = ch_loop dh \<and> ch_fd e = ch_fd dh \<and> ch_index e = ch_index dh"
    if "h d = Some dh" for d dh
    using h' [of d] that by (cases "h' d") auto
  have conv: "\<exists>e. h d = Some e \<and> ch_loop e = ch_loop dh \<and> ch_fd e = ch_fd dh \<and> ch_index e = ch_index dh"
    if "h' d = Some dh" for d dh
    using h' [of d] that by (cases "h d") auto
  have slot: "slot_of p' h' d j \<longleftrightarrow> slot_of p h d j" for d j
    unfolding slot_of_def p'(2) using there [of d] conv [of d] by metis
  have 1: "\<exists>e. h' d = Some e \<and> ch_fd e = fd \<and> entry_ok p' e" if "pl_channels p' fd = Some d" for fd d
  proof -
    from that p'(2) have "pl_channels p fd = Some d" by simp
    then obtain dh where dh: "h d = Some dh" "ch_fd dh = fd" "entry_ok p dh"
      by (rule poller_okD_reg [OF ok])
    then obtain e where "h' d = Some e" "ch_loop e = ch_loop dh" "ch_fd e = fd" "ch_index e = ch_index dh"
      using there by blast
    with dh nth len p'(1) show ?thesis by (auto simp: entry_ok_def)
  qed
  have 2: "pl_channels p' (ch_fd e) = Some d"
    if "h' d = Some e" "ch_loop e = pl_ownerLoop p'" "0 \<le> ch_index e" for d e
    using conv [OF that(1)] that(2,3) poller_okD_index [OF ok] p'(1,2) by metis
  have 3: "d = e" if "slot_of p' h' d j" "slot_of p' h' e j" for d e j
    using that slot slot_unique [OF ok] by metis
  have 4: "\<exists>d. slot_of p' h' d j" if "j < length (pl_pollfds p')" for j
    using that len slot poller_okD_slot [OF ok] by metis
  show "poller_ok (p', h')" using 1 2 3 4 by (rule poller_okI)
  show "slot_of p' h' c i \<longleftrightarrow> slot_of p h c i" by (rule slot)
qed

lemma mark_revents_keys:
  "map_option (\<lambda>ch. (ch_loop ch, ch_fd ch, ch_index ch)) (mark_revents m pfs h c) =
   map_option (\<lambda>ch. (ch_loop ch, ch_fd ch, ch_index ch)) (h c)"
  by (induction pfs arbitrary: h) (auto simp: option.map_comp comp_def split: option.splits)

lemma distinct_map_filterI:
  "(\<And>i j. i < length xs \<Longrightarrow> j < length xs \<Longrightarrow> P (xs ! i) \<Longrightarrow> P (xs ! j) \<Longrightarrow> f (xs ! i) = f (xs ! j) \<Longrightarrow> i = j)
   \<Longrightarrow> distinct (map f (filter P xs))"
proof (induction xs)
  case Nil
  then show ?case by simp
next
  case (Cons x xs)
  have "distinct (map f (filter P xs))"
    using Cons.prems [of "Suc i" "Suc j" for i j] by (intro Cons.IH) auto
  moreover have "f y \<noteq> f x" if "y \<in> set xs" "P y" "P x" for y
    using that Cons.prems [of 0 "Suc j" for j] by (fastforce simp: in_set_conv_nth)
  ultimately show ?case by (auto simp: image_iff) metis
qed

lemma store_revents_simps [simp]:
  "pl_ownerLoop (store_revents rs p) = pl_ownerLoop p"
  "pl_channels (store_revents rs p) = pl_channels p"
  "length rs = length (pl_pollfds p) \<Longrightarrow>
     map pfd_fd (pl_pollfds (store_revents rs p)) = map pfd_fd (pl_pollfds p)"
  by (auto simp: store_revents_def intro: nth_equalityI)

lemma nth_store_revents:
  "length rs = length (pl_pollfds p) \<Longrightarrow> i < length rs \<Longrightarrow>
     pl_pollfds (store_revents rs p) ! i = (pl_pollfds p ! i)\<lparr>pfd_revents := rs ! i\<rparr>"
  by (simp add: store_revents_def)

text \<open>An entry with events belongs to a registered channel with that descriptor.\<close>

lemma ready_slot:
  assumes ok: "poller_ok (p, h)" and con: "poll_contract p (n, rs)"
    and i: "i < length rs" "rs ! i \<noteq> 0"
  obtains c ch where "h c = Some ch" "pl_channels p (ch_fd ch) = Some c" "ch_index ch = int i"
    "pfd_fd (pl_pollfds p ! i) = ch_fd ch"
proof -
  have len: "length rs = length (pl_pollfds p)" using con by simp
  have "(pl_pollfds p ! i, rs ! i) \<in> set (zip (pl_pollfds p) rs)"
    using i len by (auto simp: in_set_zip)
  with con i(2) have fd: "0 \<le> pfd_fd (pl_pollfds p ! i)" by fastforce
  obtain c where "slot_of p h c i"
    using i(1) len by (metis poller_okD_slot [OF ok])
  then obtain ch where ch: "h c = Some ch" "pl_channels p (ch_fd ch) = Some c" "ch_index ch = int i"
    by (auto simp: slot_of_def)
  have "entry_ok p ch" using ch(1,2) by (rule poller_okD_entry [OF ok])
  with ch(3) fd have "pfd_fd (pl_pollfds p ! i) = ch_fd ch" by (auto simp: entry_ok_def)
  with ch show thesis by (rule that)
qed

lemma ready_store:
  assumes "poll_contract p (n, rs)" "i < length rs"
  shows "ready_entry (pl_pollfds (store_revents rs p) ! i) \<longleftrightarrow> rs ! i \<noteq> 0"
  using assms by (auto simp: ready_entry_def nth_store_revents word_sless_alt)

lemma filter_ready_length:
  assumes "poll_contract p (n, rs)"
  shows "length (filter ready_entry (pl_pollfds (store_revents rs p))) = length (filter (\<lambda>r. r \<noteq> 0) rs)"
proof -
  have "length (pl_pollfds (store_revents rs p)) = length rs"
    using assms by (simp add: store_revents_def)
  then show ?thesis
    using ready_store [OF assms] by (simp add: length_filter_conv_card cong: conj_cong)
qed

lemma poll_eq:
  assumes ok: "poller_ok (p, h)" and con: "poll_contract p (n, rs)"
  defines "pfs \<equiv> pl_pollfds (store_revents rs p)"
  shows "PollPoller_poll (n, rs) act (p, h) =
    Ok (act @ active_of (pl_channels p) pfs, (store_revents rs p, mark_revents (pl_channels p) pfs h))"
proof -
  have len: "length pfs = length rs" "length rs = length (pl_pollfds p)"
    using con by (simp_all add: pfs_def store_revents_def)
  have n: "n = int (length (filter ready_entry pfs))"
    using con filter_ready_length [OF con] by (simp add: pfs_def)
  have all: "\<forall>pf \<in> set pfs. ready_entry pf \<longrightarrow>
      (\<exists>c ch. pl_channels p (pfd_fd pf) = Some c \<and> h c = Some ch \<and> ch_fd ch = pfd_fd pf)"
  proof (intro ballI impI)
    fix pf assume "pf \<in> set pfs" and r: "ready_entry pf"
    then obtain i where i: "i < length rs" "pf = pfs ! i" by (auto simp: in_set_conv_nth len(1))
    with r have "rs ! i \<noteq> 0" using ready_store [OF con] by (simp add: pfs_def)
    with i(1) obtain c ch where ch: "h c = Some ch" "pl_channels p (ch_fd ch) = Some c"
      "pfd_fd (pl_pollfds p ! i) = ch_fd ch" by (rule ready_slot [OF ok con])
    moreover have "pfd_fd pf = pfd_fd (pl_pollfds p ! i)"
      using i len(2) by (simp add: pfs_def nth_store_revents)
    ultimately show "\<exists>c ch. pl_channels p (pfd_fd pf) = Some c \<and> h c = Some ch \<and> ch_fd ch = pfd_fd pf"
      by metis
  qed
  show ?thesis
  proof (cases "0 < n")
    case True
    with fillActiveChannels_eq [OF all n] show ?thesis by (simp add: pfs_def Let_def)
  next
    case False
    with n have none: "filter ready_entry pfs = []" by simp
    then have "mark_revents m pfs h = h" for m by (induction pfs) (auto split: if_splits)
    with False none show ?thesis by (simp add: pfs_def active_of_def Let_def)
  qed
qed

declare PollPoller_updateChannel.simps [simp del] PollPoller_removeChannel.simps [simp del]

section \<open>The registry interface\<close>

text \<open>
  What the event loop relies on when it passes channels to its poller: an update of a
  channel it may update succeeds, keeps the registry well formed and registers the channel;
  the channel registered last can be removed again.
\<close>

locale poll_registry =
  fixes upd :: "'c \<Rightarrow> 's stmt" and wf :: "'s \<Rightarrow> bool" and may :: "'s \<Rightarrow> 'c \<Rightarrow> bool"
    and reg :: "'s \<Rightarrow> 'c set"
  assumes upd_ok: "wf s \<Longrightarrow> may s c \<Longrightarrow> \<exists>s'. upd c s = Ok s' \<and> wf s' \<and> reg s' = insert c (reg s)"
    and reg_may: "wf s \<Longrightarrow> c \<in> reg s \<Longrightarrow> may s c"
begin

lemma upd_again: "wf s \<Longrightarrow> c \<in> reg s \<Longrightarrow> \<exists>s'. upd c s = Ok s' \<and> wf s' \<and> reg s' = reg s"
  using upd_ok reg_may by (metis insert_absorb)

lemma upd_many:
  "wf s \<Longrightarrow> set cs \<subseteq> reg s \<Longrightarrow> \<exists>s'. block (map upd cs) s = Ok s' \<and> wf s' \<and> reg s' = reg s"
proof (induction cs arbitrary: s)
  case Nil
  then show ?case by simp
next
  case (Cons c cs)
  obtain s1 where s1: "upd c s = Ok s1" "wf s1" "reg s1 = reg s"
    using upd_again [of s c] Cons.prems by auto
  with Cons.IH [of s1] Cons.prems show ?case by auto
qed

end

locale poll_stack = poll_registry +
  fixes rem :: "'c \<Rightarrow> 's stmt" and newest :: "'s \<Rightarrow> 'c \<Rightarrow> bool"
  assumes rem_ok: "wf s \<Longrightarrow> newest s c \<Longrightarrow> \<exists>s'. rem c s = Ok s' \<and> wf s' \<and> reg s' = reg s - {c}"
    and upd_newest: "wf s \<Longrightarrow> may s c \<Longrightarrow> c \<notin> reg s \<Longrightarrow> upd c s = Ok s' \<Longrightarrow> newest s' c"
begin

lemma upd_rem:
  assumes "wf s" "may s c" "c \<notin> reg s"
  shows "\<exists>s'. block [upd c, rem c] s = Ok s' \<and> wf s' \<and> reg s' = reg s"
proof -
  obtain s1 where s1: "upd c s = Ok s1" "wf s1" "reg s1 = insert c (reg s)"
    using upd_ok [OF assms(1,2)] by blast
  then have "newest s1 c" using upd_newest assms by blast
  then obtain s2 where "rem c s1 = Ok s2" "wf s2" "reg s2 = reg s1 - {c}"
    using rem_ok s1(2) by blast
  with s1 assms(3) show ?thesis by auto
qed

end

fun newest_entry :: "'cb pstate \<Rightarrow> chan_id \<Rightarrow> bool" where
  "newest_entry (p, h) c \<longleftrightarrow> slot_of p h c (length (pl_pollfds p) - 1)"

lemma registered_updatable: "poller_ok s \<Longrightarrow> c \<in> registered s \<Longrightarrow> updatable s c"
  by (cases s) (auto dest: poller_okD_entry simp: entry_ok_def)

lemma remove_newest_ok:
  assumes ok: "poller_ok s" and new: "newest_entry s c"
  shows "\<exists>s'. PollPoller_removeChannel c s = Ok s' \<and> poller_ok s' \<and> registered s' = registered s - {c}"
proof (cases s)
  case (Pair p h)
  with new obtain ch where ch: "h c = Some ch" "pl_channels p (ch_fd ch) = Some c"
    "ch_index ch = int (length (pl_pollfds p) - 1)" by (auto simp: slot_of_def)
  have "slot_of p h c (length (pl_pollfds p) - 1)" using new Pair by simp
  with ok Pair have "0 < length (pl_pollfds p)" using slot_bound [of p h c] by fastforce
  with ch(3) have last: "ch_index ch = int (length (pl_pollfds p)) - 1" by simp
  show ?thesis
    using remove_last_ok [OF ok [unfolded Pair] ch(1,2) last] remove_eq [OF ok [unfolded Pair] ch(1,2)]
    unfolding Pair by blast
qed

lemma update_newest:
  assumes ok: "poller_ok s" and up: "updatable s c" "c \<notin> registered s"
    and s': "PollPoller_updateChannel c s = Ok s'"
  shows "newest_entry s' c"
proof (cases s)
  case (Pair p h)
  from ok up(1) have "poller_ok (p, h)" "updatable (p, h) c" by (simp_all only: Pair)
  then show ?thesis
  proof (cases rule: updatable_cases)
    case (fresh ch)
    from update_register [of h c ch p, OF fresh(1,3,4)] s'
    have "s' = (p\<lparr>pl_pollfds := pl_pollfds p @ [new_pollfd ch],
          pl_channels := (pl_channels p)(ch_fd ch \<mapsto> c)\<rparr>,
        h(c \<mapsto> ch\<lparr>ch_index := int (length (pl_pollfds p))\<rparr>))"
      unfolding Pair by simp
    then show ?thesis by (simp add: slot_of_def)
  next
    case (known ch)
    with up(2) Pair show ?thesis by simp
  qed
qed

interpretation poll: poll_stack PollPoller_updateChannel poller_ok updatable registered
    PollPoller_removeChannel newest_entry
  by unfold_locales (fact update_ok registered_updatable remove_newest_ok update_newest)+

text \<open>What the array holds for a channel after it was updated.\<close>

definition entry_of :: "'cb pstate \<Rightarrow> chan_id \<Rightarrow> pollfd option" where
  "entry_of s c = (case s of (p, h) \<Rightarrow>
     (case h c of None \<Rightarrow> None
      | Some ch \<Rightarrow>
          if pl_channels p (ch_fd ch) = Some c \<and> 0 \<le> ch_index ch \<and>
             ch_index ch < int (length (pl_pollfds p))
          then Some (pl_pollfds p ! nat (ch_index ch)) else None))"

lemma update_register_entry:
  assumes ok: "poller_ok (p, h)"
    and ch: "h c = Some ch" "ch_index ch < 0" "pl_channels p (ch_fd ch) = None"
    and s': "PollPoller_updateChannel c (p, h) = Ok s'"
  shows "entry_of s' c = Some (new_pollfd ch)"
  using s' ch by (auto simp: update_register [of h c ch p, OF ch] entry_of_def)

lemma update_rewrite_entry:
  assumes ok: "poller_ok (p, h)" and ch: "h c = Some ch" "pl_channels p (ch_fd ch) = Some c"
    and s': "PollPoller_updateChannel c (p, h) = Ok s'"
  shows "\<exists>pf. entry_of (p, h) c = Some pf \<and> entry_of s' c = Some (set_pollfd ch pf)"
  using s' ch poller_okD_entry [OF ok ch]
  by (auto simp: update_existing [OF ok ch] entry_of_def entry_ok_def)

lemma update_other_entry:
  assumes ok: "poller_ok s" and up: "updatable s c" and d: "d \<in> registered s" "d \<noteq> c"
    and s': "PollPoller_updateChannel c s = Ok s'"
  shows "entry_of s' d = entry_of s d"
proof (cases s)
  case (Pair p h)
  from d Pair obtain dh where dh: "h d = Some dh" "pl_channels p (ch_fd dh) = Some d" by auto
  have okp: "poller_ok (p, h)" and upp: "updatable (p, h) c"
    using ok up by (simp_all only: Pair)
  have eh: "entry_ok p dh" by (rule poller_okD_entry [OF okp dh])
  from okp upp show ?thesis
  proof (cases rule: updatable_cases)
    case (fresh ch)
    with dh have "ch_fd dh \<noteq> ch_fd ch" by auto
    with s' d(2) dh eh show ?thesis
      by (auto simp: Pair update_register [of h c ch p, OF fresh(1,3,4)] entry_of_def entry_ok_def nth_append)
  next
    case (known ch)
    have ec: "entry_ok p ch" by (rule poller_okD_entry [OF okp known])
    have "slot_of p h d (nat (ch_index dh))" "slot_of p h c (nat (ch_index ch))"
      using dh known eh ec by (auto simp: slot_of_def entry_ok_def)
    with d(2) have "nat (ch_index dh) \<noteq> nat (ch_index ch)"
      using slot_unique [OF okp] by metis
    with s' dh eh ec show ?thesis
      by (auto simp: Pair update_existing [OF okp known] entry_of_def entry_ok_def)
  qed
qed

section \<open>The outcome of a poll\<close>

lemma active_of_facts:
  assumes ok: "poller_ok (p, h)" and con: "poll_contract p (n, rs)"
  defines "pfs \<equiv> pl_pollfds (store_revents rs p)"
  shows "distinct (active_of (pl_channels p) pfs)"
    and "distinct (map pfd_fd (filter ready_entry pfs))"
    and "set (active_of (pl_channels p) pfs) = {c. \<exists>i. slot_of p h c i \<and> rs ! i \<noteq> 0}"
proof -
  have len: "length pfs = length rs" "length rs = length (pl_pollfds p)"
    using con by (simp_all add: pfs_def store_revents_def)
  have owner: "\<exists>c. slot_of p h c i \<and> pl_channels p (pfd_fd (pfs ! i)) = Some c"
    if i: "i < length rs" "rs ! i \<noteq> 0" for i
  proof -
    from i obtain c ch where "h c = Some ch" "pl_channels p (ch_fd ch) = Some c"
      "ch_index ch = int i" "pfd_fd (pl_pollfds p ! i) = ch_fd ch" by (rule ready_slot [OF ok con])
    with i len show ?thesis by (auto simp: slot_of_def pfs_def nth_store_revents)
  qed
  have same: "i = j" if "i < length pfs" "j < length pfs" "ready_entry (pfs ! i)" "ready_entry (pfs ! j)"
    "pl_channels p (pfd_fd (pfs ! i)) = pl_channels p (pfd_fd (pfs ! j))" for i j
  proof -
    from that len(1) have "rs ! i \<noteq> 0" "rs ! j \<noteq> 0"
      using ready_store [OF con] by (simp_all add: pfs_def)
    with that len obtain c where "slot_of p h c i" "slot_of p h c j"
      using owner [of i] owner [of j] by auto
    then show ?thesis by (auto simp: slot_of_def)
  qed
  have ready: "ready_entry (pfs ! i) \<longleftrightarrow> rs ! i \<noteq> 0" if "i < length rs" for i
    using ready_store [OF con that] by (simp add: pfs_def)
  show "distinct (map pfd_fd (filter ready_entry pfs))"
    by (rule distinct_map_filterI) (use same in simp)
  show "distinct (active_of (pl_channels p) pfs)"
    unfolding active_of_def
  proof (rule distinct_map_filterI)
    fix i j assume ij: "i < length pfs" "j < length pfs" "ready_entry (pfs ! i)" "ready_entry (pfs ! j)"
      and eq: "the (pl_channels p (pfd_fd (pfs ! i))) = the (pl_channels p (pfd_fd (pfs ! j)))"
    from ij len(1) ready obtain c d where "pl_channels p (pfd_fd (pfs ! i)) = Some c"
      "pl_channels p (pfd_fd (pfs ! j)) = Some d"
      using owner [of i] owner [of j] by auto
    with eq ij same show "i = j" by simp
  qed
  show "set (active_of (pl_channels p) pfs) = {c. \<exists>i. slot_of p h c i \<and> rs ! i \<noteq> 0}"
  proof (intro set_eqI iffI)
    fix c assume "c \<in> set (active_of (pl_channels p) pfs)"
    then obtain i where i: "i < length rs" "rs ! i \<noteq> 0" "c = the (pl_channels p (pfd_fd (pfs ! i)))"
      using ready len(1) by (auto simp: active_of_def in_set_conv_nth)
    with owner [of i] show "c \<in> {c. \<exists>i. slot_of p h c i \<and> rs ! i \<noteq> 0}" by auto
  next
    fix c assume "c \<in> {c. \<exists>i. slot_of p h c i \<and> rs ! i \<noteq> 0}"
    then obtain i where i: "slot_of p h c i" "rs ! i \<noteq> 0" by auto
    then have lt: "i < length rs" using slot_bound [OF ok] len(2) by auto
    with i owner [of i] have "c = the (pl_channels p (pfd_fd (pfs ! i)))"
      using slot_unique [OF ok] by fastforce
    moreover have "pfs ! i \<in> set pfs" "ready_entry (pfs ! i)"
      using lt len(1) ready i(2) by auto
    ultimately show "c \<in> set (active_of (pl_channels p) pfs)"
      by (auto simp: active_of_def)
  qed
qed

lemma poll_heap:
  assumes ok: "poller_ok (p, h)" and con: "poll_contract p (n, rs)"
  defines "pfs \<equiv> pl_pollfds (store_revents rs p)"
  shows "mark_revents (pl_channels p) pfs h c =
    (if \<exists>i. slot_of p h c i \<and> rs ! i \<noteq> 0
     then map_option (\<lambda>ch. ch\<lparr>ch_revents := scast (rs ! nat (ch_index ch))\<rparr>) (h c) else h c)"
proof -
  have len: "length pfs = length rs" "length rs = length (pl_pollfds p)"
    using con by (simp_all add: pfs_def store_revents_def)
  show ?thesis
  proof (cases "\<exists>i. slot_of p h c i \<and> rs ! i \<noteq> 0")
    case True
    then obtain i where i: "slot_of p h c i" "rs ! i \<noteq> 0" by blast
    then have lt: "i < length rs" using slot_bound [OF ok] len(2) by auto
    obtain ch where ch: "h c = Some ch" "pl_channels p (ch_fd ch) = Some c" "ch_index ch = int i"
      using i(1) by (auto simp: slot_of_def)
    obtain d dh where d: "h d = Some dh" "pl_channels p (ch_fd dh) = Some d" "ch_index dh = int i"
      "pfd_fd (pl_pollfds p ! i) = ch_fd dh"
      using lt i(2) by (rule ready_slot [OF ok con])
    have "c = d" using i(1) d(1-3) slot_unique [OF ok, of c i d] by (auto simp: slot_of_def)
    with ch d lt len have fd: "pfd_fd (pfs ! i) = ch_fd ch"
      by (simp add: pfs_def nth_store_revents)
    have "mark_revents (pl_channels p) pfs h c =
        Some (ch\<lparr>ch_revents := scast (pfd_revents (pfs ! i))\<rparr>)"
    proof (rule mark_revents_at)
      show "distinct (map pfd_fd (filter ready_entry pfs))"
        using active_of_facts(2) [OF ok con] by (simp add: pfs_def)
      show "pfs ! i \<in> set pfs" "ready_entry (pfs ! i)"
        using lt len(1) i(2) ready_store [OF con lt] by (auto simp: pfs_def)
      show "pl_channels p (pfd_fd (pfs ! i)) = Some c" "h c = Some ch"
        using fd ch by simp_all
      show "fd' = pfd_fd (pfs ! i)" if "pl_channels p fd' = Some c" for fd'
        using poller_okD_reg [OF ok that] ch(1) fd by fastforce
    qed
    with True ch lt len show ?thesis by (simp add: pfs_def nth_store_revents)
  next
    case False
    have "mark_revents (pl_channels p) pfs h c = h c"
    proof (rule mark_revents_other, intro ballI impI notI)
      fix pf assume "pf \<in> set pfs" "ready_entry pf" "pl_channels p (pfd_fd pf) = Some c"
      then have "c \<in> set (active_of (pl_channels p) pfs)"
        by (auto simp: active_of_def image_iff intro!: bexI [of _ pf])
      with False show False
        using active_of_facts(3) [OF ok con] by (auto simp: pfs_def)
    qed
    with False show ?thesis by auto
  qed
qed

section \<open>Properties\<close>

text \<open>
  C3. A channel that is new to its loop, or already registered with it, can be updated at any
  time: none of the assertions of \<open>updateChannel\<close> fails, the registration invariant is
  kept, the channel's entry carries its event mask with cleared \<open>revents\<close> and its
  descriptor (for a new registration) or, for a channel without interest, no descriptor, and
  the entries of the other channels are untouched.
\<close>

theorem updateChannel_correct:
  assumes "poller_ok (p, h)" "updatable (p, h) c" "h c = Some ch"
  shows "\<exists>s'. PollPoller_updateChannel c (p, h) = Ok s' \<and> poller_ok s' \<and>
           registered s' = insert c (registered (p, h)) \<and>
           (\<exists>pf. entry_of s' c = Some pf \<and> pfd_events pf = ucast (ch_events ch) \<and> pfd_revents pf = 0 \<and>
              (pl_channels p (ch_fd ch) = None \<longrightarrow> pfd_fd pf = ch_fd ch) \<and>
              (\<forall>old. pl_channels p (ch_fd ch) = Some c \<longrightarrow> entry_of (p, h) c = Some old \<longrightarrow>
                 pfd_fd pf = (if Channel_isNoneEvent ch then -1 else pfd_fd old))) \<and>
           (\<forall>d \<in> registered (p, h) - {c}. entry_of s' d = entry_of (p, h) d)"
proof -
  obtain s' where s': "PollPoller_updateChannel c (p, h) = Ok s'" "poller_ok s'"
    "registered s' = insert c (registered (p, h))"
    using poll.upd_ok [OF assms(1,2)] by blast
  have other: "\<forall>d \<in> registered (p, h) - {c}. entry_of s' d = entry_of (p, h) d"
    using update_other_entry [OF assms(1,2) _ _ s'(1)] by (simp del: registered.simps)
  from assms(1,2) have entry: "\<exists>pf. entry_of s' c = Some pf \<and> pfd_events pf = ucast (ch_events ch) \<and>
      pfd_revents pf = 0 \<and> (pl_channels p (ch_fd ch) = None \<longrightarrow> pfd_fd pf = ch_fd ch) \<and>
      (\<forall>old. pl_channels p (ch_fd ch) = Some c \<longrightarrow> entry_of (p, h) c = Some old \<longrightarrow>
        pfd_fd pf = (if Channel_isNoneEvent ch then -1 else pfd_fd old))"
  proof (cases rule: updatable_cases)
    case (fresh ch')
    with assms(3) update_register_entry [OF assms(1) fresh(1,3,4) s'(1)] show ?thesis
      by (auto simp: new_pollfd_def)
  next
    case (known ch')
    with assms(3) update_rewrite_entry [OF assms(1) known s'(1)] show ?thesis
      by (auto simp: set_pollfd_def Let_def)
  qed
  show ?thesis
    by (intro exI [of _ s'] conjI s' other entry)
qed

text \<open>Two channels of loop 0 on descriptors 5 and 6; the first one is registered.\<close>

definition example_poller :: "unit pstate" where
  "example_poller =
     (\<lparr>pl_ownerLoop = 0, pl_pollfds = [\<lparr>pfd_fd = 5, pfd_events = 3, pfd_revents = 0\<rparr>],
       pl_channels = [5 \<mapsto> 0]\<rparr>,
      [0 \<mapsto> (Channel_new 0 5)\<lparr>ch_events := 3, ch_index := 0\<rparr>,
       1 \<mapsto> (Channel_new 0 6)\<lparr>ch_events := 3\<rparr>])"

lemma example_poller_ok: "poller_ok (fst example_poller, snd example_poller)"
  by (rule poller_okI)
    (auto simp: example_poller_def Channel_new_def slot_of_def entry_ok_def split: if_splits)

theorem updateChannel_correct_witness:
  "registered (fst example_poller, snd example_poller) = {0} \<and>
   (\<exists>s'. PollPoller_updateChannel 1 (fst example_poller, snd example_poller) = Ok s' \<and>
      poller_ok s' \<and> 1 \<in> registered s')"
proof -
  have up: "updatable (fst example_poller, snd example_poller) 1"
    by (simp add: example_poller_def Channel_new_def)
  have ch: "snd example_poller 1 = Some ((Channel_new 0 6)\<lparr>ch_events := 3\<rparr>)"
    by (simp add: example_poller_def)
  have "registered (fst example_poller, snd example_poller) = {0}"
    by (auto simp: example_poller_def Channel_new_def split: if_splits)
  then show ?thesis
    using updateChannel_correct [OF example_poller_ok up ch] by blast
qed

text \<open>
  C10. Under the documented contract of \<open>poll(2)\<close>, \<open>poll\<close> succeeds, appends to the
  active list exactly the registered channels whose entry reported events, each once, stores
  the reported events in exactly those channels and keeps the registration invariant.
\<close>

theorem poll_collects_ready_channels:
  assumes ok: "poller_ok (p, h)" and con: "poll_contract p (n, rs)"
  shows "\<exists>new h'. PollPoller_poll (n, rs) act (p, h) = Ok (act @ new, (store_revents rs p, h')) \<and>
           distinct new \<and> set new = {c. \<exists>i. slot_of p h c i \<and> rs ! i \<noteq> 0} \<and>
           poller_ok (store_revents rs p, h') \<and>
           (\<forall>c. h' c = (if c \<in> set new
              then map_option (\<lambda>ch. ch\<lparr>ch_revents := scast (rs ! nat (ch_index ch))\<rparr>) (h c) else h c))"
proof -
  let ?pfs = "pl_pollfds (store_revents rs p)"
  let ?new = "active_of (pl_channels p) ?pfs" and ?h = "mark_revents (pl_channels p) ?pfs h"
  have "poller_ok (store_revents rs p, ?h)"
    by (rule poller_ok_frame(1) [OF ok]) (use con in \<open>simp_all add: mark_revents_keys\<close>)
  then show ?thesis
    using poll_eq [OF ok con] active_of_facts(1,3) [OF ok con] poll_heap [OF ok con]
    by (intro exI [of _ ?new] exI [of _ ?h]) simp
qed

theorem poll_collects_ready_channels_witness:
  "\<exists>h'. PollPoller_poll (1, [1]) [] (fst example_poller, snd example_poller) =
         Ok ([0], (store_revents [1] (fst example_poller), h')) \<and>
       map_option ch_revents (h' 0) = Some 1"
proof -
  have con: "poll_contract (fst example_poller) (1, [1])"
    by (simp add: example_poller_def word_sless_alt)
  have slot: "{c. \<exists>i. slot_of (fst example_poller) (snd example_poller) c i \<and> [1 :: 16 word] ! i \<noteq> 0} = {0}"
    by (auto simp: example_poller_def slot_of_def Channel_new_def split: if_splits intro: exI [of _ 0])
  obtain new h' where new: "PollPoller_poll (1, [1]) [] (fst example_poller, snd example_poller) =
      Ok ([] @ new, (store_revents [1] (fst example_poller), h'))" "distinct new" "set new = {0}"
    and h': "h' 0 = map_option (\<lambda>ch. ch\<lparr>ch_revents := scast ([1 :: 16 word] ! nat (ch_index ch))\<rparr>)
               (snd example_poller 0)"
    using poll_collects_ready_channels [OF example_poller_ok con, of "[]"] unfolding slot by auto
  have "new = [0]"
    using new(2,3) by (cases new; cases "tl new") auto
  with new(1) h' show ?thesis by (auto simp: example_poller_def Channel_new_def)
qed

text \<open>
  Registering a channel and removing it before any other registration is safe and
  restores the set of registered channels; more generally the most recently registered
  channel can always be removed.
\<close>

theorem register_then_remove:
  assumes "poller_ok s" "updatable s c" "c \<notin> registered s"
  shows "\<exists>s'. block [PollPoller_updateChannel c, PollPoller_removeChannel c] s = Ok s' \<and>
              poller_ok s' \<and> registered s' = registered s"
  using assms by (rule poll.upd_rem)

theorem register_then_remove_witness:
  "\<exists>s'. block [PollPoller_updateChannel 1, PollPoller_removeChannel 1]
          (fst example_poller, snd example_poller) = Ok s' \<and> poller_ok s' \<and> registered s' = {0}"
proof -
  have up: "updatable (fst example_poller, snd example_poller) 1"
    by (simp add: example_poller_def Channel_new_def)
  have reg: "registered (fst example_poller, snd example_poller) = {0}"
    by (auto simp: example_poller_def Channel_new_def split: if_splits)
  show ?thesis
    using register_then_remove [OF example_poller_ok up] reg by simp
qed

text \<open>
  C39. Removing a channel that is not the newest one leaves stale indices: the removal succeeds,
  and every later channel is still registered with its old index \<open>j\<close>, while its entry is now
  at \<open>j - 1\<close>. The next update of such a channel aborts on an assertion, because entry \<open>j\<close> is
  another channel's or does not exist; only when the channel whose entry moved there is
  disabled, the update goes through, and overwrites that entry instead of the right one.
\<close>

theorem remove_leaves_stale_index:
  assumes "poller_ok (p, h)" "slot_of p h c i" "slot_of p h d j" "i < j"
  shows "\<exists>p' h'. PollPoller_removeChannel c (p, h) = Ok (p', h') \<and> slot_of p' h' d j \<and>
    pl_pollfds p' ! (j - 1) = pl_pollfds p ! j \<and>
    (if Suc j < length (pl_pollfds p) \<and> pfd_fd (pl_pollfds p ! Suc j) = -1
     then \<exists>p'' pf. PollPoller_updateChannel d (p', h') = Ok (p'', h') \<and> pl_pollfds p'' = (pl_pollfds p')[j := pf]
     else PollPoller_updateChannel d (p', h') = Fault AssertFailed)"
proof (rule later_channels_after_remove [OF assms], goal_cases)
  case (1 p' h')
  then show ?case by (intro exI [of _ p'] exI [of _ h']) simp
qed

text \<open>The two channels of the example, both registered.\<close>

definition example_poller2 :: "unit pstate" where
  "example_poller2 =
     (\<lparr>pl_ownerLoop = 0, pl_pollfds = [\<lparr>pfd_fd = 5, pfd_events = 3, pfd_revents = 0\<rparr>,
                                       \<lparr>pfd_fd = 6, pfd_events = 3, pfd_revents = 0\<rparr>],
       pl_channels = [5 \<mapsto> 0, 6 \<mapsto> 1]\<rparr>,
      [0 \<mapsto> (Channel_new 0 5)\<lparr>ch_events := 3, ch_index := 0\<rparr>,
       1 \<mapsto> (Channel_new 0 6)\<lparr>ch_events := 3, ch_index := 1\<rparr>])"

theorem remove_leaves_stale_index_witness:
  "\<exists>p' h'. PollPoller_removeChannel 0 (fst example_poller2, snd example_poller2) = Ok (p', h') \<and> slot_of p' h' 1 1 \<and>
   length (pl_pollfds p') = 1 \<and> PollPoller_updateChannel 1 (p', h') = Fault AssertFailed"
proof -
  have ok: "poller_ok (fst example_poller2, snd example_poller2)"
    by (rule poller_okI)
      (auto simp: example_poller2_def Channel_new_def slot_of_def entry_ok_def less_Suc_eq
         split: if_splits)
  have slots: "slot_of (fst example_poller2) (snd example_poller2) 0 0"
    "slot_of (fst example_poller2) (snd example_poller2) 1 1"
    by (auto simp: example_poller2_def slot_of_def Channel_new_def)
  obtain p' h' where r: "PollPoller_removeChannel 0 (fst example_poller2, snd example_poller2) = Ok (p', h')"
    "slot_of p' h' 1 1" "PollPoller_updateChannel 1 (p', h') = Fault AssertFailed"
    using remove_leaves_stale_index [OF ok slots] by (auto simp: example_poller2_def)
  from r(1) have "length (pl_pollfds p') = 1"
    by (auto simp: example_poller2_def Channel_new_def Let_def length_erase_at PollPoller_removeChannel.simps)
  with r show ?thesis by blast
qed

end
