(* ===== verification/Poller.thy ===== *)
theory Poller
  imports PollPoller
begin

text \<open>
  \<open>Poller.cpp\<close>: the file that the build lists in the place of \<open>PollPoller.cpp\<close>, with the same
  operations written as members of the base class \<open>Poller\<close>. It does not compile: \<open>Poller.h\<close> no
  longer declares the array \<open>pollfds_\<close>, and defines the constructor itself. The operations are read over the state of a \<open>PollPoller\<close>. The loop
  over the array is the loop of the code, over an iterator; the last lemmas show that, so read,
  both files have the same effects.
\<close>

section \<open>Operations\<close>

definition Poller_new :: "loop_id \<Rightarrow> poller" where
  "Poller_new loop = \<lparr>pl_ownerLoop = loop, pl_pollfds = [], pl_channels = Map.empty\<rparr>"

text \<open>The body of the loop for the entry \<open>pf\<close>: the channel of its descriptor becomes active.\<close>

definition report_entry :: "pollfd \<Rightarrow> (int \<rightharpoonup> chan_id) \<Rightarrow> 'cb heap \<Rightarrow> chan_id list \<Rightarrow> (chan_id list \<times> 'cb heap) res" where
  "report_entry pf m h active =
     (case m (pfd_fd pf) of
        None \<Rightarrow> Fault AssertFailed
      | Some c \<Rightarrow>
          (case h c of
             None \<Rightarrow> Fault UseAfterFree
           | Some ch \<Rightarrow>
               if ch_fd ch \<noteq> pfd_fd pf then Fault AssertFailed
               else Ok (active @ [c], h(c \<mapsto> Channel_set_revents (scast (pfd_revents pf)) ch))))"

function Poller_fill_from ::
  "nat \<Rightarrow> int \<Rightarrow> pollfd list \<Rightarrow> (int \<rightharpoonup> chan_id) \<Rightarrow> 'cb heap \<Rightarrow> chan_id list
   \<Rightarrow> (chan_id list \<times> 'cb heap) res" where
  "Poller_fill_from iter numEvents pfds m h active =
     (if 0 < numEvents \<and> iter < length pfds
      then if 0 <s pfd_revents (pfds ! iter)
           then (case report_entry (pfds ! iter) m h active of
                   Inl e \<Rightarrow> Inl e
                 | Inr (active', h') \<Rightarrow> Poller_fill_from (Suc iter) (numEvents - 1) pfds m h' active')
           else Poller_fill_from (Suc iter) numEvents pfds m h active
      else Ok (active, h))"
  by pat_completeness auto

termination Poller_fill_from
  by (relation "measure (\<lambda>(iter, _, pfds, _). length pfds - iter)") auto

declare Poller_fill_from.simps [simp del]

fun Poller_fillActiveChannels :: "int \<Rightarrow> chan_id list \<Rightarrow> 'cb pstate \<Rightarrow> (chan_id list \<times> 'cb heap) res" where
  "Poller_fillActiveChannels numEvents active (p, h) =
     Poller_fill_from 0 numEvents (pl_pollfds p) (pl_channels p) h active"

fun Poller_poll ::
  "int \<times> 16 word list \<Rightarrow> chan_id list \<Rightarrow> 'cb pstate \<Rightarrow> (chan_id list \<times> 'cb pstate) res" where
  "Poller_poll (numEvents, rs) active (p, h) =
     (let p1 = store_revents rs p
      in if 0 < numEvents
         then map_sum id (\<lambda>(active', h'). (active', (p1, h'))) (Poller_fillActiveChannels numEvents active (p1, h))
         else Ok (active, (p1, h)))"

text \<open>The two branches of \<open>updateChannel\<close>, each a block of the statements of the code.\<close>

definition at_channel :: "chan_id \<Rightarrow> ('cb channel \<Rightarrow> 'cb pstate stmt) \<Rightarrow> 'cb pstate stmt" where
  "at_channel c s = (\<lambda>(p, h). case h c of None \<Rightarrow> Fault UseAfterFree | Some ch \<Rightarrow> s ch (p, h))"

definition Poller_updateChannel :: "chan_id \<Rightarrow> 'cb pstate stmt" where
  "Poller_updateChannel c = at_channel c (\<lambda>ch.
     if ch_index ch < 0 then block
       [assertion (\<lambda>(p, h). pl_channels p (ch_fd ch) = None),
        modify (\<lambda>(p, h). (p\<lparr>pl_pollfds := pl_pollfds p @
          [\<lparr>pfd_fd = ch_fd ch, pfd_events = ucast (ch_events ch), pfd_revents = 0\<rparr>]\<rparr>, h)),
        modify (\<lambda>(p, h). (p, h(c \<mapsto> Channel_set_index (int (length (pl_pollfds p)) - 1) ch))),
        modify (\<lambda>(p, h). (p\<lparr>pl_channels := (pl_channels p)(ch_fd ch \<mapsto> c)\<rparr>, h))]
     else let idx = nat (ch_index ch) in block
       [assertion (\<lambda>(p, h). pl_channels p (ch_fd ch) \<noteq> None),
        assertion (\<lambda>(p, h). pl_channels p (ch_fd ch) = Some c),
        assertion (\<lambda>(p, h). 0 \<le> ch_index ch \<and> ch_index ch < int (length (pl_pollfds p))),
        assertion (\<lambda>(p, h). pfd_fd (pl_pollfds p ! idx) = ch_fd ch \<or> pfd_fd (pl_pollfds p ! idx) = -1),
        modify (\<lambda>(p, h). (p\<lparr>pl_pollfds := (pl_pollfds p)[idx :=
          (pl_pollfds p ! idx)\<lparr>pfd_events := ucast (ch_events ch), pfd_revents := 0\<rparr>]\<rparr>, h)),
        if_then (\<lambda>_. Channel_isNoneEvent ch)
          (modify (\<lambda>(p, h). (p\<lparr>pl_pollfds := (pl_pollfds p)[idx := (pl_pollfds p ! idx)\<lparr>pfd_fd := -1\<rparr>]\<rparr>, h)))])"

definition Poller_removeChannel :: "chan_id \<Rightarrow> 'cb pstate stmt" where
  "Poller_removeChannel c = at_channel c (\<lambda>ch (p, h).
     case pl_channels p (ch_fd ch) of
       None \<Rightarrow> Fault AssertFailed
     | Some c2 \<Rightarrow> at_channel c2 (\<lambda>ch2. block
         [check (\<lambda>(p, h). 0 \<le> ch_index ch2 \<and> ch_index ch2 < int (length (pl_pollfds p))) UndefinedBehaviour,
          modify (\<lambda>(p, h). (p\<lparr>pl_pollfds := take (nat (ch_index ch2)) (pl_pollfds p) @
            drop (Suc (nat (ch_index ch2))) (pl_pollfds p)\<rparr>, h)),
          modify (\<lambda>(p, h). (p\<lparr>pl_channels := (pl_channels p)(ch_fd ch := None)\<rparr>, h)),
          modify (\<lambda>(p, h). (p, h(c \<mapsto> Channel_set_index (-1) ch)))]) (p, h))"

section \<open>Both files agree\<close>

lemma Poller_fill_from_drop:
  "Poller_fill_from i n pfds m h active = PollPoller_fillActiveChannels n (drop i pfds) m h active"
proof (induction i n pfds m h active rule: Poller_fill_from.induct)
  case (1 i n pfds m h active)
  show ?case
  proof (cases "i < length pfds")
    case True
    then have d: "drop i pfds = pfds ! i # drop (Suc i) pfds" by (simp add: Cons_nth_drop_Suc)
    show ?thesis
    proof (cases "0 < n \<and> 0 <s pfd_revents (pfds ! i)")
      case reported: True
      have "PollPoller_fillActiveChannels n (pfds ! i # drop (Suc i) pfds) m h active =
          (case report_entry (pfds ! i) m h active of Inl e \<Rightarrow> Inl e
           | Inr (active', h') \<Rightarrow> PollPoller_fillActiveChannels (n - 1) (drop (Suc i) pfds) m h' active')"
        using reported by (simp add: report_entry_def split: option.split)
      with reported True 1(1) show ?thesis
        unfolding d by (subst Poller_fill_from.simps) (simp split: sum.split)
    next
      case False
      with True 1(2) show ?thesis
        unfolding d by (subst Poller_fill_from.simps) auto
    qed
  qed (simp add: Poller_fill_from.simps)
qed

lemma Poller_fillActiveChannels_eq:
  "Poller_fillActiveChannels n active (p, h) = PollPoller_fillActiveChannels n (pl_pollfds p) (pl_channels p) h active"
  by (simp add: Poller_fill_from_drop)

lemma Poller_poll_eq: "Poller_poll = PollPoller_poll"
proof (intro ext)
  fix r active s
  show "Poller_poll r active s = PollPoller_poll r active s"
    by (cases r; cases s) (auto simp: Let_def Poller_fillActiveChannels_eq split: sum.splits
      simp del: Poller_fillActiveChannels.simps)
qed

lemma Poller_updateChannel_eq: "Poller_updateChannel = PollPoller_updateChannel"
proof (intro ext)
  fix c and s :: "'a pstate"
  show "Poller_updateChannel c s = PollPoller_updateChannel c s"
    by (cases s) (auto simp: Poller_updateChannel_def PollPoller_updateChannel.simps at_channel_def stmt_defs new_pollfd_def set_pollfd_def Let_def
      split: option.splits)
qed

lemma Poller_removeChannel_eq: "Poller_removeChannel = PollPoller_removeChannel"
proof (intro ext)
  fix c and s :: "'a pstate"
  show "Poller_removeChannel c s = PollPoller_removeChannel c s"
    by (cases s) (auto simp: Poller_removeChannel_def PollPoller_removeChannel.simps at_channel_def stmt_defs Let_def split: option.splits)
qed

text \<open>
  The two files agree: \<open>poll\<close>, \<open>updateChannel\<close> and \<open>removeChannel\<close> of \<open>Poller.cpp\<close>, over the
  state of a \<open>PollPoller\<close>, have the effects of those of \<open>PollPoller.cpp\<close> on every state, faults
  included.
\<close>

lemma poller_files_agree:
  "Poller_poll = PollPoller_poll \<and> Poller_updateChannel = PollPoller_updateChannel \<and>
   Poller_removeChannel = PollPoller_removeChannel"
  by (simp add: Poller_poll_eq Poller_updateChannel_eq Poller_removeChannel_eq)

text \<open>
  The contract that the event loop relies on therefore holds of the operations of this file as well.
\<close>

interpretation base_file: poll_stack Poller_updateChannel poller_ok updatable registered
    Poller_removeChannel newest_entry
  unfolding Poller_updateChannel_eq Poller_removeChannel_eq
  by (rule poll.poll_stack_axioms)

lemma base_file_register_then_remove:
  assumes "poller_ok s" "updatable s c" "c \<notin> registered s"
  shows "\<exists>s'. block [Poller_updateChannel c, Poller_removeChannel c] s = Ok s' \<and> poller_ok s' \<and> registered s' = registered s"
  using assms by (rule base_file.upd_rem)

lemma base_file_poll:
  assumes "poller_ok (p, h)" "poll_contract p (n, rs)"
  shows "\<exists>new h'. Poller_poll (n, rs) act (p, h) = Ok (act @ new, (store_revents rs p, h')) \<and>
    distinct new \<and> set new = {c. \<exists>i. slot_of p h c i \<and> rs ! i \<noteq> 0}"
  using poll_eq [OF assms] active_of_facts(1,3) [OF assms] by (simp add: Poller_poll_eq)

end
