(* ===== verification/KqueuePoller.thy ===== *)
theory KqueuePoller
  imports PollPoller
begin

text \<open>
  \<open>KqueuePoller.h\<close> and \<open>KqueuePoller.cpp\<close>: a second poller, for \<open>kqueue(2)\<close>, which the loop
  does not use (\<open>EventLoop(1)\<close> leaves its poller null) and which is unfinished: \<open>poll\<close> and
  \<open>removeChannel\<close> have empty bodies and \<open>updateChannel\<close> ends after its assertions for a
  channel it knows. The state is the base class's map, the list of events and the changes
  that were submitted to the kernel's queue. The lemmas say what such a poller can do: it
  keeps the registration contract of the loop, but reports nothing and never lets go of a
  channel.
\<close>

section \<open>State\<close>

text \<open>\<open>struct kevent\<close> and the constants of \<open>sys/event.h\<close>.\<close>

record kevent =
  ke_ident :: int
  ke_filter :: int
  ke_flags :: "16 word"
  ke_fflags :: "32 word"
  ke_data :: int

definition EVFILT_READ :: int where "EVFILT_READ = -1"
definition EVFILT_WRITE :: int where "EVFILT_WRITE = -2"
definition EV_ADD :: "16 word" where "EV_ADD = 1"
definition EV_ENABLE :: "16 word" where "EV_ENABLE = 4"

record kqueue_poller =
  kp_ownerLoop :: loop_id
  kp_channels :: "int \<rightharpoonup> chan_id"
  kp_kqfd :: int
  kp_fdlist :: "kevent list"
  kp_submitted :: "kevent list"

type_synonym 'cb kstate = "kqueue_poller \<times> 'cb heap"

definition KqueuePoller_new :: "loop_id \<Rightarrow> int \<Rightarrow> kqueue_poller" where
  "KqueuePoller_new loop kq =
     \<lparr>kp_ownerLoop = loop, kp_channels = Map.empty, kp_kqfd = kq, kp_fdlist = [], kp_submitted = []\<rparr>"

definition KqueuePoller_destroy :: "kqueue_poller \<Rightarrow> int list \<Rightarrow> int list" where
  "KqueuePoller_destroy p closed = closed @ [kp_kqfd p]"

section \<open>Operations\<close>

definition KqueuePoller_poll :: "int \<Rightarrow> chan_id list \<Rightarrow> 'cb kstate \<Rightarrow> (chan_id list \<times> 'cb kstate) res" where
  "KqueuePoller_poll timeoutMs activeChannels s = Ok (activeChannels, s)"

definition KqueuePoller_removeChannel :: "chan_id \<Rightarrow> 'cb kstate stmt" where
  "KqueuePoller_removeChannel c = skip"

text \<open>
  The first registration. \<open>kvt\<close> is what the uninitialised local variable holds; it is filled
  only if the channel has an interest, and then its identifier is the queue's own descriptor.
\<close>

definition kqueue_op :: "'cb channel \<Rightarrow> int" where
  "kqueue_op ch =
     (if Channel_isReading ch then EVFILT_READ else if Channel_isWriting ch then EVFILT_WRITE else 0)"

definition EV_SET :: "int \<Rightarrow> int \<Rightarrow> 16 word \<Rightarrow> 32 word \<Rightarrow> int \<Rightarrow> kevent" where
  "EV_SET ident filt flags fflags data =
     \<lparr>ke_ident = ident, ke_filter = filt, ke_flags = flags, ke_fflags = fflags, ke_data = data\<rparr>"

fun KqueuePoller_updateChannel :: "kevent \<Rightarrow> chan_id \<Rightarrow> 'cb kstate stmt" where
  "KqueuePoller_updateChannel kvt c (p, h) =
     (case h c of
        None \<Rightarrow> Fault UseAfterFree
      | Some ch \<Rightarrow>
          if ch_index ch < 0 then
            if kp_channels p (ch_fd ch) \<noteq> None then Fault AssertFailed
            else
              let op = kqueue_op ch;
                  ev = (if op \<noteq> 0 then EV_SET (kp_kqfd p) op (EV_ADD OR EV_ENABLE) 0 0 else kvt);
                  evs = kp_fdlist p @ [ev]
              in Ok (p\<lparr>kp_submitted := kp_submitted p @ (if op \<noteq> 0 then [ev] else []),
                       kp_fdlist := evs,
                       kp_channels := (kp_channels p)(ch_fd ch \<mapsto> c)\<rparr>,
                     h(c \<mapsto> Channel_set_index (int (length evs) - 1) ch))
          else if kp_channels p (ch_fd ch) = None then Fault AssertFailed
          else if kp_channels p (ch_fd ch) \<noteq> Some c then Fault AssertFailed
          else if \<not> (0 \<le> ch_index ch \<and> ch_index ch < int (length (kp_fdlist p))) then Fault AssertFailed
          else Ok (p, h))"

declare KqueuePoller_updateChannel.simps [simp del]

section \<open>Registration\<close>

fun kq_registered :: "'cb kstate \<Rightarrow> chan_id set" where
  "kq_registered (p, h) = {c. \<exists>ch. h c = Some ch \<and> kp_channels p (ch_fd ch) = Some c}"

definition kq_entry_ok :: "kqueue_poller \<Rightarrow> 'cb channel \<Rightarrow> bool" where
  "kq_entry_ok p ch \<longleftrightarrow>
     ch_loop ch = kp_ownerLoop p \<and> 0 \<le> ch_index ch \<and> ch_index ch < int (length (kp_fdlist p))"

fun kq_ok :: "'cb kstate \<Rightarrow> bool" where
  "kq_ok (p, h) \<longleftrightarrow>
     (\<forall>fd c. kp_channels p fd = Some c \<longrightarrow> (\<exists>ch. h c = Some ch \<and> ch_fd ch = fd \<and> kq_entry_ok p ch)) \<and>
     (\<forall>c ch. h c = Some ch \<longrightarrow> ch_loop ch = kp_ownerLoop p \<longrightarrow> 0 \<le> ch_index ch \<longrightarrow>
        kp_channels p (ch_fd ch) = Some c)"

fun kq_updatable :: "'cb kstate \<Rightarrow> chan_id \<Rightarrow> bool" where
  "kq_updatable (p, h) c \<longleftrightarrow>
     (\<exists>ch. h c = Some ch \<and> ch_loop ch = kp_ownerLoop p \<and>
        (kp_channels p (ch_fd ch) = None \<or> kp_channels p (ch_fd ch) = Some c))"

declare kq_ok.simps [simp del]

lemma kq_okD_reg:
  assumes "kq_ok (p, h)" "kp_channels p fd = Some c"
  obtains ch where "h c = Some ch" "ch_fd ch = fd" "kq_entry_ok p ch"
  using assms unfolding kq_ok.simps by blast

lemma kq_okD_index:
  assumes "kq_ok (p, h)" "h c = Some ch" "ch_loop ch = kp_ownerLoop p" "0 \<le> ch_index ch"
  shows "kp_channels p (ch_fd ch) = Some c"
  using assms unfolding kq_ok.simps by blast

text \<open>A channel that is known already is left alone, whatever its interest is now.\<close>

lemma kq_update_known:
  assumes "kq_ok s" "c \<in> kq_registered s"
  shows "KqueuePoller_updateChannel kvt c s = Ok s"
proof (cases s)
  case (Pair p h)
  with assms(2) obtain ch where ch: "h c = Some ch" "kp_channels p (ch_fd ch) = Some c" by auto
  from assms(1) Pair ch(2) obtain e where "h c = Some e" "kq_entry_ok p e"
    by (metis kq_okD_reg)
  with ch Pair show ?thesis by (simp add: KqueuePoller_updateChannel.simps kq_entry_ok_def)
qed

lemma kq_register_ok:
  assumes ok: "kq_ok (p, h)" and ch: "h c = Some ch" "ch_loop ch = kp_ownerLoop p"
    "kp_channels p (ch_fd ch) = None"
  shows "\<exists>s'. KqueuePoller_updateChannel kvt c (p, h) = Ok s' \<and> kq_ok s' \<and>
    kq_registered s' = insert c (kq_registered (p, h))"
proof -
  have neg: "ch_index ch < 0"
    using kq_okD_index [OF ok ch(1,2)] ch(3) by force
  obtain p' where p': "KqueuePoller_updateChannel kvt c (p, h) =
      Ok (p', h(c \<mapsto> ch\<lparr>ch_index := int (length (kp_fdlist p))\<rparr>))"
    "kp_ownerLoop p' = kp_ownerLoop p" "kp_channels p' = (kp_channels p)(ch_fd ch \<mapsto> c)"
    "length (kp_fdlist p') = Suc (length (kp_fdlist p))"
    using ch neg by (simp add: KqueuePoller_updateChannel.simps Let_def)
  let ?h = "h(c \<mapsto> ch\<lparr>ch_index := int (length (kp_fdlist p))\<rparr>)"
  have other: "d \<noteq> c" if "kp_channels p fd = Some d" for fd d
    using kq_okD_reg [OF ok that] ch neg by (metis not_le kq_entry_ok_def option.inject)
  have 1: "\<exists>e. ?h d = Some e \<and> ch_fd e = fd \<and> kq_entry_ok p' e" if "kp_channels p' fd = Some d" for fd d
  proof (cases "fd = ch_fd ch")
    case True
    with that ch p' show ?thesis by (simp add: kq_entry_ok_def)
  next
    case False
    with that p'(3) have old: "kp_channels p fd = Some d" by simp
    obtain e where "h d = Some e" "ch_fd e = fd" "kq_entry_ok p e"
      using kq_okD_reg [OF ok old] .
    with other [OF old] p'(2,4) show ?thesis by (simp add: kq_entry_ok_def)
  qed
  have 2: "kp_channels p' (ch_fd e) = Some d"
    if "?h d = Some e" "ch_loop e = kp_ownerLoop p'" "0 \<le> ch_index e" for d e
    using that p'(2,3) ch kq_okD_index [OF ok, of d e] by (auto split: if_splits)
  have "kq_ok (p', ?h)" using 1 2 unfolding kq_ok.simps by blast
  moreover have "kq_registered (p', ?h) = insert c (kq_registered (p, h))"
  proof -
    have "d \<in> kq_registered (p', ?h) \<longleftrightarrow> d = c \<or> d \<in> kq_registered (p, h)" for d
    proof (cases "d = c")
      case False
      moreover have "ch_fd e \<noteq> ch_fd ch" if "kp_channels p (ch_fd e) = Some d" for e
        using that ch(3) by auto
      ultimately show ?thesis using p'(3) by auto
    qed (use ch p'(3) in simp)
    then show ?thesis by auto
  qed
  ultimately show ?thesis using p'(1) by blast
qed

lemma kq_update_ok:
  assumes "kq_ok s" "kq_updatable s c"
  shows "\<exists>s'. KqueuePoller_updateChannel kvt c s = Ok s' \<and> kq_ok s' \<and> kq_registered s' = insert c (kq_registered s)"
proof (cases "c \<in> kq_registered s")
  case True
  with assms(1) show ?thesis by (auto simp: kq_update_known insert_absorb)
next
  case False
  with assms(2) obtain p h ch where "s = (p, h)" "h c = Some ch" "ch_loop ch = kp_ownerLoop p"
    "kp_channels p (ch_fd ch) = None"
    by (cases s) auto
  with kq_register_ok assms(1) show ?thesis by blast
qed

lemma kq_registered_updatable: "kq_ok s \<Longrightarrow> c \<in> kq_registered s \<Longrightarrow> kq_updatable s c"
  by (cases s) (auto simp: kq_entry_ok_def elim: kq_okD_reg)

interpretation kq: poll_registry "KqueuePoller_updateChannel kvt" kq_ok kq_updatable kq_registered for kvt
  by unfold_locales (fact kq_update_ok kq_registered_updatable)+

lemma kq_ok_new: "(\<And>c ch. h c = Some ch \<Longrightarrow> ch_loop ch \<noteq> l) \<Longrightarrow> kq_ok (KqueuePoller_new l kq, h)"
  by (auto simp: kq_ok.simps KqueuePoller_new_def)

section \<open>What the poller can do\<close>

text \<open>Runs of the poller: calls of its operations one after the other, with one active list.\<close>

datatype kq_request = KUpdate kevent chan_id | KRemove chan_id | KPoll int

primrec kq_call :: "kq_request \<Rightarrow> (chan_id list \<times> 'cb kstate) stmt" where
  "kq_call (KUpdate kvt c) = (\<lambda>(active, s). map_sum id (Pair active) (KqueuePoller_updateChannel kvt c s))"
| "kq_call (KRemove c) = (\<lambda>(active, s). map_sum id (Pair active) (KqueuePoller_removeChannel c s))"
| "kq_call (KPoll t) = (\<lambda>(active, s). KqueuePoller_poll t active s)"

text \<open>
  No call makes a channel active, no call unregisters one, and every change that is submitted
  to the kernel's queue asks for events of the queue itself.
\<close>

definition kq_idle :: "chan_id list \<Rightarrow> int \<Rightarrow> chan_id list \<times> 'cb kstate \<Rightarrow> bool" where
  "kq_idle active kq = (\<lambda>(act, (p, h)). act = active \<and> kp_kqfd p = kq \<and> (\<forall>ev \<in> set (kp_submitted p). ke_ident ev = kq))"

lemma kq_update_idle:
  assumes "KqueuePoller_updateChannel kvt c s = Ok s'" "kq_idle active kq (act, s)"
  shows "kq_idle active kq (act, s')"
  using assms by (cases s) (auto simp: kq_idle_def KqueuePoller_updateChannel.simps Let_def EV_SET_def
    split: option.splits if_splits)

lemma kq_update_keeps_registered:
  assumes "KqueuePoller_updateChannel kvt c (p, h) = Ok (p', h')"
  shows "kp_channels p \<subseteq>\<^sub>m kp_channels p'"
  using assms by (auto simp: KqueuePoller_updateChannel.simps Let_def map_le_def split: option.splits if_splits)

lemma map_sum_Ok_iff: "map_sum id f r = Ok x \<longleftrightarrow> (\<exists>y. r = Ok y \<and> x = f y)"
  by (cases r) auto

lemma kq_run_idle: "keeps (kq_idle active kq) (block (map kq_call calls))"
proof (rule keeps_block)
  fix s assume "s \<in> set (map (kq_call :: _ \<Rightarrow> (chan_id list \<times> 'cb kstate) stmt) calls)"
  then obtain op where op: "s = kq_call op" by auto
  show "keeps (kq_idle active kq) s"
    unfolding op
    by (rule keepsI, cases op)
      (auto simp: KqueuePoller_poll_def KqueuePoller_removeChannel_def skip_def map_sum_Ok_iff intro: kq_update_idle)
qed

lemma kqueue_poller_reports_nothing:
  assumes "block (map kq_call calls) ([], (KqueuePoller_new l kq, h)) = Ok (active, (p', h'))"
  shows "active = []" "\<forall>ev \<in> set (kp_submitted p'). ke_ident ev = kq"
  using keepsD [OF kq_run_idle _ assms, of "[]" kq]
  by (auto simp: kq_idle_def KqueuePoller_new_def)

text \<open>Removing a channel does not unregister it: the contract of removal is not met.\<close>

lemma kqueue_remove_keeps_registered:
  assumes "kq_ok s" "kq_updatable s c" "c \<notin> kq_registered s"
  shows "\<exists>s'. block [KqueuePoller_updateChannel kvt c, KqueuePoller_removeChannel c] s = Ok s' \<and>
    kq_registered s' = insert c (kq_registered s)"
  using kq.upd_ok [OF assms(1,2), of kvt] by (auto simp: KqueuePoller_removeChannel_def skip_def)

text \<open>A channel that both reads and writes is registered for reading alone.\<close>

lemma kqueue_op_reads_first: "Channel_isReading ch \<Longrightarrow> kqueue_op ch = EVFILT_READ"
  by (simp add: kqueue_op_def)

end
