(* ===== verification/EventLoop.thy ===== *)
theory EventLoop
  imports PollPoller
begin

text \<open>
  \<open>EventLoop.cpp\<close>, and the operations of \<open>Channel.cpp\<close> that go through the loop.
  The world holds every thread's view that the code shares: the current thread, the store
  of channel objects, the event loops and the thread-local \<open>loopInThisThread\<close>. The types
  of channel callbacks (\<open>'cb\<close>) and of functors posted to a loop (\<open>'f\<close>) are left open:
  whoever runs a loop says what a callback (\<open>fire\<close>) and a functor (\<open>exec\<close>) do, and
  what destroying a functor does (\<open>release\<close>), as the code passes \<open>std::function\<close> objects.
\<close>

section \<open>State\<close>

record 'f eventloop =
  el_threadId :: nat
  el_looping :: bool
  el_quit :: bool
  el_poller :: "poller option"
  el_activeChannels :: "chan_id list"
  el_callingPendingFunctors :: bool
  el_wakeupPipe :: "int \<times> int"
  el_pipeBytes :: nat
  el_wakeupChannel :: "chan_id option"
  el_pendingFunctors :: "'f list"

record ('cb, 'f) world =
  w_thread :: nat
  w_heap :: "'cb heap"
  w_loops :: "loop_id \<rightharpoonup> 'f eventloop"
  w_loopInThisThread :: "nat \<rightharpoonup> loop_id"

definition with_loop :: "loop_id \<Rightarrow> ('f eventloop \<Rightarrow> ('cb, 'f, 'z) world_scheme stmt) \<Rightarrow>
    ('cb, 'f, 'z) world_scheme stmt" where
  "with_loop l s w = (case w_loops w l of None \<Rightarrow> Fault UseAfterFree | Some el \<Rightarrow> s el w)"

definition upd_loop :: "loop_id \<Rightarrow> ('f eventloop \<Rightarrow> 'f eventloop) \<Rightarrow> ('cb, 'f, 'z) world_scheme stmt" where
  "upd_loop l g = with_loop l (\<lambda>el w. Ok (w\<lparr>w_loops := (w_loops w)(l \<mapsto> g el)\<rparr>))"

definition with_chan :: "chan_id \<Rightarrow> ('cb channel \<Rightarrow> ('cb, 'f, 'z) world_scheme stmt) \<Rightarrow>
    ('cb, 'f, 'z) world_scheme stmt" where
  "with_chan c s w = (case w_heap w c of None \<Rightarrow> Fault UseAfterFree | Some ch \<Rightarrow> s ch w)"

definition upd_chan :: "chan_id \<Rightarrow> ('cb channel \<Rightarrow> 'cb channel) \<Rightarrow> ('cb, 'f, 'z) world_scheme stmt" where
  "upd_chan c g = with_chan c (\<lambda>ch w. Ok (w\<lparr>w_heap := (w_heap w)(c \<mapsto> g ch)\<rparr>))"

section \<open>Threads, wake-up and the poller\<close>

definition EventLoop_isInLoopThread :: "loop_id \<Rightarrow> ('cb, 'f, 'z) world_scheme \<Rightarrow> bool" where
  "EventLoop_isInLoopThread l w =
     (case w_loops w l of None \<Rightarrow> False | Some el \<Rightarrow> el_threadId el = w_thread w)"

definition EventLoop_assertInLoopThread :: "loop_id \<Rightarrow> ('cb, 'f, 'z) world_scheme stmt" where
  "EventLoop_assertInLoopThread l =
     with_loop l (\<lambda>el. check (\<lambda>w. el_threadId el = w_thread w) (ProcessExit 1))"

definition EventLoop_getEventLoopOfCurrentThread :: "('cb, 'f, 'z) world_scheme \<Rightarrow> loop_id option" where
  "EventLoop_getEventLoopOfCurrentThread w = w_loopInThisThread w (w_thread w)"

definition EventLoop_wakeup :: "loop_id \<Rightarrow> ('cb, 'f, 'z) world_scheme stmt" where
  "EventLoop_wakeup l = upd_loop l (\<lambda>el. el\<lparr>el_pipeBytes := Suc (el_pipeBytes el)\<rparr>)"

definition EventLoop_handleRead :: "loop_id \<Rightarrow> ('cb, 'f, 'z) world_scheme stmt" where
  "EventLoop_handleRead l = with_loop l (\<lambda>el w.
     if el_pipeBytes el = 0 then Fault Blocked
     else upd_loop l (\<lambda>el. el\<lparr>el_pipeBytes := el_pipeBytes el - 1\<rparr>) w)"

definition EventLoop_quit :: "loop_id \<Rightarrow> ('cb, 'f, 'z) world_scheme stmt" where
  "EventLoop_quit l = block
     [upd_loop l (\<lambda>el. el\<lparr>el_quit := True\<rparr>),
      if_then (\<lambda>w. \<not> EventLoop_isInLoopThread l w) (EventLoop_wakeup l)]"

definition on_poller :: "loop_id \<Rightarrow> 'cb pstate stmt \<Rightarrow> ('cb, 'f, 'z) world_scheme stmt" where
  "on_poller l op = with_loop l (\<lambda>el w.
     case el_poller el of
       None \<Rightarrow> Fault NullDeref
     | Some p \<Rightarrow>
         (case op (p, w_heap w) of
            Inl e \<Rightarrow> Fault e
          | Inr (p', h') \<Rightarrow>
              Ok (w\<lparr>w_heap := h', w_loops := (w_loops w)(l \<mapsto> el\<lparr>el_poller := Some p'\<rparr>)\<rparr>)))"

definition EventLoop_updateChannel :: "loop_id \<Rightarrow> chan_id \<Rightarrow> ('cb, 'f, 'z) world_scheme stmt" where
  "EventLoop_updateChannel l c = block
     [with_chan c (\<lambda>ch. assertion (\<lambda>w. ch_loop ch = l)),
      EventLoop_assertInLoopThread l,
      on_poller l (PollPoller_updateChannel c)]"

definition EventLoop_removeChannel :: "loop_id \<Rightarrow> chan_id \<Rightarrow> ('cb, 'f, 'z) world_scheme stmt" where
  "EventLoop_removeChannel l c = on_poller l (PollPoller_removeChannel c)"

definition EventLoop_hasChannel :: "loop_id \<Rightarrow> chan_id \<Rightarrow> ('cb, 'f, 'z) world_scheme \<Rightarrow> bool res" where
  "EventLoop_hasChannel l c w =
     (case (w_loops w l, w_heap w c) of
        (Some el, Some ch) \<Rightarrow>
          (case el_poller el of None \<Rightarrow> Fault NullDeref | Some p \<Rightarrow> Ok (Poller_hasChannel ch p))
      | _ \<Rightarrow> Fault UseAfterFree)"

section \<open>Channel operations\<close>

definition Channel_update :: "chan_id \<Rightarrow> ('cb, 'f, 'z) world_scheme stmt" where
  "Channel_update c = block
     [with_chan c (\<lambda>ch. EventLoop_updateChannel (ch_loop ch) c),
      upd_chan c (\<lambda>ch. ch\<lparr>ch_addedToLoop := True\<rparr>)]"

definition set_interest :: "chan_id \<Rightarrow> (32 word \<Rightarrow> 32 word) \<Rightarrow> ('cb, 'f, 'z) world_scheme stmt" where
  "set_interest c g = upd_chan c (\<lambda>ch. ch\<lparr>ch_events := g (ch_events ch)\<rparr>)"

definition Channel_change :: "chan_id \<Rightarrow> (32 word \<Rightarrow> 32 word) \<Rightarrow> ('cb, 'f, 'z) world_scheme stmt" where
  "Channel_change c g = block [set_interest c g, Channel_update c]"

definition Channel_enableReading :: "chan_id \<Rightarrow> ('cb, 'f, 'z) world_scheme stmt" where
  "Channel_enableReading c = Channel_change c (\<lambda>e. e OR kReadEvent)"

definition Channel_enableWriting :: "chan_id \<Rightarrow> ('cb, 'f, 'z) world_scheme stmt" where
  "Channel_enableWriting c = Channel_change c (\<lambda>e. e OR kWriteEvent)"

definition Channel_disableReading :: "chan_id \<Rightarrow> ('cb, 'f, 'z) world_scheme stmt" where
  "Channel_disableReading c = Channel_change c (\<lambda>e. e AND NOT kReadEvent)"

definition Channel_disableWriting :: "chan_id \<Rightarrow> ('cb, 'f, 'z) world_scheme stmt" where
  "Channel_disableWriting c = Channel_change c (\<lambda>e. e AND NOT kWriteEvent)"

definition Channel_disableAll :: "chan_id \<Rightarrow> ('cb, 'f, 'z) world_scheme stmt" where
  "Channel_disableAll c = Channel_change c (\<lambda>e. kNoneEvent)"

definition Channel_remove :: "chan_id \<Rightarrow> ('cb, 'f, 'z) world_scheme stmt" where
  "Channel_remove c = block
     [with_chan c (\<lambda>ch. assertion (\<lambda>w. Channel_isNoneEvent ch)),
      upd_chan c (\<lambda>ch. ch\<lparr>ch_addedToLoop := False\<rparr>),
      with_chan c (\<lambda>ch. EventLoop_removeChannel (ch_loop ch) c)]"

definition Channel_destroy :: "chan_id \<Rightarrow> ('cb, 'f, 'z) world_scheme stmt" where
  "Channel_destroy c = block
     [with_chan c (\<lambda>ch. assertion (\<lambda>w. \<not> ch_addedToLoop ch)),
      modify (\<lambda>w. w\<lparr>w_heap := (w_heap w)(c := None)\<rparr>)]"

text \<open>
  \<open>handleEvent\<close>: every test reads \<open>revents_\<close> of the channel object again, after the
  callbacks fired so far; a callback that is not set is skipped.
\<close>

definition chan_if :: "chan_id \<Rightarrow> ('cb channel \<Rightarrow> bool) \<Rightarrow> ('cb, 'f, 'z) world_scheme stmt \<Rightarrow>
    ('cb, 'f, 'z) world_scheme stmt" where
  "chan_if c b s = with_chan c (\<lambda>ch. if b ch then s else skip)"

definition fire_slot :: "('cb \<Rightarrow> ('cb, 'f, 'z) world_scheme stmt) \<Rightarrow> chan_id \<Rightarrow>
    ('cb channel \<Rightarrow> 'cb option) \<Rightarrow> ('cb, 'f, 'z) world_scheme stmt" where
  "fire_slot fire c slot = with_chan c (\<lambda>ch. case slot ch of None \<Rightarrow> skip | Some cb \<Rightarrow> fire cb)"

definition Channel_handleEvent :: "('cb \<Rightarrow> ('cb, 'f, 'z) world_scheme stmt) \<Rightarrow> chan_id \<Rightarrow>
    ('cb, 'f, 'z) world_scheme stmt" where
  "Channel_handleEvent fire c = block
     [upd_chan c (\<lambda>ch. ch\<lparr>ch_handlingEvent := True\<rparr>),
      chan_if c (\<lambda>ch. has_revents ch POLLNVAL) (\<lambda>w. Fault (ProcessExit 1)),
      chan_if c (\<lambda>ch. has_revents ch POLLHUP \<and> \<not> has_revents ch POLLIN)
        (fire_slot fire c ch_closeCallback),
      chan_if c (\<lambda>ch. has_revents ch (POLLERR OR POLLNVAL)) (fire_slot fire c ch_errorCallback),
      chan_if c (\<lambda>ch. has_revents ch (POLLIN OR POLLPRI OR POLLHUP))
        (fire_slot fire c ch_readCallback),
      chan_if c (\<lambda>ch. has_revents ch POLLOUT) (fire_slot fire c ch_writeCallback),
      upd_chan c (\<lambda>ch. ch\<lparr>ch_handlingEvent := False\<rparr>)]"

section \<open>Construction and destruction\<close>

text \<open>
  The constructor: \<open>l\<close> and \<open>c\<close> are the addresses of the new loop and of its wake-up
  channel, \<open>kind\<close> the constructor's argument, \<open>pipe_res\<close> the result of \<open>pipe(2)\<close>, and
  \<open>handle_read\<close> the bound callback.
\<close>

definition EventLoop_new :: "loop_id \<Rightarrow> chan_id \<Rightarrow> int \<Rightarrow> (int \<times> int) option \<Rightarrow> 'cb \<Rightarrow>
    ('cb, 'f, 'z) world_scheme stmt" where
  "EventLoop_new l c kind pipe_res handle_read w =
     (if EventLoop_getEventLoopOfCurrentThread w \<noteq> None then Fault (ProcessExit 1)
      else
        (case pipe_res of
           None \<Rightarrow> Fault (ProcessExit 1)
         | Some fds \<Rightarrow>
             let el = \<lparr>el_threadId = w_thread w, el_looping = False, el_quit = False,
                       el_poller = (if kind = 0 then Some (PollPoller_new l) else None),
                       el_activeChannels = [], el_callingPendingFunctors = False,
                       el_wakeupPipe = fds, el_pipeBytes = 0, el_wakeupChannel = Some c,
                       el_pendingFunctors = []\<rparr>;
                 ch = Channel_setReadCallback handle_read (Channel_new l (fst fds))
             in Channel_enableReading c
                  (w\<lparr>w_loops := (w_loops w)(l \<mapsto> el),
                     w_heap := (w_heap w)(c \<mapsto> ch),
                     w_loopInThisThread := (w_loopInThisThread w)(w_thread w \<mapsto> l)\<rparr>)))"

text \<open>
  The destructor's body, then the members in reverse order of their declaration: the
  functors that are still posted, and the wake-up channel.
\<close>

definition EventLoop_destroy :: "('f \<Rightarrow> ('cb, 'f, 'z) world_scheme stmt) \<Rightarrow> loop_id \<Rightarrow> ('cb, 'f, 'z) world_scheme stmt" where
  "EventLoop_destroy release l = with_loop l (\<lambda>el.
     case el_wakeupChannel el of
       None \<Rightarrow> (\<lambda>w. Fault NullDeref)
     | Some c \<Rightarrow> block
         [Channel_disableAll c,
          Channel_remove c,
          upd_loop l (\<lambda>el. el\<lparr>el_looping := False, el_quit := True, el_poller := None\<rparr>),
          modify (\<lambda>w. w\<lparr>w_loopInThisThread := (w_loopInThisThread w)(w_thread w := None)\<rparr>),
          with_loop l (\<lambda>el. block (map release (el_pendingFunctors el))),
          Channel_destroy c,
          modify (\<lambda>w. w\<lparr>w_loops := (w_loops w)(l := None)\<rparr>)])"

section \<open>Running functors\<close>

definition EventLoop_runInLoop :: "('f \<Rightarrow> ('cb, 'f, 'z) world_scheme stmt) \<Rightarrow> loop_id \<Rightarrow> 'f \<Rightarrow>
    ('cb, 'f, 'z) world_scheme stmt" where
  "EventLoop_runInLoop exec l cb = with_loop l (\<lambda>el w.
     if EventLoop_isInLoopThread l w then exec cb w
     else block
       [upd_loop l (\<lambda>el. el\<lparr>el_pendingFunctors := el_pendingFunctors el @ [cb]\<rparr>),
        if_then (\<lambda>w. \<not> EventLoop_isInLoopThread l w \<or> el_callingPendingFunctors el)
          (EventLoop_wakeup l)] w)"

definition EventLoop_doPendingFunctors :: "('f \<Rightarrow> ('cb, 'f, 'z) world_scheme stmt) \<Rightarrow>
    ('f \<Rightarrow> ('cb, 'f, 'z) world_scheme stmt) \<Rightarrow> loop_id \<Rightarrow> ('cb, 'f, 'z) world_scheme stmt" where
  "EventLoop_doPendingFunctors exec release l = with_loop l (\<lambda>el.
     let callbacks = el_pendingFunctors el in block
       [upd_loop l (\<lambda>el. el\<lparr>el_callingPendingFunctors := True\<rparr>),
        upd_loop l (\<lambda>el. el\<lparr>el_pendingFunctors := []\<rparr>),
        block (map exec callbacks),
        upd_loop l (\<lambda>el. el\<lparr>el_callingPendingFunctors := False\<rparr>),
        block (map release callbacks)])"

text \<open>One turn of the loop body; \<open>k\<close> is what \<open>poll(2)\<close> reports in this turn.\<close>

definition EventLoop_poll :: "loop_id \<Rightarrow> int \<times> 16 word list \<Rightarrow> ('cb, 'f, 'z) world_scheme stmt" where
  "EventLoop_poll l k = with_loop l (\<lambda>el w.
     case el_poller el of
       None \<Rightarrow> Fault NullDeref
     | Some p \<Rightarrow>
         (case PollPoller_poll k (el_activeChannels el) (p, w_heap w) of
            Inl e \<Rightarrow> Fault e
          | Inr (active, (p', h')) \<Rightarrow>
              Ok (w\<lparr>w_heap := h', w_loops := (w_loops w)(l \<mapsto>
                      el\<lparr>el_poller := Some p', el_activeChannels := active\<rparr>)\<rparr>)))"

definition EventLoop_turn :: "('cb \<Rightarrow> ('cb, 'f, 'z) world_scheme stmt) \<Rightarrow>
    ('f \<Rightarrow> ('cb, 'f, 'z) world_scheme stmt) \<Rightarrow> ('f \<Rightarrow> ('cb, 'f, 'z) world_scheme stmt) \<Rightarrow>
    loop_id \<Rightarrow> int \<times> 16 word list \<Rightarrow> ('cb, 'f, 'z) world_scheme stmt" where
  "EventLoop_turn fire exec release l k = block
     [upd_loop l (\<lambda>el. el\<lparr>el_activeChannels := []\<rparr>),
      EventLoop_poll l k,
      with_loop l (\<lambda>el. block (map (Channel_handleEvent fire) (el_activeChannels el))),
      EventLoop_doPendingFunctors exec release l]"

text \<open>
  \<open>while(!quit_)\<close>, run over the results of the successive polls: the run stops when
  \<open>quit_\<close> is set, or after the last given poll (the loop is then still running).
\<close>

primrec EventLoop_while :: "('cb \<Rightarrow> ('cb, 'f, 'z) world_scheme stmt) \<Rightarrow>
    ('f \<Rightarrow> ('cb, 'f, 'z) world_scheme stmt) \<Rightarrow> ('f \<Rightarrow> ('cb, 'f, 'z) world_scheme stmt) \<Rightarrow>
    loop_id \<Rightarrow> (int \<times> 16 word list) list \<Rightarrow> ('cb, 'f, 'z) world_scheme stmt" where
  "EventLoop_while fire exec release l [] w = Ok w"
| "EventLoop_while fire exec release l (k # ks) w = with_loop l (\<lambda>el.
     if el_quit el then skip
     else block [EventLoop_turn fire exec release l k, EventLoop_while fire exec release l ks]) w"

definition EventLoop_enter :: "loop_id \<Rightarrow> ('cb, 'f, 'z) world_scheme stmt" where
  "EventLoop_enter l = block
     [with_loop l (\<lambda>el. assertion (\<lambda>w. \<not> el_looping el)),
      EventLoop_assertInLoopThread l,
      upd_loop l (\<lambda>el. el\<lparr>el_looping := True, el_quit := False\<rparr>)]"

definition EventLoop_loop :: "('cb \<Rightarrow> ('cb, 'f, 'z) world_scheme stmt) \<Rightarrow>
    ('f \<Rightarrow> ('cb, 'f, 'z) world_scheme stmt) \<Rightarrow> ('f \<Rightarrow> ('cb, 'f, 'z) world_scheme stmt) \<Rightarrow>
    loop_id \<Rightarrow> (int \<times> 16 word list) list \<Rightarrow> ('cb, 'f, 'z) world_scheme stmt" where
  "EventLoop_loop fire exec release l ks = block
     [EventLoop_enter l,
      EventLoop_while fire exec release l ks,
      with_loop l (\<lambda>el. if el_quit el then upd_loop l (\<lambda>el. el\<lparr>el_looping := False\<rparr>) else skip)]"

lemmas loop_access = with_loop_def upd_loop_def with_chan_def upd_chan_def

section \<open>A loop serving its own thread\<close>

text \<open>
  \<open>serves l w p\<close>: the current thread is the thread of the live loop \<open>l\<close>, whose poller
  is \<open>p\<close> and whose registry is well formed.
\<close>

definition serves :: "loop_id \<Rightarrow> ('cb, 'f, 'z) world_scheme \<Rightarrow> poller \<Rightarrow> bool" where
  "serves l w p \<longleftrightarrow>
     (\<exists>el. w_loops w l = Some el \<and> el_threadId el = w_thread w \<and> el_poller el = Some p) \<and>
     pl_ownerLoop p = l \<and> poller_ok (p, w_heap w)"

definition own_channel :: "loop_id \<Rightarrow> ('cb, 'f, 'z) world_scheme \<Rightarrow> poller \<Rightarrow> chan_id \<Rightarrow> 'cb channel \<Rightarrow> bool" where
  "own_channel l w p c ch \<longleftrightarrow> w_heap w c = Some ch \<and> ch_loop ch = l \<and> updatable (p, w_heap w) c"

text \<open>Operations on channels and pollers change nothing else of the world.\<close>

lemma Channel_change_frame:
  assumes "Channel_change c g w = Ok w'"
  shows "w' = w\<lparr>w_heap := w_heap w', w_loops := w_loops w'\<rparr>"
  using assms
  by (auto simp: Channel_change_def set_interest_def Channel_update_def EventLoop_updateChannel_def
      EventLoop_assertInLoopThread_def on_poller_def loop_access assertion_def check_def
      split: option.splits sum.splits if_splits)

lemma EventLoop_new_frame:
  assumes "EventLoop_new l c kind fds cb w = Ok w'"
  shows "\<exists>t h ls. w' = w\<lparr>w_loopInThisThread := t, w_heap := h, w_loops := ls\<rparr>"
proof -
  obtain el ch where "Channel_change c (\<lambda>e. e OR kReadEvent) (w\<lparr>w_loops := (w_loops w)(l \<mapsto> el),
      w_heap := (w_heap w)(c \<mapsto> ch), w_loopInThisThread := (w_loopInThisThread w)(w_thread w \<mapsto> l)\<rparr>) = Ok w'"
    using assms by (auto simp: EventLoop_new_def Channel_enableReading_def Let_def split: option.splits if_splits)
  from Channel_change_frame [OF this] show ?thesis
    by (intro exI [of _ "(w_loopInThisThread w)(w_thread w \<mapsto> l)"] exI [of _ "w_heap w'"] exI [of _ "w_loops w'"]) simp
qed

text \<open>Changing fields that the registry does not look at keeps it well formed.\<close>

lemma poller_ok_chan_field:
  assumes ok: "poller_ok (p, h)" and c: "h c = Some ch"
    and g: "ch_loop x = ch_loop ch" "ch_fd x = ch_fd ch" "ch_index x = ch_index ch"
  shows "poller_ok (p, h(c \<mapsto> x))"
  by (rule poller_ok_frame(1) [OF ok]) (use c g in auto)

lemma updatable_chan_field:
  assumes "h c = Some ch" "ch_loop x = ch_loop ch" "ch_fd x = ch_fd ch"
  shows "updatable (p, h(c \<mapsto> x)) d \<longleftrightarrow> updatable (p, h) d"
  using assms by (auto split: if_splits)

lemma registered_chan_field:
  assumes "h c = Some ch" "ch_fd x = ch_fd ch"
  shows "registered (p, h(c \<mapsto> x)) = registered (p, h)"
  using assms by (auto split: if_splits)

lemma entry_of_chan_field:
  assumes "h c = Some ch" "ch_fd x = ch_fd ch" "ch_index x = ch_index ch"
  shows "entry_of (p, h(c \<mapsto> x)) d = entry_of (p, h) d"
  using assms by (auto simp: entry_of_def)

lemma update_preserves_channel:
  assumes "poller_ok (p, h)" "updatable (p, h) c" "h c = Some ch"
    "PollPoller_updateChannel c (p, h) = Ok (p', h')"
  shows "\<exists>i. h' = h(c \<mapsto> ch\<lparr>ch_index := i\<rparr>) \<and> pl_ownerLoop p' = pl_ownerLoop p \<and>
             pl_channels p' (ch_fd ch) = Some c"
  using assms(1,2)
proof (cases rule: updatable_cases)
  case (fresh ch')
  with assms(3,4) show ?thesis
    by (auto simp: update_register [of h c ch' p, OF fresh(1,3,4)])
next
  case (known ch')
  with assms(3,4) show ?thesis
    by (intro exI [of _ "ch_index ch"]) (auto simp: update_existing [OF assms(1) known])
qed

text \<open>A new channel on a free descriptor, not yet registered.\<close>

lemma serves_new_channel:
  assumes sv: "serves l w p" and c: "w_heap w c = None"
    and ch: "ch_loop ch = l" "ch_index ch < 0" "pl_channels p (ch_fd ch) = None"
  shows "serves l (w\<lparr>w_heap := (w_heap w)(c \<mapsto> ch)\<rparr>) p"
    "own_channel l (w\<lparr>w_heap := (w_heap w)(c \<mapsto> ch)\<rparr>) p c ch"
    "registered (p, (w_heap w)(c \<mapsto> ch)) = registered (p, w_heap w)"
proof -
  have ok: "poller_ok (p, w_heap w)" and pl: "pl_ownerLoop p = l" using sv by (auto simp: serves_def)
  let ?h = "(w_heap w)(c \<mapsto> ch)"
  have slot: "slot_of p ?h d i \<longleftrightarrow> slot_of p (w_heap w) d i" for d i
    using c ch(3) by (auto simp: slot_of_def)
  have "poller_ok (p, ?h)"
  proof (rule poller_okI)
    show "\<exists>x. ?h d = Some x \<and> ch_fd x = fd \<and> entry_ok p x" if "pl_channels p fd = Some d" for fd d
      using poller_okD_reg [OF ok that] c by (metis fun_upd_other option.distinct(1))
    show "pl_channels p (ch_fd x) = Some d"
      if "?h d = Some x" "ch_loop x = pl_ownerLoop p" "0 \<le> ch_index x" for d x
      using that ch(2) poller_okD_index [OF ok] by (auto split: if_splits)
    show "d = e" if "slot_of p ?h d i" "slot_of p ?h e i" for d e i
      using that slot_unique [OF ok] by (simp add: slot)
    show "\<exists>d. slot_of p ?h d i" if "i < length (pl_pollfds p)" for i
      using poller_okD_slot [OF ok that] by (metis slot)
  qed
  then show "serves l (w\<lparr>w_heap := ?h\<rparr>) p" using sv by (simp add: serves_def)
  show "own_channel l (w\<lparr>w_heap := ?h\<rparr>) p c ch" using ch pl by (simp add: own_channel_def)
  show "registered (p, ?h) = registered (p, w_heap w)" using c ch(3) by auto
qed

text \<open>
  Every change of interest by the owning thread succeeds: the channel is registered, its
  mask is the new one, the array holds the new mask, and the other channels' entries stay.
\<close>

lemma change_ok:
  assumes sv: "serves l w p" and own: "own_channel l w p c ch"
  obtains w' p' i where "Channel_change c g w = Ok w'" "serves l w' p'"
    "own_channel l w' p' c (ch\<lparr>ch_events := g (ch_events ch), ch_index := i, ch_addedToLoop := True\<rparr>)"
    "registered (p', w_heap w') = insert c (registered (p, w_heap w))"
    "\<And>pf. entry_of (p, w_heap w) c = Some pf \<Longrightarrow>
       entry_of (p', w_heap w') c = Some (set_pollfd (ch\<lparr>ch_events := g (ch_events ch)\<rparr>) pf)"
    "entry_of (p, w_heap w) c = None \<Longrightarrow>
       entry_of (p', w_heap w') c = Some (new_pollfd (ch\<lparr>ch_events := g (ch_events ch)\<rparr>))"
    "w' = w\<lparr>w_heap := w_heap w', w_loops := w_loops w'\<rparr>"
    "\<And>k. k \<noteq> l \<Longrightarrow> w_loops w' k = w_loops w k" "\<And>d. d \<noteq> c \<Longrightarrow> w_heap w' d = w_heap w d"
    "\<And>el. w_loops w l = Some el \<Longrightarrow> w_loops w' l = Some (el\<lparr>el_poller := Some p'\<rparr>)"
proof -
  obtain el where el: "w_loops w l = Some el" "el_threadId el = w_thread w" "el_poller el = Some p"
    using sv by (auto simp: serves_def)
  have ok: "poller_ok (p, w_heap w)" and pl: "pl_ownerLoop p = l" using sv by (auto simp: serves_def)
  have ch: "w_heap w c = Some ch" "ch_loop ch = l" and up: "updatable (p, w_heap w) c"
    using own unfolding own_channel_def by blast+
  let ?x = "ch\<lparr>ch_events := g (ch_events ch)\<rparr>"
  let ?h1 = "(w_heap w)(c \<mapsto> ?x)"
  have ok1: "poller_ok (p, ?h1)" by (rule poller_ok_chan_field [OF ok ch(1)]) simp_all
  have up1: "updatable (p, ?h1) c" using up updatable_chan_field [of "w_heap w" c ch ?x p c] ch(1) by (simp del: updatable.simps)
  obtain p' h' where upd: "PollPoller_updateChannel c (p, ?h1) = Ok (p', h')" "poller_ok (p', h')"
    "registered (p', h') = insert c (registered (p, ?h1))"
    using poll.upd_ok [OF ok1 up1] by auto
  obtain i where h': "h' = ?h1(c \<mapsto> ?x\<lparr>ch_index := i\<rparr>)" and p': "pl_ownerLoop p' = pl_ownerLoop p"
    "pl_channels p' (ch_fd ?x) = Some c"
    using update_preserves_channel [OF ok1 up1 _ upd(1)] by auto
  let ?y = "?x\<lparr>ch_index := i, ch_addedToLoop := True\<rparr>"
  let ?w' = "w\<lparr>w_heap := h'(c \<mapsto> ?y), w_loops := (w_loops w)(l \<mapsto> el\<lparr>el_poller := Some p'\<rparr>)\<rparr>"
  have hc: "h' c = Some (?x\<lparr>ch_index := i\<rparr>)" by (simp add: h')
  have ok2: "poller_ok (p', h'(c \<mapsto> ?y))" by (rule poller_ok_chan_field [OF upd(2) hc]) simp_all
  have reg: "registered (p', h'(c \<mapsto> ?y)) = registered (p', h')" "registered (p, ?h1) = registered (p, w_heap w)"
    by (rule registered_chan_field, rule hc, simp) (rule registered_chan_field, rule ch(1), simp)
  have ent: "entry_of (p', h'(c \<mapsto> ?y)) c = entry_of (p', h') c"
    "entry_of (p, ?h1) c = entry_of (p, w_heap w) c"
    by (rule entry_of_chan_field, rule hc, simp, simp) (rule entry_of_chan_field, rule ch(1), simp, simp)
  show thesis
  proof (rule that [of ?w' p' i])
    show "Channel_change c g w = Ok ?w'"
      using el ch upd(1) hc p'
      by (simp add: Channel_change_def set_interest_def Channel_update_def EventLoop_updateChannel_def
        EventLoop_assertInLoopThread_def on_poller_def loop_access assertion_def check_def)
    show "serves l ?w' p'"
      using el ok2 p' pl by (simp add: serves_def)
    show "own_channel l ?w' p' c ?y"
      using ch p' by (simp add: own_channel_def pl)
    show "registered (p', w_heap ?w') = insert c (registered (p, w_heap w))"
      using upd(3) reg by (simp del: registered.simps)
    show "entry_of (p', w_heap ?w') c = Some (set_pollfd ?x pf)"
      if "entry_of (p, w_heap w) c = Some pf" for pf
    proof -
      from that have "pl_channels p (ch_fd ?x) = Some c"
        using ch(1) by (auto simp: entry_of_def split: if_splits)
      then show ?thesis
        using update_rewrite_entry [OF ok1 _ _ upd(1), of ?x] ent that by auto
    qed
    show "entry_of (p', w_heap ?w') c = Some (new_pollfd ?x)"
      if "entry_of (p, w_heap w) c = None"
    proof -
      have none: "pl_channels p (ch_fd ch) \<noteq> Some c"
        using that poller_okD_entry [OF ok ch(1)] ch(1) by (auto simp: entry_of_def entry_ok_def)
      with up ch(1) have "pl_channels p (ch_fd ch) = None" by auto
      moreover have "ch_index ch < 0"
        using none poller_ok_index [OF ok ch(1)] ch(2) pl by auto
      ultimately show ?thesis
        using update_register_entry [OF ok1 _ _ _ upd(1), of ?x] ent by simp
    qed
  qed (use el in \<open>auto simp: h'\<close>)
qed

lemma changes_keep_dead_entry:
  assumes "serves l w p" "own_channel l w p c ch" "entry_of (p, w_heap w) c = Some pf" "pfd_fd pf = -1"
  shows "\<exists>w' p' pf'. block (map (Channel_change c) gs) w = Ok w' \<and> serves l w' p' \<and>
           entry_of (p', w_heap w') c = Some pf' \<and> pfd_fd pf' = -1"
  using assms
proof (induction gs arbitrary: w p ch pf)
  case Nil
  then show ?case by auto
next
  case (Cons g gs)
  obtain w1 p1 i where w1: "Channel_change c g w = Ok w1" "serves l w1 p1"
    "own_channel l w1 p1 c (ch\<lparr>ch_events := g (ch_events ch), ch_index := i, ch_addedToLoop := True\<rparr>)"
    "entry_of (p1, w_heap w1) c = Some (set_pollfd (ch\<lparr>ch_events := g (ch_events ch)\<rparr>) pf)"
    using change_ok [OF Cons.prems(1,2), of g] Cons.prems(3) by metis
  moreover have "pfd_fd (set_pollfd x pf) = -1" for x :: "'a channel"
    using Cons.prems(4) by (simp add: set_pollfd_def Let_def)
  ultimately show ?case
    using Cons.IH [OF w1(2,3,4)] by simp
qed

text \<open>Removal of a disabled channel of the own loop.\<close>

lemma Channel_remove_eq:
  assumes sv: "serves l w p" and ch: "w_heap w c = Some ch" "ch_loop ch = l"
    "pl_channels p (ch_fd ch) = Some c" "ch_events ch = kNoneEvent"
    and el: "w_loops w l = Some el"
  shows "Channel_remove c w = Ok (w\<lparr>
    w_heap := (w_heap w)(c \<mapsto> ch\<lparr>ch_addedToLoop := False, ch_index := -1\<rparr>),
    w_loops := (w_loops w)(l \<mapsto> el\<lparr>el_poller := Some (p\<lparr>
      pl_pollfds := erase_at (nat (ch_index ch)) (pl_pollfds p),
      pl_channels := (pl_channels p)(ch_fd ch := None)\<rparr>)\<rparr>)\<rparr>)"
proof -
  let ?x = "ch\<lparr>ch_addedToLoop := False\<rparr>"
  have ok: "poller_ok (p, (w_heap w)(c \<mapsto> ?x))"
    by (rule poller_ok_chan_field [where ch = ch]) (use sv ch(1) in \<open>simp_all add: serves_def\<close>)
  have "PollPoller_removeChannel c (p, (w_heap w)(c \<mapsto> ?x)) =
      Ok (p\<lparr>pl_pollfds := erase_at (nat (ch_index ?x)) (pl_pollfds p),
            pl_channels := (pl_channels p)(ch_fd ?x := None)\<rparr>,
          ((w_heap w)(c \<mapsto> ?x))(c \<mapsto> ?x\<lparr>ch_index := -1\<rparr>))"
    by (rule remove_eq [OF ok]) (use ch in simp_all)
  then show ?thesis
    using el ch sv
    by (auto simp: Channel_remove_def EventLoop_removeChannel_def on_poller_def loop_access
      assertion_def check_def Channel_isNoneEvent_def serves_def)
qed

text \<open>Changing the interest of a registered channel, and disabling and removing it, as equations.\<close>

lemma change_registered_eq:
  assumes sv: "serves l w p" and ch: "w_heap w c = Some ch" "ch_loop ch = l" "pl_channels p (ch_fd ch) = Some c"
    and el: "w_loops w l = Some el"
  shows "Channel_change c g w = Ok (w\<lparr>
    w_heap := (w_heap w)(c \<mapsto> ch\<lparr>ch_events := g (ch_events ch), ch_addedToLoop := True\<rparr>),
    w_loops := (w_loops w)(l \<mapsto> el\<lparr>el_poller := Some (p\<lparr>pl_pollfds := (pl_pollfds p)[nat (ch_index ch) :=
      set_pollfd (ch\<lparr>ch_events := g (ch_events ch)\<rparr>) (pl_pollfds p ! nat (ch_index ch))]\<rparr>)\<rparr>)\<rparr>)"
proof -
  let ?x = "ch\<lparr>ch_events := g (ch_events ch)\<rparr>"
  have ok: "poller_ok (p, (w_heap w)(c \<mapsto> ?x))"
    by (rule poller_ok_chan_field [where ch = ch]) (use sv ch(1) in \<open>simp_all add: serves_def\<close>)
  have "PollPoller_updateChannel c (p, (w_heap w)(c \<mapsto> ?x)) =
      Ok (p\<lparr>pl_pollfds := (pl_pollfds p)[nat (ch_index ?x) := set_pollfd ?x (pl_pollfds p ! nat (ch_index ?x))]\<rparr>,
        (w_heap w)(c \<mapsto> ?x))"
    by (rule update_existing [OF ok]) (use ch in simp_all)
  then show ?thesis
    using el ch sv
    by (auto simp: Channel_change_def set_interest_def Channel_update_def EventLoop_updateChannel_def
        EventLoop_assertInLoopThread_def on_poller_def loop_access assertion_def check_def serves_def)
qed

lemma erase_at_update [simp]: "erase_at i (xs[i := x]) = erase_at i xs"
  by (simp add: erase_at_def)

definition without :: "'cb channel \<Rightarrow> poller \<Rightarrow> poller" where
  "without ch p = p\<lparr>pl_pollfds := erase_at (nat (ch_index ch)) (pl_pollfds p),
     pl_channels := (pl_channels p)(ch_fd ch := None)\<rparr>"

lemma disable_remove_eq:
  assumes sv: "serves l w p" and ch: "w_heap w c = Some ch" "ch_loop ch = l" "pl_channels p (ch_fd ch) = Some c"
    and el: "w_loops w l = Some el"
  shows "block [Channel_disableAll c, Channel_remove c] w = Ok (w\<lparr>
    w_heap := (w_heap w)(c \<mapsto> ch\<lparr>ch_events := kNoneEvent, ch_addedToLoop := False, ch_index := -1\<rparr>),
    w_loops := (w_loops w)(l \<mapsto> el\<lparr>el_poller := Some (without ch p)\<rparr>)\<rparr>)"
proof -
  let ?y = "ch\<lparr>ch_events := kNoneEvent, ch_addedToLoop := True\<rparr>"
  let ?p = "p\<lparr>pl_pollfds := (pl_pollfds p)[nat (ch_index ch) :=
      set_pollfd (ch\<lparr>ch_events := kNoneEvent\<rparr>) (pl_pollfds p ! nat (ch_index ch))]\<rparr>"
  let ?w = "w\<lparr>w_heap := (w_heap w)(c \<mapsto> ?y), w_loops := (w_loops w)(l \<mapsto> el\<lparr>el_poller := Some ?p\<rparr>)\<rparr>"
  note change = change_registered_eq [OF sv ch el, of "\<lambda>_. kNoneEvent"]
  have own: "own_channel l w p c ch" using sv ch by (auto simp: own_channel_def serves_def)
  obtain w' p' where w': "Channel_change c (\<lambda>_. kNoneEvent) w = Ok w'" "serves l w' p'"
    by (rule change_ok [OF sv own, of "\<lambda>_. kNoneEvent"])
  have "w' = ?w" using w'(1) unfolding change by (rule sum.inject(2) [THEN iffD1, symmetric])
  then have sv': "serves l ?w p'" using w'(2) by (simp only:)
  moreover have "w_loops ?w l = Some (el\<lparr>el_poller := Some ?p\<rparr>)" by simp
  ultimately have "el_poller (el\<lparr>el_poller := Some ?p\<rparr>) = Some p'" unfolding serves_def by (metis option.inject)
  then have "p' = ?p" by simp
  with sv' have sv': "serves l ?w ?p" by (simp only:)
  have remove: "Channel_remove c ?w = Ok (?w\<lparr>
    w_heap := (w_heap ?w)(c \<mapsto> ?y\<lparr>ch_addedToLoop := False, ch_index := -1\<rparr>),
    w_loops := (w_loops ?w)(l \<mapsto> (el\<lparr>el_poller := Some ?p\<rparr>)\<lparr>el_poller := Some (?p\<lparr>
      pl_pollfds := erase_at (nat (ch_index ?y)) (pl_pollfds ?p), pl_channels := (pl_channels ?p)(ch_fd ?y := None)\<rparr>)\<rparr>)\<rparr>)"
    by (rule Channel_remove_eq [OF sv']) (use ch in simp_all)
  have disable: "Channel_disableAll c w = Ok ?w" by (simp only: Channel_disableAll_def change)
  show ?thesis
    unfolding block.simps disable sum.case remove by (simp add: without_def)
qed

text \<open>A channel that the poller does not know can be freed; the newest one can be removed.\<close>

lemma poller_ok_free:
  assumes ok: "poller_ok (p, h)" and c: "\<And>fd. pl_channels p fd \<noteq> Some c"
  shows "poller_ok (p, h(c := None))"
proof -
  have slot: "slot_of p (h(c := None)) d i \<longleftrightarrow> slot_of p h d i" for d i
    using c by (auto simp: slot_of_def)
  show ?thesis
  proof (rule poller_okI)
    show "\<exists>e. (h(c := None)) d = Some e \<and> ch_fd e = fd \<and> entry_ok p e" if "pl_channels p fd = Some d" for fd d
    proof -
      have "\<exists>e. h d = Some e \<and> ch_fd e = fd \<and> entry_ok p e" using poller_okD_reg [OF ok that] by blast
      then obtain e where "h d = Some e" "ch_fd e = fd" "entry_ok p e" by blast
      then show ?thesis using that c by (intro exI [of _ e]) auto
    qed
    show "pl_channels p (ch_fd e) = Some d" if "(h(c := None)) d = Some e" "ch_loop e = pl_ownerLoop p" "0 \<le> ch_index e" for d e
      using that poller_okD_index [OF ok] by (cases "d = c") auto
  qed (use slot slot_unique [OF ok] poller_okD_slot [OF ok] in metis)+
qed

lemma serves_without:
  assumes sv: "serves l w p" and ch: "w_heap w c = Some ch" "pl_channels p (ch_fd ch) = Some c"
    and last: "ch_index ch = int (length (pl_pollfds p)) - 1"
    and el: "w_loops w l = Some el"
  shows "serves l (w\<lparr>w_heap := (w_heap w)(c := None), w_loops := (w_loops w)(l \<mapsto> el\<lparr>el_poller := Some (without ch p)\<rparr>)\<rparr>)
    (without ch p)"
proof -
  have ok: "poller_ok (p, w_heap w)" using sv by (simp add: serves_def)
  have gone: "poller_ok (without ch p, (w_heap w)(c \<mapsto> ch\<lparr>ch_index := -1\<rparr>))"
    using remove_last_ok(1) [OF ok ch last] by (simp add: without_def)
  have "pl_channels (without ch p) fd \<noteq> Some c" for fd
    using poller_okD_reg [OF ok, of fd c] ch by (auto simp: without_def)
  from poller_ok_free [OF gone this] have "poller_ok (without ch p, (w_heap w)(c := None))" by simp
  then show ?thesis using sv el by (auto simp: serves_def without_def)
qed

lemma serves_removed:
  assumes sv: "serves l w p" and ch: "w_heap w c = Some ch" "pl_channels p (ch_fd ch) = Some c"
    and last: "ch_index ch = int (length (pl_pollfds p)) - 1"
    and el: "w_loops w l = Some el"
  defines "w' \<equiv> w\<lparr>w_heap := (w_heap w)(c \<mapsto> ch\<lparr>ch_addedToLoop := False, ch_index := -1\<rparr>),
      w_loops := (w_loops w)(l \<mapsto> el\<lparr>el_poller := Some (without ch p)\<rparr>)\<rparr>"
  shows "serves l w' (without ch p)" "registered (without ch p, w_heap w') = registered (p, w_heap w) - {c}"
proof -
  let ?x = "ch\<lparr>ch_index := -1\<rparr>" and ?y = "ch\<lparr>ch_addedToLoop := False, ch_index := -1\<rparr>"
  have ok: "poller_ok (p, w_heap w)" using sv by (simp add: serves_def)
  note gone = remove_last_ok [OF ok ch last, folded without_def]
  have "poller_ok (without ch p, ((w_heap w)(c \<mapsto> ?x))(c \<mapsto> ?y))"
    by (rule poller_ok_chan_field [OF gone(1), where ch = ?x]) simp_all
  then have "poller_ok (without ch p, (w_heap w)(c \<mapsto> ?y))" by simp
  then show "serves l w' (without ch p)" using sv el by (auto simp: w'_def serves_def without_def)
  show "registered (without ch p, w_heap w') = registered (p, w_heap w) - {c}"
    using gone(2) registered_chan_field [of "(w_heap w)(c \<mapsto> ?x)" c ?x ?y "without ch p"]
    by (simp add: w'_def del: registered.simps)
qed

lemma registered_without:
  assumes "poller_ok (p, h)" and "h c = Some ch" "pl_channels p (ch_fd ch) = Some c"
  shows "registered (without ch p, h(c := None)) = registered (p, h) - {c}"
proof (rule set_eqI)
  fix d
  show "d \<in> registered (without ch p, h(c := None)) \<longleftrightarrow> d \<in> registered (p, h) - {c}"
    by (cases "d = c"; cases "h d") (use assms(2,3) in \<open>auto simp: without_def\<close>)
qed

section \<open>Life cycle of a loop\<close>

definition fresh_loop :: "loop_id \<Rightarrow> chan_id \<Rightarrow> ('cb, 'f, 'z) world_scheme \<Rightarrow> bool" where
  "fresh_loop l c w \<longleftrightarrow> w_loops w l = None \<and> w_heap w c = None \<and>
     w_loopInThisThread w (w_thread w) = None \<and> (\<forall>d ch. w_heap w d = Some ch \<longrightarrow> ch_loop ch \<noteq> l)"

lemma EventLoop_new_serves:
  assumes "fresh_loop l c w"
  obtains w' p ch where "EventLoop_new l c 0 (Some fds) cb w = Ok w'" "serves l w' p"
    "own_channel l w' p c ch" "registered (p, w_heap w') = {c}" "ch_fd ch = fst fds"
    "ch_readCallback ch = Some cb"
    "entry_of (p, w_heap w') c = Some \<lparr>pfd_fd = fst fds, pfd_events = ucast kReadEvent, pfd_revents = 0\<rparr>"
    "\<And>d. d \<noteq> c \<Longrightarrow> w_heap w' d = w_heap w d" "\<And>k. k \<noteq> l \<Longrightarrow> w_loops w' k = w_loops w k"
    "w' = w\<lparr>w_heap := w_heap w', w_loops := w_loops w',
            w_loopInThisThread := (w_loopInThisThread w)(w_thread w \<mapsto> l)\<rparr>"
    "\<exists>el. w_loops w' l = Some el \<and> el_wakeupChannel el = Some c \<and> el_pendingFunctors el = [] \<and>
       \<not> el_looping el \<and> \<not> el_quit el \<and> el_pipeBytes el = 0"
proof -
  let ?el = "\<lparr>el_threadId = w_thread w, el_looping = False, el_quit = False,
       el_poller = Some (PollPoller_new l), el_activeChannels = [], el_callingPendingFunctors = False,
       el_wakeupPipe = fds, el_pipeBytes = 0, el_wakeupChannel = Some c, el_pendingFunctors = []\<rparr>"
  let ?ch = "(Channel_new l (fst fds))\<lparr>ch_readCallback := Some cb\<rparr>"
  let ?w = "w\<lparr>w_loops := (w_loops w)(l \<mapsto> ?el), w_heap := (w_heap w)(c \<mapsto> ?ch),
       w_loopInThisThread := (w_loopInThisThread w)(w_thread w \<mapsto> l)\<rparr>"
  let ?p = "PollPoller_new l"
  have new: "EventLoop_new l c 0 (Some fds) cb w = Channel_change c (\<lambda>e. e OR kReadEvent) ?w"
    using assms by (simp add: EventLoop_new_def EventLoop_getEventLoopOfCurrentThread_def fresh_loop_def
      Channel_enableReading_def)
  have "ch_index x < 0" if "w_heap ?w d = Some x" "ch_loop x = l" for d x
    using that assms by (cases "d = c") (auto simp: Channel_new_def fresh_loop_def)
  then have "poller_ok (?p, w_heap ?w)"
    by (intro poller_okI) (fastforce simp: PollPoller_new_def slot_of_def)+
  then have sv: "serves l ?w ?p" by (simp add: serves_def) (simp add: PollPoller_new_def)
  have own: "own_channel l ?w ?p c ?ch"
    by (simp add: own_channel_def Channel_new_def PollPoller_new_def)
  have none: "entry_of (?p, w_heap ?w) c = None" "registered (?p, w_heap ?w) = {}"
    by (auto simp: entry_of_def PollPoller_new_def)
  show thesis
  proof (rule change_ok [OF sv own, of "\<lambda>e. e OR kReadEvent"], goal_cases)
    case (1 w' p' i)
    show thesis
    proof (rule that [of w' p', OF _ 1(2,3)])
      show "EventLoop_new l c 0 (Some fds) cb w = Ok w'" using new 1(1) by simp
      show "registered (p', w_heap w') = {c}" using 1(4) none by (simp del: registered.simps)
      show "entry_of (p', w_heap w') c =
          Some \<lparr>pfd_fd = fst fds, pfd_events = ucast kReadEvent, pfd_revents = 0\<rparr>"
        using 1(6) none by (simp add: new_pollfd_def Channel_new_def)
      show "w' = w\<lparr>w_heap := w_heap w', w_loops := w_loops w',
            w_loopInThisThread := (w_loopInThisThread w)(w_thread w \<mapsto> l)\<rparr>"
        by (subst 1(7)) simp
    qed (use 1(8,9,10) in \<open>auto simp: Channel_new_def\<close>)
  qed
qed

lemma EventLoop_destroy_eq:
  assumes sv: "serves l w p" and own: "own_channel l w p c ch" and reg: "c \<in> registered (p, w_heap w)"
    and el: "w_loops w l = Some el" "el_wakeupChannel el = Some c" "el_pendingFunctors el = []"
  shows "EventLoop_destroy release l w = Ok (w\<lparr>w_heap := (w_heap w)(c := None), w_loops := (w_loops w)(l := None),
      w_loopInThisThread := (w_loopInThisThread w)(w_thread w := None)\<rparr>)"
proof -
  show ?thesis
  proof (rule change_ok [OF sv own, of "\<lambda>e. kNoneEvent"], goal_cases)
    case (1 w' p' i)
    let ?ch = "ch\<lparr>ch_events := kNoneEvent, ch_index := i, ch_addedToLoop := True\<rparr>"
    let ?el = "el\<lparr>el_poller := Some p'\<rparr>"
    have ch: "w_heap w' c = Some ?ch" "ch_loop ?ch = l"
      using 1(3) unfolding own_channel_def by blast+
    have "c \<in> registered (p', w_heap w')" using 1(4) by blast
    with ch(1) have r: "pl_channels p' (ch_fd ?ch) = Some c" by auto
    have dis: "Channel_disableAll c w = Ok w'" using 1(1) by (simp add: Channel_disableAll_def)
    have el': "w_loops w' l = Some ?el" using 1(10) el(1) by blast
    have rem: "Channel_remove c w' = Ok (w'\<lparr>
        w_heap := (w_heap w')(c \<mapsto> ?ch\<lparr>ch_addedToLoop := False, ch_index := -1\<rparr>),
        w_loops := (w_loops w')(l \<mapsto> ?el\<lparr>el_poller := Some (p'\<lparr>
          pl_pollfds := erase_at (nat (ch_index ?ch)) (pl_pollfds p'),
          pl_channels := (pl_channels p')(ch_fd ?ch := None)\<rparr>)\<rparr>)\<rparr>)"
      by (rule Channel_remove_eq [OF 1(2) ch r _ el']) simp
    have h: "(w_heap w')(c := None) = (w_heap w)(c := None)" using 1(9) by auto
    have k: "(w_loops w')(l := None) = (w_loops w)(l := None)" using 1(8) by auto
    have t: "w_loopInThisThread w' = w_loopInThisThread w" "w_thread w' = w_thread w"
      by (subst 1(7), simp)+
    have w: "w' = w\<lparr>w_heap := w_heap w', w_loops := w_loops w'\<rparr>" by (rule 1(7))
    show ?thesis
      using el dis rem
      by (simp add: EventLoop_destroy_def Channel_destroy_def loop_access assertion_def check_def
        modify_def h k t) (subst w, simp add: h k t)
  qed
qed

section \<open>Dispatch of events to callbacks\<close>

definition opt_list :: "'a option \<Rightarrow> 'a list" where
  "opt_list x = (case x of None \<Rightarrow> [] | Some y \<Rightarrow> [y])"

text \<open>The callbacks that the reported events select, in the order they are called.\<close>

definition dispatch :: "'cb channel \<Rightarrow> 'cb list" where
  "dispatch ch =
     (if has_revents ch POLLHUP \<and> \<not> has_revents ch POLLIN then opt_list (ch_closeCallback ch) else []) @
     (if has_revents ch (POLLERR OR POLLNVAL) then opt_list (ch_errorCallback ch) else []) @
     (if has_revents ch (POLLIN OR POLLPRI OR POLLHUP) then opt_list (ch_readCallback ch) else []) @
     (if has_revents ch POLLOUT then opt_list (ch_writeCallback ch) else [])"

definition same_view :: "'cb channel \<Rightarrow> 'cb channel \<Rightarrow> bool" where
  "same_view x y \<longleftrightarrow> ch_revents x = ch_revents y \<and> ch_readCallback x = ch_readCallback y \<and>
     ch_writeCallback x = ch_writeCallback y \<and> ch_errorCallback x = ch_errorCallback y \<and>
     ch_closeCallback x = ch_closeCallback y"

definition in_view :: "chan_id \<Rightarrow> 'cb channel \<Rightarrow> ('cb, 'f, 'z) world_scheme \<Rightarrow> bool" where
  "in_view c ch w \<longleftrightarrow> (\<exists>x. w_heap w c = Some x \<and> same_view x ch)"

lemma chan_if_fire:
  assumes "in_view c ch w" and "\<And>x. same_view x ch \<Longrightarrow> b x = b ch" "\<And>x. same_view x ch \<Longrightarrow> slot x = slot ch"
  shows "chan_if c b (fire_slot fire c slot) w = block (map fire (if b ch then opt_list (slot ch) else [])) w"
  using assms
  by (auto simp: chan_if_def fire_slot_def loop_access in_view_def opt_list_def skip_def
      split: option.splits sum.splits)

lemma block_replace_head:
  assumes "s w = block xs w"
  shows "block (s # ss) w = block (xs @ ss) w"
  using assms by (simp add: block_append)

lemma block_stable:
  assumes "P w" "\<And>s v v'. s \<in> set xs \<Longrightarrow> P v \<Longrightarrow> s v = Ok v' \<Longrightarrow> P v'"
    and "\<And>v. P v \<Longrightarrow> block ss v = block ts v"
  shows "block (xs @ ss) w = block (xs @ ts) w"
  using assms by (induction xs arbitrary: w) (auto split: sum.splits)

lemma dispatch_step:
  assumes view: "in_view c ch w"
    and b: "\<And>x. same_view x ch \<Longrightarrow> b x = b ch" "\<And>x. same_view x ch \<Longrightarrow> slot x = slot ch"
    and stable: "\<And>cb v v'. cb \<in> set xs \<Longrightarrow> in_view c ch v \<Longrightarrow> fire cb v = Ok v' \<Longrightarrow> in_view c ch v'"
    and xs: "xs = (if b ch then opt_list (slot ch) else [])"
    and rest: "\<And>v. in_view c ch v \<Longrightarrow> block ss v = block ts v"
  shows "block (chan_if c b (fire_slot fire c slot) # ss) w = block (map fire xs @ ts) w"
proof -
  have "block (chan_if c b (fire_slot fire c slot) # ss) w = block (map fire xs @ ss) w"
    unfolding xs by (rule block_replace_head, rule chan_if_fire [where b = b and slot = slot]) (use view b in auto)
  also have "\<dots> = block (map fire xs @ ts) w"
    by (rule block_stable [where P = "in_view c ch"]) (use view stable rest in auto)
  finally show ?thesis .
qed

lemma in_view_handling:
  assumes "in_view c ch w" "upd_chan c (\<lambda>ch. ch\<lparr>ch_handlingEvent := b\<rparr>) w = Ok w'"
  shows "in_view c ch w'"
  using assms by (auto simp: in_view_def loop_access same_view_def)

lemma has_revents_view: "same_view x y \<Longrightarrow> has_revents x m = has_revents y m"
  by (simp add: same_view_def has_revents_def)

text \<open>The four event stages of \<open>handleEvent\<close>: when its test holds, a stage calls its callback.\<close>

definition stages :: "(('cb channel \<Rightarrow> bool) \<times> ('cb channel \<Rightarrow> 'cb option)) list" where
  "stages =
     [(\<lambda>ch. has_revents ch POLLHUP \<and> \<not> has_revents ch POLLIN, ch_closeCallback),
      (\<lambda>ch. has_revents ch (POLLERR OR POLLNVAL), ch_errorCallback),
      (\<lambda>ch. has_revents ch (POLLIN OR POLLPRI OR POLLHUP), ch_readCallback),
      (\<lambda>ch. has_revents ch POLLOUT, ch_writeCallback)]"

definition stage_callbacks :: "'cb channel \<Rightarrow> ('cb channel \<Rightarrow> bool) \<times> ('cb channel \<Rightarrow> 'cb option) \<Rightarrow> 'cb list" where
  "stage_callbacks ch st = (if fst st ch then opt_list (snd st ch) else [])"

lemma dispatch_stages: "dispatch ch = concat (map (stage_callbacks ch) stages)"
  by (simp add: dispatch_def stages_def stage_callbacks_def)

lemma stages_view:
  assumes "st \<in> set stages" "same_view x ch"
  shows "fst st x = fst st ch" "snd st x = snd st ch"
  using assms has_revents_view [OF assms(2)] by (auto simp: stages_def same_view_def)

lemma run_stages:
  assumes "set sts \<subseteq> set stages" "in_view c ch w"
    and "\<And>cb v v'. cb \<in> set (dispatch ch) \<Longrightarrow> in_view c ch v \<Longrightarrow> fire cb v = Ok v' \<Longrightarrow> in_view c ch v'"
  shows "block (map (\<lambda>st. chan_if c (fst st) (fire_slot fire c (snd st))) sts @ ss) w =
         block (map fire (concat (map (stage_callbacks ch) sts)) @ ss) w"
  using assms
proof (induction sts arbitrary: w)
  case Nil
  then show ?case by simp
next
  case (Cons st sts)
  then have st: "st \<in> set stages" by simp
  have "block (chan_if c (fst st) (fire_slot fire c (snd st)) #
          (map (\<lambda>st. chan_if c (fst st) (fire_slot fire c (snd st))) sts @ ss)) w =
        block (map fire (stage_callbacks ch st) @ (map fire (concat (map (stage_callbacks ch) sts)) @ ss)) w"
  proof (rule dispatch_step [where b = "fst st" and slot = "snd st"])
    show "in_view c ch w" by fact
    show "fst st x = fst st ch" "snd st x = snd st ch" if "same_view x ch" for x
      using stages_view [OF st that] by auto
    show "in_view c ch v'"
      if "cb \<in> set (stage_callbacks ch st)" "in_view c ch v" "fire cb v = Ok v'" for cb v v'
      using Cons.prems(3) that st by (auto simp: dispatch_stages)
    show "stage_callbacks ch st = (if fst st ch then opt_list (snd st ch) else [])"
      by (simp add: stage_callbacks_def)
    show "block (map (\<lambda>st. chan_if c (fst st) (fire_slot fire c (snd st))) sts @ ss) v =
        block (map fire (concat (map (stage_callbacks ch) sts)) @ ss) v" if "in_view c ch v" for v
      using Cons that by simp
  qed
  then show ?case by simp
qed

lemma handleEvent_dispatch_eq:
  assumes ch: "w_heap w c = Some ch" and nval: "\<not> has_revents ch POLLNVAL"
    and stable: "\<And>cb v v'. cb \<in> set (dispatch ch) \<Longrightarrow> in_view c ch v \<Longrightarrow> fire cb v = Ok v' \<Longrightarrow> in_view c ch v'"
  shows "Channel_handleEvent fire c w = block
     (upd_chan c (\<lambda>ch. ch\<lparr>ch_handlingEvent := True\<rparr>) # map fire (dispatch ch) @
      [upd_chan c (\<lambda>ch. ch\<lparr>ch_handlingEvent := False\<rparr>)]) w"
proof -
  let ?fin = "upd_chan c (\<lambda>ch. ch\<lparr>ch_handlingEvent := False\<rparr>)"
  let ?nv = "chan_if c (\<lambda>ch. has_revents ch POLLNVAL) (\<lambda>w. Fault (ProcessExit 1))"
  obtain w1 where w1: "upd_chan c (\<lambda>ch. ch\<lparr>ch_handlingEvent := True\<rparr>) w = Ok w1"
    using ch by (auto simp: loop_access)
  have v1: "in_view c ch w1"
    by (rule in_view_handling [OF _ w1]) (use ch in \<open>auto simp: in_view_def same_view_def\<close>)
  have "?nv w1 = Ok w1"
    using v1 nval has_revents_view by (fastforce simp: chan_if_def loop_access in_view_def skip_def)
  moreover have "block (map (\<lambda>st. chan_if c (fst st) (fire_slot fire c (snd st))) stages @ [?fin]) w1 =
      block (map fire (dispatch ch) @ [?fin]) w1"
    unfolding dispatch_stages by (rule run_stages [OF _ v1 stable]) auto
  ultimately show ?thesis
    using w1 by (simp add: Channel_handleEvent_def stages_def)
qed

text \<open>A callback that destroys its own channel leaves \<open>handleEvent\<close> with a dead object.\<close>

lemma handleEvent_destroyed:
  assumes "w_heap w c = Some ch" "\<not> has_revents ch POLLNVAL"
    and "ch_revents ch = POLLIN" "ch_readCallback ch = Some cb"
    and "fire cb (w\<lparr>w_heap := (w_heap w)(c \<mapsto> ch\<lparr>ch_handlingEvent := True\<rparr>)\<rparr>) = Ok w'" "w_heap w' c = None"
  shows "Channel_handleEvent fire c w = Fault UseAfterFree"
  using assms
  by (simp add: Channel_handleEvent_def chan_if_def fire_slot_def loop_access has_revents_def skip_def
    poll_flags)

lemma handleEvent_write_destroyed:
  assumes "w_heap w c = Some ch" "ch_revents ch = POLLOUT" "ch_writeCallback ch = Some cb"
    and "fire cb (w\<lparr>w_heap := (w_heap w)(c \<mapsto> ch\<lparr>ch_handlingEvent := True\<rparr>)\<rparr>) = Ok w'" "w_heap w' c = None"
  shows "Channel_handleEvent fire c w = Fault UseAfterFree"
  using assms
  by (simp add: Channel_handleEvent_def chan_if_def fire_slot_def loop_access has_revents_def skip_def
    poll_flags)

lemma handleEvent_read:
  assumes "w_heap w c = Some ch" "ch_revents ch = POLLIN" "ch_readCallback ch = Some cb"
    and "fire cb (w\<lparr>w_heap := (w_heap w)(c \<mapsto> ch\<lparr>ch_handlingEvent := True\<rparr>)\<rparr>) = Ok w'"
    and "w_heap w' c = Some ch'" "ch_revents ch' = POLLIN"
  shows "Channel_handleEvent fire c w =
    Ok (w'\<lparr>w_heap := (w_heap w')(c \<mapsto> ch'\<lparr>ch_handlingEvent := False\<rparr>)\<rparr>)"
  using assms
  by (simp add: Channel_handleEvent_def chan_if_def fire_slot_def loop_access has_revents_def skip_def
    poll_flags)

section \<open>Pending functors\<close>

lemma runInLoop_own: "EventLoop_isInLoopThread l w \<Longrightarrow> EventLoop_runInLoop exec l cb w = exec cb w"
  by (auto simp: EventLoop_runInLoop_def EventLoop_isInLoopThread_def loop_access split: option.splits)

lemma runInLoop_foreign:
  assumes "w_loops w l = Some el" "el_threadId el \<noteq> w_thread w"
  shows "EventLoop_runInLoop exec l cb w = Ok (w\<lparr>w_loops := (w_loops w)(l \<mapsto>
     el\<lparr>el_pendingFunctors := el_pendingFunctors el @ [cb], el_pipeBytes := Suc (el_pipeBytes el)\<rparr>)\<rparr>)"
  using assms
  by (simp add: EventLoop_runInLoop_def EventLoop_isInLoopThread_def loop_access if_then_def
    EventLoop_wakeup_def)

lemma runInLoop_foreign_many:
  assumes "w_loops w l = Some el" "el_threadId el \<noteq> w_thread w" "fs \<noteq> []"
  shows "block (map (EventLoop_runInLoop exec l) fs) w = Ok (w\<lparr>w_loops := (w_loops w)(l \<mapsto>
     el\<lparr>el_pendingFunctors := el_pendingFunctors el @ fs, el_pipeBytes := el_pipeBytes el + length fs\<rparr>)\<rparr>)"
  using assms
proof (induction fs arbitrary: w el)
  case Nil
  then show ?case by simp
next
  case (Cons f fs)
  let ?el = "el\<lparr>el_pendingFunctors := el_pendingFunctors el @ [f], el_pipeBytes := Suc (el_pipeBytes el)\<rparr>"
  let ?w = "w\<lparr>w_loops := (w_loops w)(l \<mapsto> ?el)\<rparr>"
  have 1: "EventLoop_runInLoop exec l f w = Ok ?w"
    using Cons.prems(1,2) by (rule runInLoop_foreign)
  show ?case
  proof (cases "fs = []")
    case True
    with 1 show ?thesis by (simp add: fun_upd_def)
  next
    case False
    have "block (map (EventLoop_runInLoop exec l) fs) ?w = Ok (?w\<lparr>w_loops := (w_loops ?w)(l \<mapsto>
       ?el\<lparr>el_pendingFunctors := el_pendingFunctors ?el @ fs, el_pipeBytes := el_pipeBytes ?el + length fs\<rparr>)\<rparr>)"
      using Cons.prems(2) False by (intro Cons.IH) simp_all
    then show ?thesis using 1 by (simp add: fun_upd_def cong: if_cong)
  qed
qed

lemma doPendingFunctors_eq:
  assumes "w_loops w l = Some el"
  shows "EventLoop_doPendingFunctors exec release l w = block
    (map exec (el_pendingFunctors el) @
     [upd_loop l (\<lambda>el. el\<lparr>el_callingPendingFunctors := False\<rparr>)] @
     map release (el_pendingFunctors el))
    (w\<lparr>w_loops := (w_loops w)(l \<mapsto> el\<lparr>el_callingPendingFunctors := True, el_pendingFunctors := []\<rparr>)\<rparr>)"
  using assms
  by (simp add: EventLoop_doPendingFunctors_def loop_access block_append Let_def
      split: sum.splits)

definition pending_of :: "loop_id \<Rightarrow> ('cb, 'f, 'z) world_scheme \<Rightarrow> 'f list" where
  "pending_of l w = (case w_loops w l of None \<Rightarrow> [] | Some el \<Rightarrow> el_pendingFunctors el)"

lemma pending_of_upd_calling:
  "upd_loop l (\<lambda>el. el\<lparr>el_callingPendingFunctors := b\<rparr>) w = Ok w' \<Longrightarrow> pending_of l w' = pending_of l w"
  by (auto simp: loop_access pending_of_def split: option.splits)

lemma pending_of_batch:
  assumes "\<And>f v v'. f \<in> set fs \<Longrightarrow> run f v = Ok v' \<Longrightarrow> pending_of l v' = pending_of l v @ posts f"
    and "block (map run fs) w = Ok w'"
  shows "pending_of l w' = pending_of l w @ concat (map posts fs)"
  using assms
proof (induction fs arbitrary: w)
  case Nil
  then show ?case by simp
next
  case (Cons f fs)
  from Cons.prems(2) obtain w1 where w1: "run f w = Ok w1" "block (map run fs) w1 = Ok w'"
    by (auto split: sum.splits)
  have "pending_of l w' = pending_of l w1 @ concat (map posts fs)"
    using Cons.prems(1) w1(2) by (intro Cons.IH) auto
  moreover have "pending_of l w1 = pending_of l w @ posts f"
    using Cons.prems(1) w1(1) by auto
  ultimately show ?case by simp
qed

section \<open>Properties\<close>

definition empty_world :: "nat \<Rightarrow> ('cb, 'f) world" where
  "empty_world t = \<lparr>w_thread = t, w_heap = Map.empty, w_loops = Map.empty, w_loopInThisThread = Map.empty\<rparr>"

lemma fresh_empty_world [simp]: "fresh_loop l c (empty_world t)"
  by (simp add: fresh_loop_def empty_world_def)

text \<open>
  Constructing an event loop on a thread that has none succeeds when the pipe can be
  made: the loop serves its thread, the thread-local pointer names it, and exactly its
  wake-up channel is registered, polled for reading on the read end of the pipe.
\<close>

theorem EventLoop_new_registers_wakeup:
  assumes "fresh_loop l c w"
  shows "\<exists>w' p. EventLoop_new l c 0 (Some fds) cb w = Ok w' \<and> serves l w' p \<and>
           EventLoop_getEventLoopOfCurrentThread w' = Some l \<and>
           registered (p, w_heap w') = {c} \<and>
           entry_of (p, w_heap w') c = Some \<lparr>pfd_fd = fst fds, pfd_events = ucast kReadEvent, pfd_revents = 0\<rparr>"
proof (rule EventLoop_new_serves [OF assms, of fds cb], goal_cases)
  case (1 w' p ch)
  have "EventLoop_getEventLoopOfCurrentThread w' = Some l"
    by (subst 1(10)) (simp add: EventLoop_getEventLoopOfCurrentThread_def)
  with 1(1,2,4,7) show ?case by blast
qed

theorem EventLoop_new_registers_wakeup_witness:
  "\<exists>w' p. EventLoop_new 4 9 0 (Some (10, 11)) ''handleRead'' (empty_world 1 :: (string, unit) world) = Ok w' \<and>
     serves 4 w' p \<and> registered (p, w_heap w') = {9}"
  using EventLoop_new_registers_wakeup [OF fresh_empty_world, where fds = "(10, 11)" and cb = "''handleRead''"] by blast

text \<open>
  Destroying a loop right after its construction gives back the world before it: the
  wake-up channel is unregistered and destroyed, and the thread may create another loop.
\<close>

theorem EventLoop_create_destroy:
  assumes "fresh_loop l c w"
  shows "block [EventLoop_new l c 0 (Some fds) cb, EventLoop_destroy release l] w = Ok w"
proof (rule EventLoop_new_serves [OF assms, of fds cb], goal_cases)
  case (1 w' p ch)
  obtain el where el: "w_loops w' l = Some el" "el_wakeupChannel el = Some c" "el_pendingFunctors el = []"
    using 1(11) by blast
  have "c \<in> registered (p, w_heap w')" using 1(4) by blast
  note destroy = EventLoop_destroy_eq [OF 1(2,3) this el, of release]
  have h: "(w_heap w')(c := None) = w_heap w" and k: "(w_loops w')(l := None) = w_loops w"
    using assms 1(8,9) by (auto simp: fresh_loop_def)
  have t: "(w_loopInThisThread w')(w_thread w' := None) = w_loopInThisThread w"
    using assms by (subst (1 2) 1(10)) (auto simp: fresh_loop_def)
  have "w'\<lparr>w_heap := w_heap w, w_loops := w_loops w, w_loopInThisThread := w_loopInThisThread w\<rparr> = w"
    by (subst 1(10)) simp
  with 1(1) destroy show ?case by (simp add: h k t)
qed

theorem EventLoop_create_destroy_witness:
  "block [EventLoop_new 4 9 0 (Some (10, 11)) ''handleRead'', EventLoop_destroy (\<lambda>_. skip) 4] (empty_world 1) =
     Ok (empty_world 1 :: (string, unit) world)"
  by (rule EventLoop_create_destroy) simp

text \<open>
  A channel disabled with \<open>disableAll\<close> can be re-enabled without any assertion
  failing, but it is never polled again: whatever interest its owner sets afterwards, its
  entry of the array keeps the descriptor \<open>-1\<close>, which \<open>poll(2)\<close> ignores.
\<close>

theorem disabled_channel_stays_unpolled:
  assumes "serves l w p" "own_channel l w p c ch" "c \<in> registered (p, w_heap w)"
  shows "\<exists>w' p' pf. block (Channel_disableAll c # map (Channel_change c) gs) w = Ok w' \<and>
           serves l w' p' \<and> entry_of (p', w_heap w') c = Some pf \<and> pfd_fd pf = -1"
proof -
  obtain pf where pf: "entry_of (p, w_heap w) c = Some pf"
    using assms poller_okD_entry [of p "w_heap w" c ch]
    by (auto simp: entry_of_def entry_ok_def serves_def own_channel_def)
  obtain w1 p1 i where w1: "Channel_change c (\<lambda>e. kNoneEvent) w = Ok w1" "serves l w1 p1"
    "own_channel l w1 p1 c (ch\<lparr>ch_events := kNoneEvent, ch_index := i, ch_addedToLoop := True\<rparr>)"
    "entry_of (p1, w_heap w1) c = Some (set_pollfd (ch\<lparr>ch_events := kNoneEvent\<rparr>) pf)"
    using change_ok [OF assms(1,2), of "\<lambda>e. kNoneEvent"] pf by metis
  moreover have "pfd_fd (set_pollfd (ch\<lparr>ch_events := kNoneEvent\<rparr>) pf) = -1"
    by (simp add: set_pollfd_def Let_def Channel_isNoneEvent_def)
  ultimately show ?thesis
    using changes_keep_dead_entry [OF w1(2,3,4), of gs] by (simp add: Channel_disableAll_def)
qed


theorem disabled_channel_stays_unpolled_witness:
  "\<exists>w p w' p' pf. serves 4 (w :: (string, unit) world) p \<and>
     block (Channel_disableAll 9 # map (Channel_change 9) [\<lambda>e. e OR kReadEvent]) w = Ok w' \<and>
     serves 4 w' p' \<and> entry_of (p', w_heap w') 9 = Some pf \<and> pfd_fd pf = -1"
proof (rule EventLoop_new_serves [of 4 9 "empty_world 1 :: (string, unit) world" "(10, 11)" "''handleRead''"],
    simp, goal_cases)
  case (1 w p ch)
  then have "9 \<in> registered (p, w_heap w)" by blast
  from 1(2) disabled_channel_stays_unpolled [OF 1(2,3) this, of "[\<lambda>e. e OR kReadEvent]"] show ?case
    by blast
qed

text \<open>
  With \<open>POLLNVAL\<close> not reported, and as long as no callback destroys the channel or changes its
  \<open>revents_\<close> or callbacks, \<open>handleEvent\<close> is the list \<open>dispatch\<close> of the selected callbacks, in the
  order close, error, read, write; an error among them stops it.
\<close>

theorem handleEvent_dispatch:
  assumes "w_heap w c = Some ch" "\<not> has_revents ch POLLNVAL"
    and "\<And>cb v v'. cb \<in> set (dispatch ch) \<Longrightarrow> in_view c ch v \<Longrightarrow> fire cb v = Ok v' \<Longrightarrow> in_view c ch v'"
  shows "Channel_handleEvent fire c w = block
     (upd_chan c (\<lambda>ch. ch\<lparr>ch_handlingEvent := True\<rparr>) # map fire (dispatch ch) @
      [upd_chan c (\<lambda>ch. ch\<lparr>ch_handlingEvent := False\<rparr>)]) w"
  using assms by (rule handleEvent_dispatch_eq)

text \<open>A channel with a read and a write callback, and \<open>POLLIN\<close> and \<open>POLLOUT\<close> reported.\<close>

definition example_event_world :: "(nat, nat) world" where
  "example_event_world = (empty_world 1)\<lparr>w_heap := [0 \<mapsto> (Channel_new 4 5)
     \<lparr>ch_revents := POLLIN OR POLLOUT, ch_readCallback := Some 3, ch_writeCallback := Some 5\<rparr>]\<rparr>"

definition log_callback :: "nat \<Rightarrow> (nat, nat) world stmt" where
  "log_callback cb w = Ok (w\<lparr>w_thread := 10 * w_thread w + cb\<rparr>)"

theorem handleEvent_dispatch_witness:
  "map_option w_thread (case Channel_handleEvent log_callback 0 example_event_world of
     Inl e \<Rightarrow> None | Inr w' \<Rightarrow> Some w') = Some 135"
proof -
  let ?ch = "(Channel_new 4 5)\<lparr>ch_revents := POLLIN OR POLLOUT,
      ch_readCallback := Some (3 :: nat), ch_writeCallback := Some 5\<rparr>"
  have ch: "w_heap example_event_world 0 = Some ?ch"
    by (simp add: example_event_world_def)
  have nval: "\<not> has_revents ?ch POLLNVAL"
    by (simp add: has_revents_def poll_flags)
  have stable: "in_view 0 ?ch v'" if "in_view 0 ?ch v" "log_callback cb v = Ok v'" for cb v v'
    using that by (auto simp: in_view_def log_callback_def)
  have d: "dispatch ?ch = [3, 5]"
    by (simp add: dispatch_def has_revents_def poll_flags opt_list_def)
  have "Channel_handleEvent log_callback 0 example_event_world = block
     (upd_chan 0 (\<lambda>ch. ch\<lparr>ch_handlingEvent := True\<rparr>) # map log_callback [3, 5] @
      [upd_chan 0 (\<lambda>ch. ch\<lparr>ch_handlingEvent := False\<rparr>)]) example_event_world"
    unfolding d [symmetric] by (rule handleEvent_dispatch [OF ch nval stable])
  then show ?thesis
    by (simp add: loop_access log_callback_def example_event_world_def empty_world_def)
qed

text \<open>
  Functors posted by another thread are queued in posting order behind the pending ones,
  with one byte written to the wake-up pipe for each; the next \<open>doPendingFunctors\<close> of the
  loop's thread runs exactly the pending ones and then these, in that order.
\<close>

theorem posted_functors_run_in_order:
  assumes "w_loops w l = Some el" "el_threadId el \<noteq> w_thread w" "fs \<noteq> []"
  shows "\<exists>w1 el1. block (map (EventLoop_runInLoop exec l) fs) w = Ok w1 \<and>
     w_loops w1 l = Some el1 \<and> el_pipeBytes el1 = el_pipeBytes el + length fs \<and>
     EventLoop_doPendingFunctors exec release l (w1\<lparr>w_thread := el_threadId el\<rparr>) = block
       (map exec (el_pendingFunctors el @ fs) @
        [upd_loop l (\<lambda>el. el\<lparr>el_callingPendingFunctors := False\<rparr>)] @
        map release (el_pendingFunctors el @ fs))
       (w1\<lparr>w_thread := el_threadId el, w_loops := (w_loops w1)(l \<mapsto>
          el1\<lparr>el_callingPendingFunctors := True, el_pendingFunctors := []\<rparr>)\<rparr>)"
proof -
  let ?el1 = "el\<lparr>el_pendingFunctors := el_pendingFunctors el @ fs, el_pipeBytes := el_pipeBytes el + length fs\<rparr>"
  let ?w1 = "w\<lparr>w_loops := (w_loops w)(l \<mapsto> ?el1)\<rparr>"
  have "w_loops (?w1\<lparr>w_thread := el_threadId el\<rparr>) l = Some ?el1" by simp
  note run = doPendingFunctors_eq [OF this, of exec release]
  show ?thesis
    by (intro exI [of _ ?w1] exI [of _ ?el1] conjI)
      (use runInLoop_foreign_many [OF assms, of exec] run in simp_all)
qed

definition example_loop_world :: "nat \<Rightarrow> (nat, nat) world" where
  "example_loop_world t = (empty_world t)\<lparr>w_loops := [4 \<mapsto>
     \<lparr>el_threadId = 1, el_looping = True, el_quit = False, el_poller = Some (PollPoller_new 4),
      el_activeChannels = [], el_callingPendingFunctors = False, el_wakeupPipe = (10, 11),
      el_pipeBytes = 0, el_wakeupChannel = None, el_pendingFunctors = []\<rparr>]\<rparr>"

lemma example_loop_world_simps:
  "w_thread (example_loop_world t) = t"
  "w_loops (example_loop_world t) 4 = Some
     \<lparr>el_threadId = 1, el_looping = True, el_quit = False, el_poller = Some (PollPoller_new 4),
      el_activeChannels = [], el_callingPendingFunctors = False, el_wakeupPipe = (10, 11),
      el_pipeBytes = 0, el_wakeupChannel = None, el_pendingFunctors = []\<rparr>"
  by (simp_all add: example_loop_world_def empty_world_def)

theorem posted_functors_run_in_order_witness:
  "\<exists>w1. block (map (EventLoop_runInLoop log_callback 4) [3, 5]) (example_loop_world 2) = Ok w1 \<and>
     map_option el_pipeBytes (w_loops w1 4) = Some 2"
  using posted_functors_run_in_order [OF example_loop_world_simps(2), of 2 "[3, 5]" log_callback "\<lambda>f. skip"]
  by (auto simp: example_loop_world_simps(1))

text \<open>
  Functors posted to the loop while a batch runs wait for the next batch: if every
  functor of the batch appends some functors to the queue, then after the batch the queue
  holds exactly these, in order.
\<close>

theorem functors_posted_during_a_batch_wait:
  assumes el: "w_loops w l = Some el"
    and run: "\<And>f v v'. f \<in> set (el_pendingFunctors el) \<Longrightarrow> exec f v = Ok v' \<Longrightarrow>
                pending_of l v' = pending_of l v @ posts f"
    and rel: "\<And>f v v'. release f v = Ok v' \<Longrightarrow> pending_of l v' = pending_of l v"
    and ok: "EventLoop_doPendingFunctors exec release l w = Ok w'"
  shows "pending_of l w' = concat (map posts (el_pendingFunctors el))"
proof -
  let ?fs = "el_pendingFunctors el"
  let ?w0 = "w\<lparr>w_loops := (w_loops w)(l \<mapsto> el\<lparr>el_callingPendingFunctors := True, el_pendingFunctors := []\<rparr>)\<rparr>"
  obtain w1 w2 where w1: "block (map exec ?fs) ?w0 = Ok w1"
    "upd_loop l (\<lambda>el. el\<lparr>el_callingPendingFunctors := False\<rparr>) w1 = Ok w2"
    "block (map release ?fs) w2 = Ok w'"
    using ok unfolding doPendingFunctors_eq [OF el] by (auto simp: block_append split: sum.splits)
  have "pending_of l w1 = concat (map posts ?fs)"
    using pending_of_batch [OF run w1(1)] by (simp add: pending_of_def)
  moreover have "pending_of l w' = pending_of l w2 @ concat (map (\<lambda>f. []) ?fs)"
    using rel by (intro pending_of_batch [OF _ w1(3)]) simp
  ultimately show ?thesis
    using pending_of_upd_calling [OF w1(2)] by simp
qed

theorem functors_posted_during_a_batch_wait_witness:
  "\<exists>w'. EventLoop_doPendingFunctors log_callback (\<lambda>f. skip) 4
          ((example_loop_world 1)\<lparr>w_loops := [4 \<mapsto> (the (w_loops (example_loop_world 1) 4))
             \<lparr>el_pendingFunctors := [3, 5]\<rparr>]\<rparr>) = Ok w' \<and> pending_of 4 w' = []"
proof -
  let ?el = "(the (w_loops (example_loop_world 1) 4))\<lparr>el_pendingFunctors := [3, 5]\<rparr>"
  let ?w = "(example_loop_world 1)\<lparr>w_loops := [4 \<mapsto> ?el]\<rparr>"
  have el: "w_loops ?w 4 = Some ?el" by simp
  obtain w' where w': "EventLoop_doPendingFunctors log_callback (\<lambda>f. skip) 4 ?w = Ok w'"
    unfolding doPendingFunctors_eq [OF el] by (simp add: log_callback_def loop_access skip_def)
  have "pending_of 4 w' = concat (map (\<lambda>f. []) (el_pendingFunctors ?el))"
    by (rule functors_posted_during_a_batch_wait [OF el _ _ w'])
      (auto simp: log_callback_def pending_of_def skip_def)
  with w' show ?thesis by simp
qed

text \<open>
  A \<open>quit()\<close> issued by another thread before the loop's thread enters \<open>loop()\<close> is
  lost: \<open>loop()\<close> clears the flag, and the run is the one that would have taken place
  without it, except for one byte in the wake-up pipe.
\<close>

theorem quit_before_loop_is_lost:
  assumes "w_loops w l = Some el" "el_threadId el \<noteq> w_thread w"
  shows "\<exists>w1. EventLoop_quit l w = Ok w1 \<and>
     EventLoop_loop fire exec release l ks (w1\<lparr>w_thread := el_threadId el\<rparr>) =
     EventLoop_loop fire exec release l ks (w\<lparr>w_thread := el_threadId el,
        w_loops := (w_loops w)(l \<mapsto> el\<lparr>el_pipeBytes := Suc (el_pipeBytes el)\<rparr>)\<rparr>)"
  using assms
  by (simp add: EventLoop_quit_def EventLoop_loop_def EventLoop_enter_def EventLoop_isInLoopThread_def if_then_def
    EventLoop_wakeup_def loop_access EventLoop_assertInLoopThread_def assertion_def check_def)

theorem quit_before_loop_is_lost_witness:
  "\<exists>w1. EventLoop_quit 4 (example_loop_world 2) = Ok w1 \<and>
     EventLoop_loop log_callback log_callback log_callback 4 [] (w1\<lparr>w_thread := 1\<rparr>) =
     EventLoop_loop log_callback log_callback log_callback 4 [] ((example_loop_world 2)\<lparr>w_thread := 1,
        w_loops := (w_loops (example_loop_world 2))(4 \<mapsto>
          (the (w_loops (example_loop_world 2) 4))\<lparr>el_pipeBytes := 1\<rparr>)\<rparr>)"
  using quit_before_loop_is_lost [OF example_loop_world_simps(2), of 2 log_callback log_callback log_callback "[]"]
  by (simp add: example_loop_world_simps)

end
