(* ===== verification/InetAddress.thy ===== *)
theory InetAddress
  imports Prelude
begin

text \<open>
  \<open>InetAddress.cpp\<close>: the wrapper around \<open>sockaddr_in\<close>. Ports and addresses are kept in
  network byte order, as the structure does; \<open>htons\<close>/\<open>ntohs\<close> are the byte swaps of a
  little-endian machine. \<open>inet_ntoa\<close> is the documented dotted-decimal form;
  \<open>inet_aton\<close>, whose grammar the code does not depend on, is a parameter that gives the
  parsed address or fails. \<open>std::to_string\<close> on a non-negative integer is the decimal
  numeral \<open>show_nat\<close>, which the connection names use as well.
\<close>

unbundle bit_operations_syntax

section \<open>Decimal numerals\<close>

definition digit :: "nat \<Rightarrow> char" where
  "digit d = char_of (48 + d)"

fun show_nat :: "nat \<Rightarrow> string" where
  "show_nat n = (if n < 10 then [digit n] else show_nat (n div 10) @ [digit (n mod 10)])"

declare show_nat.simps [simp del]

definition read_nat :: "string \<Rightarrow> nat" where
  "read_nat s = foldl (\<lambda>n c. 10 * n + (of_char c - 48)) 0 s"

lemma digit_0: "digit 0 = CHR ''0''"
  by code_simp

lemma of_char_digit: "d < 10 \<Longrightarrow> of_char (digit d) = 48 + d"
  by (simp add: digit_def of_char_of)

lemma read_show_nat [simp]: "read_nat (show_nat n) = n"
proof (induction n rule: show_nat.induct)
  case (1 n)
  show ?case
  proof (cases "n < 10")
    case True
    then show ?thesis by (simp add: show_nat.simps [of n] read_nat_def of_char_digit)
  next
    case False
    then have "read_nat (show_nat n) = 10 * read_nat (show_nat (n div 10)) + n mod 10"
      by (simp add: show_nat.simps [of n] read_nat_def of_char_digit)
    with 1 False show ?thesis by simp
  qed
qed

lemma show_nat_inj [simp]: "show_nat m = show_nat n \<longleftrightarrow> m = n"
  by (metis read_show_nat)

lemma show_nat_nonempty [simp]: "show_nat n \<noteq> []"
  by (subst show_nat.simps) simp

lemma show_nat_digits: "c \<in> set (show_nat n) \<Longrightarrow> \<exists>d < 10. c = digit d"
proof (induction n rule: show_nat.induct)
  case (1 n)
  then show ?case
    by (subst (asm) (2) show_nat.simps) (auto split: if_splits intro: exI [of _ "n mod 10"])
qed

lemma digit_neq: "d < 10 \<Longrightarrow> of_char c < (48 :: nat) \<or> 57 < (of_char c :: nat) \<Longrightarrow> digit d \<noteq> c"
  using of_char_digit [of d] by auto

lemma length_show_nat: "n < 10 ^ k \<Longrightarrow> 0 < k \<Longrightarrow> length (show_nat n) \<le> k"
proof (induction n arbitrary: k rule: show_nat.induct)
  case (1 n)
  show ?case
  proof (cases "n < 10")
    case True
    with 1 show ?thesis by (simp add: show_nat.simps [of n])
  next
    case False
    with "1.prems" obtain j where k: "k = Suc j" "0 < j"
      by (cases k; cases "k - 1") auto
    with "1.prems" have "n div 10 < 10 ^ j" by (simp add: less_mult_imp_div_less)
    with "1.IH" [OF False this k(2)] False k(1) show ?thesis by (simp add: show_nat.simps [of n])
  qed
qed

section \<open>Socket addresses\<close>

record sockaddr_in =
  sin_family :: int
  sin_port :: "16 word"
  sin_addr :: "32 word"

definition AF_INET :: int where
  "AF_INET = 2"

definition htons :: "16 word \<Rightarrow> 16 word" where
  "htons x = push_bit 8 x OR drop_bit 8 x"

definition ntohs :: "16 word \<Rightarrow> 16 word" where
  "ntohs x = push_bit 8 x OR drop_bit 8 x"

definition htonl :: "32 word \<Rightarrow> 32 word" where
  "htonl x = push_bit 24 x OR (push_bit 8 x AND 0xFF0000) OR (drop_bit 8 x AND 0xFF00) OR drop_bit 24 x"

lemma ntohs_htons: "ntohs (htons x) = x"
  by (rule bit_eqI) (auto simp: ntohs_def htons_def bit_simps)

text \<open>The octets of an address in network order, lowest address first.\<close>

definition octets :: "32 word \<Rightarrow> nat list" where
  "octets a = map (\<lambda>i. unat (drop_bit (8 * i) a AND 0xFF)) [0, 1, 2, 3]"

definition inet_ntoa :: "32 word \<Rightarrow> string" where
  "inet_ntoa a = (case octets a of
     [o0, o1, o2, o3] \<Rightarrow>
       show_nat o0 @ ''.'' @ show_nat o1 @ ''.'' @ show_nat o2 @ ''.'' @ show_nat o3
   | _ \<Rightarrow> [])"

definition INADDR_ANY :: "32 word" where
  "INADDR_ANY = 0"

definition InetAddress_setSockAddrIn :: "sockaddr_in \<Rightarrow> sockaddr_in \<Rightarrow> sockaddr_in" where
  [simp]: "InetAddress_setSockAddrIn addr self = addr"

definition InetAddress_any :: "16 word \<Rightarrow> sockaddr_in" where
  "InetAddress_any port = \<lparr>sin_family = AF_INET, sin_port = htons port, sin_addr = htonl INADDR_ANY\<rparr>"

definition InetAddress_ip :: "(string \<Rightarrow> 32 word option) \<Rightarrow> string \<Rightarrow> 16 word \<Rightarrow> sockaddr_in" where
  "InetAddress_ip inet_aton ip port =
     \<lparr>sin_family = AF_INET, sin_port = htons port,
      sin_addr = (case inet_aton ip of None \<Rightarrow> 0 | Some a \<Rightarrow> a)\<rparr>"

text \<open>
  \<open>toIp\<close> and \<open>toIpPort\<close> copy the text of \<open>inet_ntoa\<close> and its terminating zero into a
  local array of 20 characters with \<open>strcpy\<close>.
\<close>

definition ip_buffer_size :: nat where
  "ip_buffer_size = 20"

definition InetAddress_toIp :: "sockaddr_in \<Rightarrow> string res" where
  "InetAddress_toIp addr =
     (let str = inet_ntoa (sin_addr addr)
      in if length str + 1 \<le> ip_buffer_size then Ok str else Fault UndefinedBehaviour)"

definition InetAddress_toIpPort :: "sockaddr_in \<Rightarrow> string res" where
  "InetAddress_toIpPort addr =
     (let str = inet_ntoa (sin_addr addr)
      in if length str + 1 \<le> ip_buffer_size
         then Ok (str @ '':'' @ show_nat (unat (ntohs (sin_port addr))))
         else Fault UndefinedBehaviour)"

lemma octets_range: "x \<in> set (octets a) \<Longrightarrow> x < 256"
proof -
  have "unat (b AND 0xFF) < 256" for b :: "32 word"
  proof -
    have "b AND 0xFF \<le> 0xFF" by (rule word_and_le1)
    then show ?thesis by (simp add: word_le_nat_alt)
  qed
  then show "x \<in> set (octets a) \<Longrightarrow> x < 256" by (auto simp: octets_def)
qed

lemma octet_length: "x \<in> set (octets a) \<Longrightarrow> length (show_nat x) \<le> 3"
  using octets_range [of x a] by (intro length_show_nat) auto

lemma inet_ntoa_length: "length (inet_ntoa a) \<le> 15"
proof -
  obtain o0 o1 o2 o3 where o: "octets a = [o0, o1, o2, o3]"
    by (simp add: octets_def)
  have "length (show_nat o0) \<le> 3" "length (show_nat o1) \<le> 3"
    "length (show_nat o2) \<le> 3" "length (show_nat o3) \<le> 3"
    by (rule octet_length [of _ a], simp add: o)+
  then show ?thesis by (simp add: inet_ntoa_def o)
qed

lemma toIpPort_length:
  obtains s where "InetAddress_toIpPort addr = Ok s" "length s \<le> 21"
    "InetAddress_toIp addr = Ok (inet_ntoa (sin_addr addr))"
proof -
  have "unat (ntohs (sin_port addr)) < 2 ^ LENGTH(16)"
    by (rule unsigned_less)
  then have "unat (ntohs (sin_port addr)) < 10 ^ 5" by simp
  then have "length (show_nat (unat (ntohs (sin_port addr)))) \<le> 5"
    by (rule length_show_nat) simp
  with inet_ntoa_length [of "sin_addr addr"] show thesis
    by (intro that [of "inet_ntoa (sin_addr addr) @ '':'' @ show_nat (unat (ntohs (sin_port addr)))"])
      (simp_all add: InetAddress_toIpPort_def InetAddress_toIp_def ip_buffer_size_def Let_def)
qed

lemma toIpPort_any: "InetAddress_toIpPort (InetAddress_any port) = Ok (''0.0.0.0:'' @ show_nat (unat port))"
proof -
  have "inet_ntoa (htonl INADDR_ANY) = ''0.0.0.0''"
    by (simp add: inet_ntoa_def octets_def htonl_def INADDR_ANY_def show_nat.simps digit_0)
  then show ?thesis
    by (simp add: InetAddress_toIpPort_def InetAddress_any_def ntohs_htons Let_def ip_buffer_size_def)
qed

lemma toIpPort_ip: "InetAddress_toIpPort (InetAddress_ip inet_aton ip port) =
    Ok (inet_ntoa (case inet_aton ip of None \<Rightarrow> 0 | Some a \<Rightarrow> a) @ '':'' @ show_nat (unat port))"
proof -
  have "length (inet_ntoa a) + 1 \<le> ip_buffer_size" for a
    using inet_ntoa_length [of a] by (simp add: ip_buffer_size_def)
  then show ?thesis
    by (simp add: InetAddress_toIpPort_def InetAddress_ip_def ntohs_htons Let_def)
qed

section \<open>Properties\<close>

text \<open>
  The fixed array of 20 characters is large enough for every address, so \<open>toIpPort\<close>
  never overruns it, and its text is at most 21 characters long.
\<close>

theorem toIpPort_fits_buffer:
  "\<exists>s. InetAddress_toIpPort addr = Ok s \<and> length s \<le> 21 \<and> InetAddress_toIp addr = Ok (inet_ntoa (sin_addr addr))"
  by (rule toIpPort_length [of addr]) blast

text \<open>
  The port given to a constructor is the port that \<open>toIpPort\<close> prints: storing it in
  network byte order and reading it back loses nothing, for both constructors.
\<close>

theorem toIpPort_shows_port:
  "InetAddress_toIpPort (InetAddress_any port) = Ok (''0.0.0.0:'' @ show_nat (unat port)) \<and>
   InetAddress_toIpPort (InetAddress_ip inet_aton ip port) =
     Ok (inet_ntoa (case inet_aton ip of None \<Rightarrow> 0 | Some a \<Rightarrow> a) @ '':'' @ show_nat (unat port))"
  by (simp add: toIpPort_any toIpPort_ip)

end
