(* ===== verification/Socket.thy ===== *)
theory Socket
  imports Prelude
begin

text \<open>
  \<open>Socket.cpp\<close>: what the code tells the kernel about a descriptor with \<open>fcntl\<close> and
  \<open>setsockopt\<close>. The kernel's side is a table that gives each descriptor its status flags,
  descriptor flags and socket options; the constants are those of Linux. The calls are made
  on open descriptors of sockets, for which they succeed.
\<close>

unbundle bit_operations_syntax

section \<open>The kernel's table of sockets\<close>

datatype sockopt = TCP_NODELAY | SO_KEEPALIVE | SO_REUSEADDR | SO_REUSEPORT

record sock_attrs =
  sa_status :: "32 word"
  sa_fdflags :: "32 word"
  sa_options :: "sockopt \<Rightarrow> 32 word"

type_synonym sock_table = "int \<Rightarrow> sock_attrs"

definition O_RDWR :: "32 word" where
  "O_RDWR = 2"

definition O_NONBLOCK :: "32 word" where
  "O_NONBLOCK = 0x800"

definition FD_CLOEXEC :: "32 word" where
  "FD_CLOEXEC = 1"

text \<open>\<open>socket(PF_INET, SOCK_STREAM, 0)\<close>: a blocking descriptor that survives \<open>exec\<close>.\<close>

definition new_socket :: sock_attrs where
  "new_socket = \<lparr>sa_status = O_RDWR, sa_fdflags = 0, sa_options = (\<lambda>_. 0)\<rparr>"

definition sys_socket :: "int \<Rightarrow> sock_table \<Rightarrow> sock_table" where
  "sys_socket fd t = t(fd := new_socket)"

text \<open>
  \<open>accept\<close> gives its descriptor fresh flags; which options it passes on is left to the
  kernel, as what the table already says.
\<close>

definition accepted_socket :: "sock_attrs \<Rightarrow> sock_attrs" where
  "accepted_socket a = a\<lparr>sa_status := O_RDWR, sa_fdflags := 0\<rparr>"

definition sys_setfl :: "int \<Rightarrow> 32 word \<Rightarrow> sock_table \<Rightarrow> sock_table" where
  "sys_setfl fd flags t = t(fd := (t fd)\<lparr>sa_status := flags\<rparr>)"

definition sys_setfd :: "int \<Rightarrow> 32 word \<Rightarrow> sock_table \<Rightarrow> sock_table" where
  "sys_setfd fd flags t = t(fd := (t fd)\<lparr>sa_fdflags := flags\<rparr>)"

definition sys_setsockopt :: "int \<Rightarrow> sockopt \<Rightarrow> 32 word \<Rightarrow> sock_table \<Rightarrow> sock_table" where
  "sys_setsockopt fd opt optval t = t(fd := (t fd)\<lparr>sa_options := (sa_options (t fd))(opt := optval)\<rparr>)"

definition nonblocking :: "sock_attrs \<Rightarrow> bool" where
  "nonblocking a \<longleftrightarrow> sa_status a AND O_NONBLOCK \<noteq> 0"

definition close_on_exec :: "sock_attrs \<Rightarrow> bool" where
  "close_on_exec a \<longleftrightarrow> sa_fdflags a AND FD_CLOEXEC \<noteq> 0"

section \<open>Operations\<close>

definition setNonBlockAndCloseOnExec :: "int \<Rightarrow> sock_table \<Rightarrow> sock_table" where
  "setNonBlockAndCloseOnExec sockfd t =
     (let flags = sa_status (t sockfd) OR O_NONBLOCK;
          t1 = sys_setfl sockfd flags t;
          flags = sa_fdflags (t1 sockfd) OR FD_CLOEXEC
      in sys_setfd sockfd flags t1)"

definition Socket_setTcpNoDelay :: "int \<Rightarrow> bool \<Rightarrow> sock_table \<Rightarrow> sock_table" where
  "Socket_setTcpNoDelay sockfd on =
     (let optval = if on then 1 else 0 in sys_setsockopt sockfd TCP_NODELAY optval)"

definition Socket_setTcpKeepAlive :: "int \<Rightarrow> bool \<Rightarrow> sock_table \<Rightarrow> sock_table" where
  "Socket_setTcpKeepAlive sockfd on =
     (let optval = if on then 1 else 0 in sys_setsockopt sockfd SO_KEEPALIVE optval)"

definition Socket_setReuseAddr :: "int \<Rightarrow> bool \<Rightarrow> sock_table \<Rightarrow> sock_table" where
  "Socket_setReuseAddr sockfd on =
     (let optval = if on then 1 else 0 in sys_setsockopt sockfd SO_REUSEADDR optval)"

text \<open>\<open>supported\<close>: whether the platform defines \<open>SO_REUSEPORT\<close>; otherwise it only prints.\<close>

definition Socket_setReusePort :: "bool \<Rightarrow> int \<Rightarrow> bool \<Rightarrow> sock_table \<Rightarrow> sock_table" where
  "Socket_setReusePort supported sockfd on t =
     (if supported then
        (let optval = if on then 1 else 0 in sys_setsockopt sockfd SO_REUSEPORT optval t)
      else t)"

section \<open>What they set\<close>

lemma or_and_nonzero: "(x OR m) AND m = (m :: 32 word)"
  by (rule bit_word_eqI) (auto simp: bit_simps)

text \<open>Both flags are set, the other flags of the two words and the options are kept.\<close>

lemma setNonBlockAndCloseOnExec_sets:
  "nonblocking (setNonBlockAndCloseOnExec fd t fd)" "close_on_exec (setNonBlockAndCloseOnExec fd t fd)"
  "setNonBlockAndCloseOnExec fd t fd = (t fd)\<lparr>sa_status := sa_status (t fd) OR O_NONBLOCK,
     sa_fdflags := sa_fdflags (t fd) OR FD_CLOEXEC\<rparr>"
  "fd' \<noteq> fd \<Longrightarrow> setNonBlockAndCloseOnExec fd t fd' = t fd'"
  by (simp_all add: setNonBlockAndCloseOnExec_def Let_def sys_setfl_def sys_setfd_def nonblocking_def
      close_on_exec_def or_and_nonzero O_NONBLOCK_def FD_CLOEXEC_def)

lemma new_socket_blocks: "\<not> nonblocking new_socket" "\<not> close_on_exec new_socket"
  by (simp_all add: nonblocking_def close_on_exec_def new_socket_def O_RDWR_def O_NONBLOCK_def FD_CLOEXEC_def)

lemma new_socket_option:
  "sys_setsockopt fd opt v (t(fd := new_socket)) = t(fd := new_socket\<lparr>sa_options := (\<lambda>o'. if o' = opt then v else 0)\<rparr>)"
  "new_socket\<lparr>sa_options := (\<lambda>_. 0)\<rparr> = new_socket"
  by (auto simp: sys_setsockopt_def new_socket_def fun_upd_def)

text \<open>The table after several sockets have been made.\<close>

definition after_sockets :: "int list \<Rightarrow> sock_table \<Rightarrow> sock_table" where
  "after_sockets fds t = (\<lambda>fd. if fd \<in> set fds then new_socket else t fd)"

lemma after_sockets_simps [simp]:
  "after_sockets [] t = t" "after_sockets fds (sys_socket fd t) = after_sockets (fd # fds) t"
  by (auto simp: after_sockets_def sys_socket_def)

lemma sys_socket_after [simp]: "sys_socket fd (after_sockets fds t) = after_sockets (fds @ [fd]) t"
  by (auto simp: after_sockets_def sys_socket_def)

text \<open>Each option is set on its own: operations on different options or sockets commute.\<close>

lemma setsockopt_commute:
  "(fd, opt) \<noteq> (fd', opt') \<Longrightarrow>
   sys_setsockopt fd opt v (sys_setsockopt fd' opt' v' t) = sys_setsockopt fd' opt' v' (sys_setsockopt fd opt v t)"
  by (auto simp: sys_setsockopt_def fun_upd_twist)

end
