(* ===== verification/TcpConnection.thy ===== *)
theory TcpConnection
  imports EventLoop InetAddress Socket
begin

text \<open>
  \<open>TcpConnection.cpp\<close>: the connection state machine, the output buffer and its
  flushing, shutdown and teardown. The world of theory EventLoop is extended with the live
  connection objects and the part of the kernel that connections use. Callbacks and functors
  are the \<open>std::bind\<close> expressions of the code, as data.

  Ownership is explicit: \<open>tc_refs\<close> is the use count of the shared pointer, \<open>pinned\<close>
  the temporary made by \<open>shared_from_this()\<close> around a call, and the object is destroyed,
  with its channel and its socket, when the count reaches zero.
\<close>

section \<open>Callbacks, functors and the kernel\<close>

type_synonym conn_id = nat

datatype callback =
    Cb_EventLoop_handleRead loop_id
  | Cb_TcpConnection_handleRead conn_id
  | Cb_TcpConnection_handleWrite conn_id
  | Cb_TcpConnection_handleClose conn_id
  | Cb_TcpConnection_handleError conn_id
  | Cb_Acceptor_handleRead
  | Cb_Connector_handleWrite
  | Cb_Connector_handleError

text \<open>A C string argument is the memory block from the pointer to the end of its allocation.\<close>

type_synonym char_ptr = "byte list"

datatype loop_functor =
    Fn_connectEstablished conn_id
  | Fn_connectDestroyed conn_id
  | Fn_shutdownInLoop conn_id
  | Fn_sendInLoop conn_id "byte list"
  | Fn_sendInLoopChar conn_id char_ptr nat
  | Fn_TcpServer_removeConnectionInLoop conn_id
  | Fn_Acceptor_listen
  | Fn_Connector_startInLoop
  | Fn_Connector_stopInLoop
  | Fn_Connector_resetChannel

text \<open>The callbacks a connection's owner installs.\<close>

datatype conn_callback =
    defaultConnectionCallback
  | defaultMessageCallback
  | Cb_TcpServer_removeConnection
  | Cb_TcpClient_removeConnection
  | Cb_RPC_Server_onMessage
  | Cb_RPC_Client_onConnection
  | Cb_RPC_Client_onMessage
  | Cb_user nat

datatype conn_state = kConnecting | kConnected | kDisconnecting | kDisconnected

record tcp_connection =
  tc_loop :: loop_id
  tc_state :: conn_state
  tc_socket :: int
  tc_channel :: chan_id
  tc_localAddr :: sockaddr_in
  tc_peerAddr :: sockaddr_in
  tc_connectionCallback :: "conn_callback option"
  tc_messageCallback :: "conn_callback option"
  tc_closeCallback :: "conn_callback option"
  tc_name :: string
  tc_outputBuffer :: "byte list"
  tc_refs :: nat

text \<open>
  The kernel as an environment: \<open>k_room\<close> gives, for each successive \<open>write(2)\<close>, the
  room in the socket's send queue (negative: the call fails), \<open>k_reads\<close> what each
  successive \<open>read(2)\<close> of a connection finds (\<open>None\<close>: an error, no bytes: end of
  stream); \<open>k_wire\<close> is what every descriptor has accepted so far, \<open>k_shut\<close> and
  \<open>k_closed\<close> log \<open>shutdown(SHUT_WR)\<close> and \<open>close\<close>, and \<open>k_socks\<close> has the flags and options of
  the descriptors.
\<close>

record net = "(callback, loop_functor) world" +
  n_conns :: "conn_id \<rightharpoonup> tcp_connection"
  k_room :: "int stream"
  k_reads :: "byte list option stream"
  k_wire :: "int \<Rightarrow> byte list"
  k_shut :: "int list"
  k_closed :: "int list"
  k_socks :: sock_table

type_synonym 'z net_stmt = "'z net_scheme stmt"

type_synonym 'z exec_fn = "loop_functor \<Rightarrow> 'z net_stmt"
type_synonym 'z call_fn = "conn_callback \<Rightarrow> conn_id \<Rightarrow> byte list \<Rightarrow> 'z net_stmt"

text \<open>
  \<open>write(2)\<close> accepts as many bytes as there is room for and returns that number, or
  \<open>-1\<close>; the continuation gets the result. \<open>read(2)\<close> returns at most the buffer size.
\<close>

definition sys_write :: "int \<Rightarrow> byte list \<Rightarrow> (int \<Rightarrow> 'z net_stmt) \<Rightarrow> 'z net_stmt" where
  "sys_write fd bs k w =
     (let room = shd (k_room w); w1 = w\<lparr>k_room := stl (k_room w)\<rparr>
      in if room < 0 then k (-1) w1
         else let n = min (nat room) (length bs)
              in k (int n) (w1\<lparr>k_wire := (k_wire w)(fd := k_wire w fd @ take n bs)\<rparr>))"

definition sys_read :: "int \<Rightarrow> nat \<Rightarrow> (byte list option \<Rightarrow> 'z net_stmt) \<Rightarrow> 'z net_stmt" where
  "sys_read fd count k w =
     k (map_option (take count) (shd (k_reads w))) (w\<lparr>k_reads := stl (k_reads w)\<rparr>)"

section \<open>Connection objects and shared ownership\<close>

definition with_conn :: "conn_id \<Rightarrow> (tcp_connection \<Rightarrow> 'z net_stmt) \<Rightarrow> 'z net_stmt" where
  "with_conn c s w = (case n_conns w c of None \<Rightarrow> Fault UseAfterFree | Some k \<Rightarrow> s k w)"

definition upd_conn :: "conn_id \<Rightarrow> (tcp_connection \<Rightarrow> tcp_connection) \<Rightarrow> 'z net_stmt" where
  "upd_conn c g = with_conn c (\<lambda>k w. Ok (w\<lparr>n_conns := (n_conns w)(c \<mapsto> g k)\<rparr>))"

definition TcpConnection_setState :: "conn_id \<Rightarrow> conn_state \<Rightarrow> 'z net_stmt" where
  "TcpConnection_setState c s = upd_conn c (\<lambda>k. k\<lparr>tc_state := s\<rparr>)"

definition TcpConnection_connected :: "tcp_connection \<Rightarrow> bool" where
  "TcpConnection_connected k \<longleftrightarrow> tc_state k = kConnected"

text \<open>\<open>~Socket\<close> closes the descriptor; the members are destroyed in reverse order.\<close>

definition Socket_destroy :: "int \<Rightarrow> 'z net_stmt" where
  "Socket_destroy fd = modify (\<lambda>w. w\<lparr>k_closed := k_closed w @ [fd]\<rparr>)"

definition TcpConnection_destroy :: "conn_id \<Rightarrow> 'z net_stmt" where
  "TcpConnection_destroy c = with_conn c (\<lambda>k. block
     [Channel_destroy (tc_channel k),
      Socket_destroy (tc_socket k),
      modify (\<lambda>w. w\<lparr>n_conns := (n_conns w)(c := None)\<rparr>)])"

definition conn_ref :: "conn_id \<Rightarrow> 'z net_stmt" where
  "conn_ref c = upd_conn c (\<lambda>k. k\<lparr>tc_refs := Suc (tc_refs k)\<rparr>)"

definition conn_unref :: "conn_id \<Rightarrow> 'z net_stmt" where
  "conn_unref c = block
     [upd_conn c (\<lambda>k. k\<lparr>tc_refs := tc_refs k - 1\<rparr>),
      with_conn c (\<lambda>k. if tc_refs k = 0 then TcpConnection_destroy c else skip)]"

definition pinned :: "conn_id \<Rightarrow> 'z net_stmt \<Rightarrow> 'z net_stmt" where
  "pinned c s = block [conn_ref c, s, conn_unref c]"

text \<open>
  \<open>runInLoop\<close> of a functor bound to a connection: the bound functor holds a reference
  while it runs in place, and its copy in the queue holds one until the batch is released.
\<close>

definition run_bound :: "'z exec_fn \<Rightarrow> loop_id \<Rightarrow> conn_id \<Rightarrow> loop_functor \<Rightarrow> 'z net_stmt" where
  "run_bound exec l c f w =
     (if EventLoop_isInLoopThread l w then pinned c (exec f) w
      else block [conn_ref c, EventLoop_runInLoop exec l f] w)"

definition functor_conn :: "loop_functor \<Rightarrow> conn_id option" where
  "functor_conn f = (case f of
       Fn_connectEstablished c \<Rightarrow> Some c
     | Fn_connectDestroyed c \<Rightarrow> Some c
     | Fn_shutdownInLoop c \<Rightarrow> Some c
     | Fn_sendInLoop c _ \<Rightarrow> Some c
     | Fn_sendInLoopChar c _ _ \<Rightarrow> Some c
     | Fn_TcpServer_removeConnectionInLoop c \<Rightarrow> Some c
     | _ \<Rightarrow> None)"

definition release_functor :: "loop_functor \<Rightarrow> 'z net_stmt" where
  "release_functor f = (case functor_conn f of None \<Rightarrow> skip | Some c \<Rightarrow> conn_unref c)"

text \<open>A call of an empty \<open>std::function\<close> throws \<open>bad_function_call\<close>.\<close>

definition call_opt :: "'z call_fn \<Rightarrow> conn_callback option \<Rightarrow> conn_id \<Rightarrow> byte list \<Rightarrow> 'z net_stmt" where
  "call_opt call cb c buf = (case cb of
       None \<Rightarrow> (\<lambda>w. Fault UncaughtException)
     | Some f \<Rightarrow> call f c buf)"

section \<open>Operations\<close>

text \<open>
  The constructor: \<open>c\<close> and \<open>chan\<close> are the addresses of the connection and its channel;
  the creator holds the first reference.
\<close>

definition TcpConnection_new :: "conn_id \<Rightarrow> chan_id \<Rightarrow> loop_id \<Rightarrow> int \<Rightarrow> sockaddr_in \<Rightarrow> sockaddr_in \<Rightarrow>
    string \<Rightarrow> 'z net_stmt" where
  "TcpConnection_new c chan loop sockfd localAddr peerAddr name = modify (\<lambda>w. w\<lparr>
     w_heap := (w_heap w)(chan \<mapsto> 
       Channel_setErrorCallback (Cb_TcpConnection_handleError c)
         (Channel_setWriteCallback (Cb_TcpConnection_handleWrite c)
           (Channel_setCloseCallback (Cb_TcpConnection_handleClose c)
             (Channel_setReadCallback (Cb_TcpConnection_handleRead c) (Channel_new loop sockfd))))),
     n_conns := (n_conns w)(c \<mapsto>
       \<lparr>tc_loop = loop, tc_state = kConnecting, tc_socket = sockfd, tc_channel = chan,
        tc_localAddr = localAddr, tc_peerAddr = peerAddr, tc_connectionCallback = None,
        tc_messageCallback = None, tc_closeCallback = None, tc_name = name,
        tc_outputBuffer = [], tc_refs = 1\<rparr>)\<rparr>)"

definition TcpConnection_setConnectionCallback :: "conn_callback \<Rightarrow> tcp_connection \<Rightarrow> tcp_connection" where
  [simp]: "TcpConnection_setConnectionCallback cb k = k\<lparr>tc_connectionCallback := Some cb\<rparr>"

definition TcpConnection_setMessageCallback :: "conn_callback \<Rightarrow> tcp_connection \<Rightarrow> tcp_connection" where
  [simp]: "TcpConnection_setMessageCallback cb k = k\<lparr>tc_messageCallback := Some cb\<rparr>"

definition TcpConnection_setCloseCallback :: "conn_callback \<Rightarrow> tcp_connection \<Rightarrow> tcp_connection" where
  [simp]: "TcpConnection_setCloseCallback cb k = k\<lparr>tc_closeCallback := Some cb\<rparr>"

definition conn_assertInLoopThread :: "conn_id \<Rightarrow> 'z net_stmt" where
  "conn_assertInLoopThread c = with_conn c (\<lambda>k. EventLoop_assertInLoopThread (tc_loop k))"

definition conn_is_writing :: "tcp_connection \<Rightarrow> 'z net_scheme \<Rightarrow> bool" where
  "conn_is_writing k w = (case w_heap w (tc_channel k) of None \<Rightarrow> False | Some ch \<Rightarrow> Channel_isWriting ch)"

definition TcpConnection_handleError :: "conn_id \<Rightarrow> 'z net_stmt" where
  "TcpConnection_handleError c = with_conn c (\<lambda>k. skip)"

definition TcpConnection_handleClose :: "'z call_fn \<Rightarrow> conn_id \<Rightarrow> 'z net_stmt" where
  "TcpConnection_handleClose call c = block
     [conn_assertInLoopThread c,
      with_conn c (\<lambda>k. assertion (\<lambda>w. tc_state k = kConnected \<or> tc_state k = kDisconnecting)),
      with_conn c (\<lambda>k. Channel_disableAll (tc_channel k)),
      TcpConnection_setState c kDisconnected,
      with_conn c (\<lambda>k. pinned c (call_opt call (tc_closeCallback k) c []))]"

definition read_buffer_size :: nat where
  "read_buffer_size = 65536"

definition TcpConnection_handleRead :: "'z call_fn \<Rightarrow> conn_id \<Rightarrow> 'z net_stmt" where
  "TcpConnection_handleRead call c = with_conn c (\<lambda>k. with_chan (tc_channel k) (\<lambda>ch.
     sys_read (ch_fd ch) read_buffer_size (\<lambda>r.
       case r of
         Some buf \<Rightarrow>
           if buf \<noteq> [] then
             (case tc_messageCallback k of
                None \<Rightarrow> skip
              | Some cb \<Rightarrow> pinned c (call cb c buf))
           else TcpConnection_handleClose call c
       | None \<Rightarrow> TcpConnection_handleError c)))"

definition Socket_shutdownWrite :: "int \<Rightarrow> 'z net_stmt" where
  "Socket_shutdownWrite sockfd = modify (\<lambda>w. w\<lparr>k_shut := k_shut w @ [sockfd]\<rparr>)"

definition TcpConnection_shutdownInLoop :: "conn_id \<Rightarrow> 'z net_stmt" where
  "TcpConnection_shutdownInLoop c = block
     [conn_assertInLoopThread c,
      with_conn c (\<lambda>k. with_chan (tc_channel k) (\<lambda>ch.
        if \<not> Channel_isWriting ch
        then Socket_shutdownWrite (tc_socket k) else skip))]"

definition TcpConnection_shutdown :: "'z exec_fn \<Rightarrow> conn_id \<Rightarrow> 'z net_stmt" where
  "TcpConnection_shutdown exec c = with_conn c (\<lambda>k.
     if tc_state k = kConnected
     then block [TcpConnection_setState c kDisconnecting,
                 run_bound exec (tc_loop k) c (Fn_shutdownInLoop c)]
     else skip)"

definition TcpConnection_handleWrite :: "conn_id \<Rightarrow> 'z net_stmt" where
  "TcpConnection_handleWrite c = block
     [conn_assertInLoopThread c,
      with_conn c (\<lambda>k. with_chan (tc_channel k) (\<lambda>ch.
        if Channel_isWriting ch \<and> tc_outputBuffer k \<noteq> [] then
          sys_write (ch_fd ch) (tc_outputBuffer k) (\<lambda>n.
            if 0 < n then block
              [upd_conn c (\<lambda>k. k\<lparr>tc_outputBuffer := drop (nat n) (tc_outputBuffer k)\<rparr>),
               with_conn c (\<lambda>k.
                 if tc_outputBuffer k = [] then block
                   [Channel_disableWriting (tc_channel k),
                    if_then (\<lambda>w. tc_state k = kDisconnecting) (TcpConnection_shutdownInLoop c)]
                 else skip)]
            else skip)
        else skip))]"

definition queue_rest :: "conn_id \<Rightarrow> byte list \<Rightarrow> 'z net_stmt" where
  "queue_rest c rest = block
     [upd_conn c (\<lambda>k. k\<lparr>tc_outputBuffer := tc_outputBuffer k @ rest\<rparr>),
      with_conn c (\<lambda>k. with_chan (tc_channel k) (\<lambda>ch.
        if \<not> Channel_isWriting ch then Channel_enableWriting (tc_channel k) else skip))]"

text \<open>
  The direct write of the first \<open>len\<close> bytes of a block: skipped when output is pending; a
  failed write counts as 0 bytes.
\<close>

definition try_write :: "conn_id \<Rightarrow> char_ptr \<Rightarrow> nat \<Rightarrow> (nat \<Rightarrow> 'z net_stmt) \<Rightarrow> 'z net_stmt" where
  "try_write c p len rest = with_conn c (\<lambda>k. with_chan (tc_channel k) (\<lambda>ch.
     if \<not> Channel_isWriting ch \<and> tc_outputBuffer k = []
     then (if len \<le> length p
           then sys_write (ch_fd ch) (take len p) (\<lambda>n. rest (if n < 0 then 0 else nat n))
           else (\<lambda>w. Fault UndefinedBehaviour))
     else rest 0))"

definition TcpConnection_sendInLoop :: "conn_id \<Rightarrow> byte list \<Rightarrow> 'z net_stmt" where
  "TcpConnection_sendInLoop c message = block
     [conn_assertInLoopThread c,
      try_write c message (length message) (\<lambda>bytes_wrote.
        if bytes_wrote < length message then queue_rest c (drop bytes_wrote message) else skip)]"

text \<open>
  \<open>std::string new_message(message)\<close> copies up to the first zero byte; without one in the
  block it reads past the allocation, and so does a \<open>write\<close> longer than the block.
\<close>

definition c_string :: "char_ptr \<Rightarrow> byte list option" where
  "c_string p = (if 0 \<in> set p then Some (takeWhile (\<lambda>b. b \<noteq> 0) p) else None)"

definition TcpConnection_sendInLoopChar :: "conn_id \<Rightarrow> char_ptr \<Rightarrow> nat \<Rightarrow> 'z net_stmt" where
  "TcpConnection_sendInLoopChar c message len = block
     [conn_assertInLoopThread c,
      try_write c message len (\<lambda>bytes_wrote.
        if bytes_wrote < len then
          (case c_string message of
             None \<Rightarrow> (\<lambda>w. Fault UndefinedBehaviour)
           | Some new_message \<Rightarrow>
               if bytes_wrote \<le> length new_message
               then queue_rest c (drop bytes_wrote new_message)
               else (\<lambda>w. Fault UndefinedBehaviour))
        else skip)]"

definition TcpConnection_send :: "'z exec_fn \<Rightarrow> conn_id \<Rightarrow> byte list \<Rightarrow> 'z net_stmt" where
  "TcpConnection_send exec c message = with_conn c (\<lambda>k.
     if tc_state k = kConnected
     then (\<lambda>w. if EventLoop_isInLoopThread (tc_loop k) w
               then TcpConnection_sendInLoop c message w
               else run_bound exec (tc_loop k) c (Fn_sendInLoop c message) w)
     else skip)"

definition TcpConnection_sendChar :: "'z exec_fn \<Rightarrow> conn_id \<Rightarrow> char_ptr \<Rightarrow> nat \<Rightarrow> 'z net_stmt" where
  "TcpConnection_sendChar exec c message len = with_conn c (\<lambda>k.
     if tc_state k = kConnected
     then (\<lambda>w. if EventLoop_isInLoopThread (tc_loop k) w
               then TcpConnection_sendInLoopChar c message len w
               else run_bound exec (tc_loop k) c (Fn_sendInLoopChar c message len) w)
     else skip)"

definition TcpConnection_connectEstablished :: "'z call_fn \<Rightarrow> conn_id \<Rightarrow> 'z net_stmt" where
  "TcpConnection_connectEstablished call c = block
     [conn_assertInLoopThread c,
      with_conn c (\<lambda>k. assertion (\<lambda>w. tc_state k = kConnecting)),
      TcpConnection_setState c kConnected,
      with_conn c (\<lambda>k. Channel_enableReading (tc_channel k)),
      with_conn c (\<lambda>k. pinned c (call_opt call (tc_connectionCallback k) c []))]"

definition TcpConnection_connectDestroyed :: "'z call_fn \<Rightarrow> conn_id \<Rightarrow> 'z net_stmt" where
  "TcpConnection_connectDestroyed call c = block
     [conn_assertInLoopThread c,
      with_conn c (\<lambda>k.
        if tc_state k = kConnected \<or> tc_state k = kDisconnecting then block
          [TcpConnection_setState c kDisconnected,
           Channel_disableAll (tc_channel k),
           pinned c (call_opt call (tc_closeCallback k) c [])]
        else skip),
      with_conn c (\<lambda>k. Channel_remove (tc_channel k))]"

definition TcpConnection_setTcpNoDelay :: "conn_id \<Rightarrow> bool \<Rightarrow> 'z net_stmt" where
  "TcpConnection_setTcpNoDelay c on =
     with_conn c (\<lambda>k. modify (\<lambda>w. w\<lparr>k_socks := Socket_setTcpNoDelay (tc_socket k) on (k_socks w)\<rparr>))"

definition TcpConnection_setTcpKeepAlive :: "conn_id \<Rightarrow> bool \<Rightarrow> 'z net_stmt" where
  "TcpConnection_setTcpKeepAlive c on =
     with_conn c (\<lambda>k. modify (\<lambda>w. w\<lparr>k_socks := Socket_setTcpKeepAlive (tc_socket k) on (k_socks w)\<rparr>))"

lemmas conn_access = with_conn_def upd_conn_def

section \<open>Attached connections\<close>

text \<open>
  \<open>attached\<close>: the current thread runs the connection's loop, whose poller \<open>p\<close> has the
  connection's channel registered, on the connection's own descriptor. \<open>established\<close> adds
  the discipline of the output path: the channel asks for write events exactly while output
  is pending.
\<close>

definition attached :: "conn_id \<Rightarrow> 'z net_scheme \<Rightarrow> poller \<Rightarrow> tcp_connection \<Rightarrow> callback channel \<Rightarrow> bool" where
  "attached c w p k ch \<longleftrightarrow> n_conns w c = Some k \<and> serves (tc_loop k) w p \<and>
     own_channel (tc_loop k) w p (tc_channel k) ch \<and> ch_fd ch = tc_socket k \<and>
     tc_channel k \<in> registered (p, w_heap w)"

definition established :: "conn_id \<Rightarrow> 'z net_scheme \<Rightarrow> poller \<Rightarrow> tcp_connection \<Rightarrow> callback channel \<Rightarrow> bool" where
  "established c w p k ch \<longleftrightarrow> attached c w p k ch \<and> (Channel_isWriting ch \<longleftrightarrow> tc_outputBuffer k \<noteq> [])"

text \<open>The bytes the peer will see: those the kernel accepted, then the pending output.\<close>

definition out_stream :: "conn_id \<Rightarrow> 'z net_scheme \<Rightarrow> byte list" where
  "out_stream c w = (case n_conns w c of None \<Rightarrow> [] | Some k \<Rightarrow> k_wire w (tc_socket k) @ tc_outputBuffer k)"

text \<open>Everything of the world but the store of channels and the loops is the same.\<close>

definition same_net :: "'z net_scheme \<Rightarrow> 'z net_scheme \<Rightarrow> bool" where
  "same_net w w' \<longleftrightarrow> w' = w\<lparr>w_heap := w_heap w', w_loops := w_loops w'\<rparr>"

lemma same_netD:
  assumes "same_net w w'"
  shows "n_conns w' = n_conns w" "k_room w' = k_room w" "k_reads w' = k_reads w" "k_wire w' = k_wire w"
    "k_shut w' = k_shut w" "k_closed w' = k_closed w" "w_thread w' = w_thread w" "net.more w' = net.more w"
  by (subst assms [unfolded same_net_def], simp)+

lemma attachedD:
  assumes "attached c w p k ch"
  shows "n_conns w c = Some k" "serves (tc_loop k) w p" "own_channel (tc_loop k) w p (tc_channel k) ch"
    "ch_fd ch = tc_socket k" "w_heap w (tc_channel k) = Some ch" "tc_channel k \<in> registered (p, w_heap w)"
  using assms unfolding attached_def own_channel_def by blast+

lemma attached_in_loop:
  assumes "attached c w p k ch"
  shows "EventLoop_isInLoopThread (tc_loop k) w" "conn_assertInLoopThread c w = Ok w"
  using assms by (auto simp: attached_def serves_def EventLoop_isInLoopThread_def
      conn_assertInLoopThread_def EventLoop_assertInLoopThread_def conn_access loop_access check_def)

text \<open>What \<open>attached\<close> looks at of a loop.\<close>

definition loop_view :: "loop_id \<Rightarrow> 'z net_scheme \<Rightarrow> (nat \<times> poller option) option" where
  "loop_view l w = map_option (\<lambda>el. (el_threadId el, el_poller el)) (w_loops w l)"

lemma attached_kernel:
  assumes at: "attached c w p k ch" and same: "n_conns w' = n_conns w" "w_thread w' = w_thread w"
    "w_heap w' = w_heap w" "loop_view (tc_loop k) w' = loop_view (tc_loop k) w"
  shows "attached c w' p k ch"
proof -
  obtain el where "w_loops w (tc_loop k) = Some el" "el_threadId el = w_thread w" "el_poller el = Some p"
    using at by (auto simp: attached_def serves_def)
  then obtain el' where "w_loops w' (tc_loop k) = Some el'" "el_threadId el' = w_thread w" "el_poller el' = Some p"
    using same(4) by (auto simp: loop_view_def)
  with at same show ?thesis
    by (simp add: attached_def serves_def own_channel_def del: registered.simps updatable.simps)
qed

lemma loop_view_same [simp]: "w_loops w' l = w_loops w l \<Longrightarrow> (loop_view l w' = loop_view l w) = True"
  by (simp add: loop_view_def)

lemma attached_chan_field:
  assumes at: "attached c w p k ch"
    and x: "ch_loop x = ch_loop ch" "ch_fd x = ch_fd ch" "ch_index x = ch_index ch"
  shows "attached c (w\<lparr>w_heap := (w_heap w)(tc_channel k \<mapsto> x)\<rparr>) p k x"
proof -
  note d = attachedD [OF at]
  have "poller_ok (p, (w_heap w)(tc_channel k \<mapsto> x))"
    by (rule poller_ok_chan_field [where ch = ch]) (use d x in \<open>auto simp: serves_def\<close>)
  then show ?thesis
    using d x updatable_chan_field [of "w_heap w" "tc_channel k" ch x p "tc_channel k"]
      registered_chan_field [of "w_heap w" "tc_channel k" ch x p]
    by (auto simp: attached_def serves_def own_channel_def simp del: registered.simps updatable.simps)
qed

lemma attached_upd_conn:
  assumes at: "attached c w p k ch"
    and g: "tc_loop (g k) = tc_loop k" "tc_channel (g k) = tc_channel k" "tc_socket (g k) = tc_socket k"
  shows "upd_conn c g w = Ok (w\<lparr>n_conns := (n_conns w)(c \<mapsto> g k)\<rparr>)"
    "attached c (w\<lparr>n_conns := (n_conns w)(c \<mapsto> g k)\<rparr>) p (g k) ch"
  using at g by (auto simp: attached_def conn_access serves_def own_channel_def
      simp del: registered.simps updatable.simps)

lemma attached_change:
  assumes at: "attached c w p k ch"
  obtains w' p' i where "Channel_change (tc_channel k) g w = Ok w'"
    "attached c w' p' k (ch\<lparr>ch_events := g (ch_events ch), ch_index := i, ch_addedToLoop := True\<rparr>)"
    "same_net w w'" "\<And>d. d \<noteq> tc_channel k \<Longrightarrow> w_heap w' d = w_heap w d"
    "registered (p', w_heap w') = registered (p, w_heap w)"
    "\<And>el. w_loops w (tc_loop k) = Some el \<Longrightarrow> w_loops w' (tc_loop k) = Some (el\<lparr>el_poller := Some p'\<rparr>)"
    "\<And>l. l \<noteq> tc_loop k \<Longrightarrow> w_loops w' l = w_loops w l"
proof -
  show thesis
  proof (rule change_ok [OF attachedD(2,3) [OF at], of g], goal_cases)
  case (1 w' p' i)
  have sn: "same_net w w'" unfolding same_net_def by (rule 1(7))
  have reg: "registered (p', w_heap w') = registered (p, w_heap w)"
    using 1(4) attachedD(6) [OF at] by (simp add: insert_absorb del: registered.simps)
  show thesis
  proof (rule that [of w' p' i, OF 1(1) _ sn 1(9) reg 1(10,8)])
    show "attached c w' p' k (ch\<lparr>ch_events := g (ch_events ch), ch_index := i, ch_addedToLoop := True\<rparr>)"
      using 1(2,3) attachedD [OF at] reg same_netD(1) [OF sn]
      by (simp add: attached_def del: registered.simps)
  qed
  qed
qed

section \<open>Writing\<close>

definition accepted :: "'z net_scheme \<Rightarrow> byte list \<Rightarrow> nat" where
  "accepted w bs = (if shd (k_room w) < 0 then 0 else min (nat (shd (k_room w))) (length bs))"

definition after_write :: "int \<Rightarrow> byte list \<Rightarrow> 'z net_scheme \<Rightarrow> 'z net_scheme" where
  "after_write fd bs w = w\<lparr>k_room := stl (k_room w),
     k_wire := (k_wire w)(fd := k_wire w fd @ take (accepted w bs) bs)\<rparr>"

lemma accepted_le: "accepted w bs \<le> length bs"
  by (simp add: accepted_def)

lemma sys_write_eq:
  "sys_write fd bs cont w = cont (if shd (k_room w) < 0 then -1 else int (accepted w bs)) (after_write fd bs w)"
  by (auto simp: sys_write_def accepted_def after_write_def Let_def)

lemma after_write_simps [simp]:
  "n_conns (after_write fd bs w) = n_conns w" "w_thread (after_write fd bs w) = w_thread w"
  "w_heap (after_write fd bs w) = w_heap w" "w_loops (after_write fd bs w) = w_loops w"
  "k_wire (after_write fd bs w) fd = k_wire w fd @ take (accepted w bs) bs"
  "fd' \<noteq> fd \<Longrightarrow> k_wire (after_write fd bs w) fd' = k_wire w fd'"
  "k_shut (after_write fd bs w) = k_shut w" "k_closed (after_write fd bs w) = k_closed w"
  "k_reads (after_write fd bs w) = k_reads w" "net.more (after_write fd bs w) = net.more w"
  by (simp_all add: after_write_def)

lemma attached_after_write: "attached c w p k ch \<Longrightarrow> attached c (after_write fd bs w) p k ch"
  by (erule attached_kernel) simp_all

lemma try_write_idle:
  assumes "attached c w p k ch" "\<not> Channel_isWriting ch" "tc_outputBuffer k = []" "len \<le> length ptr"
  shows "try_write c ptr len rest w =
           rest (accepted w (take len ptr)) (after_write (tc_socket k) (take len ptr) w)"
  using assms attachedD [OF assms(1)]
  by (simp add: try_write_def conn_access loop_access sys_write_eq)
     (auto simp: accepted_def)

lemma try_write_busy:
  assumes "attached c w p k ch" "Channel_isWriting ch \<or> tc_outputBuffer k \<noteq> []"
  shows "try_write c ptr len rest w = rest 0 w"
  using assms attachedD [OF assms(1)] by (auto simp: try_write_def conn_access loop_access)

text \<open>Queueing the rest of a message turns write interest on.\<close>

lemma queue_rest_ok:
  assumes at: "attached c w p k ch" and rest: "rest \<noteq> []"
  obtains w' p' ch' where "queue_rest c rest w = Ok w'"
    "established c w' p' (k\<lparr>tc_outputBuffer := tc_outputBuffer k @ rest\<rparr>) ch'"
    "n_conns w' = (n_conns w)(c \<mapsto> k\<lparr>tc_outputBuffer := tc_outputBuffer k @ rest\<rparr>)"
    "k_wire w' = k_wire w" "k_room w' = k_room w" "k_shut w' = k_shut w" "w_thread w' = w_thread w" "net.more w' = net.more w"
proof -
  let ?g = "\<lambda>k. k\<lparr>tc_outputBuffer := tc_outputBuffer k @ rest\<rparr>"
  let ?w1 = "w\<lparr>n_conns := (n_conns w)(c \<mapsto> ?g k)\<rparr>"
  have 1: "upd_conn c ?g w = Ok ?w1" "attached c ?w1 p (?g k) ch"
    by (rule attached_upd_conn [OF at], simp_all)+
  note d1 = attachedD [OF 1(2)]
  show thesis
  proof (cases "Channel_isWriting ch")
    case True
    then have "queue_rest c rest w = Ok ?w1"
      using 1(1) d1 by (simp add: queue_rest_def conn_access loop_access skip_def)
    moreover have "established c ?w1 p (?g k) ch"
      using 1(2) True rest by (simp add: established_def)
    ultimately show thesis by (rule that) simp_all
  next
    case False
    show thesis
    proof (rule attached_change [OF 1(2), of "\<lambda>e. e OR kWriteEvent"], goal_cases)
      case (1 w' p' i)
      have "queue_rest c rest w = Ok w'"
        using attached_upd_conn(1) [OF at, of ?g] d1 False 1(1)
        by (simp add: queue_rest_def conn_access loop_access Channel_enableWriting_def)
      moreover have "established c w' p' (?g k)
          (ch\<lparr>ch_events := ch_events ch OR kWriteEvent, ch_index := i, ch_addedToLoop := True\<rparr>)"
        using 1(2) rest by (simp add: established_def Channel_isWriting_def and_or_kWriteEvent)
      ultimately show thesis
        by (rule that) (simp_all add: same_netD [OF 1(3)])
    qed
  qed
qed

text \<open>A block that fits is written at once.\<close>

lemma sendInLoopChar_fits:
  assumes es: "established c w p k ch" and out: "tc_outputBuffer k = []" and fits: "accepted w msg = length msg"
  shows "TcpConnection_sendInLoopChar c msg (length msg) w = Ok (after_write (tc_socket k) msg w)"
    "established c (after_write (tc_socket k) msg w) p k ch"
    "out_stream c (after_write (tc_socket k) msg w) = out_stream c w @ msg"
proof -
  have at: "attached c w p k ch" and idle: "\<not> Channel_isWriting ch"
    using es out by (auto simp: established_def)
  show "TcpConnection_sendInLoopChar c msg (length msg) w = Ok (after_write (tc_socket k) msg w)"
    using try_write_idle [OF at idle out, of "length msg" msg] attached_in_loop(2) [OF at] fits
    by (simp add: TcpConnection_sendInLoopChar_def skip_def split: sum.splits)
  show "established c (after_write (tc_socket k) msg w) p k ch"
    using attached_after_write [OF at, of "tc_socket k" msg] es by (simp add: established_def)
  show "out_stream c (after_write (tc_socket k) msg w) = out_stream c w @ msg"
    using attachedD(1) [OF at] out fits by (simp add: out_stream_def)
qed

lemma sendInLoop_ok:
  assumes es: "established c w p k ch"
  obtains w' p' k' ch' where "TcpConnection_sendInLoop c msg w = Ok w'" "established c w' p' k' ch'"
    "out_stream c w' = out_stream c w @ msg" "k' = k\<lparr>tc_outputBuffer := tc_outputBuffer k'\<rparr>"
    "n_conns w' = (n_conns w)(c \<mapsto> k')" "\<And>fd. fd \<noteq> tc_socket k \<Longrightarrow> k_wire w' fd = k_wire w fd"
    "w_thread w' = w_thread w" "net.more w' = net.more w"
proof -
  have at: "attached c w p k ch" and wr: "Channel_isWriting ch \<longleftrightarrow> tc_outputBuffer k \<noteq> []"
    using es by (auto simp: established_def)
  note d = attachedD [OF at]
  show thesis
  proof (cases "tc_outputBuffer k = []")
    case True
    let ?n = "accepted w msg" and ?w1 = "after_write (tc_socket k) msg w"
    have at1: "attached c ?w1 p k ch" by (rule attached_after_write [OF at])
    have tw: "TcpConnection_sendInLoop c msg w =
        (if ?n < length msg then queue_rest c (drop ?n msg) ?w1 else Ok ?w1)"
      using True wr attached_in_loop(2) [OF at] try_write_idle [OF at, of "length msg" msg]
      by (simp add: TcpConnection_sendInLoop_def skip_def split: sum.splits)
    show thesis
    proof (cases "?n < length msg")
      case False
      then have n: "take ?n msg = msg" using accepted_le [of w msg] by simp
      show thesis
      proof (rule that)
        show "TcpConnection_sendInLoop c msg w = Ok ?w1" using tw False by simp
        show "established c ?w1 p k ch" using at1 True wr by (simp add: established_def)
      qed (use d n True in \<open>auto simp: out_stream_def\<close>)
    next
      case lt: True
      then have "drop ?n msg \<noteq> []" by simp
      then show thesis
      proof (rule queue_rest_ok [OF at1], goal_cases)
        case (1 w' p' ch')
        show thesis
        proof (rule that)
          show "TcpConnection_sendInLoop c msg w = Ok w'" using tw lt 1(1) by simp
          show "established c w' p' (k\<lparr>tc_outputBuffer := tc_outputBuffer k @ drop ?n msg\<rparr>) ch'" by (rule 1(2))
        qed (use d True 1(3-) in \<open>auto simp: out_stream_def\<close>)
      qed
    qed
  next
    case False
    have tw: "TcpConnection_sendInLoop c msg w = (if 0 < length msg then queue_rest c msg w else Ok w)"
      using False wr attached_in_loop(2) [OF at] try_write_busy [OF at, of msg "length msg"]
      by (simp add: TcpConnection_sendInLoop_def skip_def split: sum.splits)
    show thesis
    proof (cases "msg = []")
      case True
      show thesis
        by (rule that) (use tw True es d in \<open>auto simp: out_stream_def\<close>)
    next
      case ne: False
      then show thesis
      proof (rule queue_rest_ok [OF at], goal_cases)
        case (1 w' p' ch')
        show thesis
        proof (rule that)
          show "TcpConnection_sendInLoop c msg w = Ok w'" using tw ne 1(1) by simp
          show "established c w' p' (k\<lparr>tc_outputBuffer := tc_outputBuffer k @ msg\<rparr>) ch'" by (rule 1(2))
        qed (use d 1(3-) in \<open>auto simp: out_stream_def\<close>)
      qed
    qed
  qed
qed

section \<open>Flushing\<close>

lemma established_kernel:
  assumes "established c w p k ch" "n_conns w' = n_conns w" "w_thread w' = w_thread w" "w_heap w' = w_heap w"
    "loop_view (tc_loop k) w' = loop_view (tc_loop k) w"
  shows "established c w' p k ch"
  using assms(1) attached_kernel [OF _ assms(2-5)] unfolding established_def by blast

lemma shutdownInLoop_idle:
  assumes "attached c w p k ch" "\<not> Channel_isWriting ch"
  shows "TcpConnection_shutdownInLoop c w = Ok (w\<lparr>k_shut := k_shut w @ [tc_socket k]\<rparr>)"
  using assms attachedD [OF assms(1)] attached_in_loop(2) [OF assms(1)]
  by (simp add: TcpConnection_shutdownInLoop_def Socket_shutdownWrite_def conn_access loop_access modify_def)

lemma shutdownInLoop_busy:
  assumes "attached c w p k ch" "Channel_isWriting ch"
  shows "TcpConnection_shutdownInLoop c w = Ok w"
  using assms attachedD [OF assms(1)] attached_in_loop(2) [OF assms(1)]
  by (simp add: TcpConnection_shutdownInLoop_def conn_access loop_access skip_def)

text \<open>What a flush does to a connection with pending output.\<close>

lemma handleWrite_ok:
  assumes es: "established c w p k ch"
  obtains w' p' ch' where "TcpConnection_handleWrite c w = Ok w'"
    "established c w' p' (k\<lparr>tc_outputBuffer := drop (accepted w (tc_outputBuffer k)) (tc_outputBuffer k)\<rparr>) ch'"
    "out_stream c w' = out_stream c w"
    "k_room w' = (if tc_outputBuffer k = [] then k_room w else stl (k_room w))"
    "k_shut w' = k_shut w @ (if tc_state k = kDisconnecting \<and> tc_outputBuffer k \<noteq> [] \<and>
       accepted w (tc_outputBuffer k) = length (tc_outputBuffer k) then [tc_socket k] else [])"
    "w_thread w' = w_thread w"
proof -
  have at: "attached c w p k ch" and wr: "Channel_isWriting ch \<longleftrightarrow> tc_outputBuffer k \<noteq> []"
    using es by (auto simp: established_def)
  note d = attachedD [OF at]
  let ?out = "tc_outputBuffer k"
  let ?n = "accepted w ?out" and ?w1 = "after_write (tc_socket k) ?out w"
  let ?g = "\<lambda>k. k\<lparr>tc_outputBuffer := drop ?n (tc_outputBuffer k)\<rparr>"
  have at1: "attached c ?w1 p k ch" by (rule attached_after_write [OF at])
  let ?w2 = "?w1\<lparr>n_conns := (n_conns ?w1)(c \<mapsto> ?g k)\<rparr>"
  have upd: "upd_conn c ?g ?w1 = Ok ?w2" by (rule attached_upd_conn(1) [OF at1]) simp_all
  have at2: "attached c ?w2 p (?g k) ch" by (rule attached_upd_conn(2) [OF at1]) simp_all
  show thesis
  proof (cases "?out = []")
    case True
    then have "TcpConnection_handleWrite c w = Ok w"
      using d attached_in_loop(2) [OF at]
      by (simp add: TcpConnection_handleWrite_def conn_access loop_access skip_def)
    moreover have "k\<lparr>tc_outputBuffer := drop ?n ?out\<rparr> = k" using True by simp
    then have "established c w p (k\<lparr>tc_outputBuffer := drop ?n ?out\<rparr>) ch" using es by (simp only:)
    ultimately show thesis by (rule that) (use True in simp_all)
  next
    case ne: False
    have body: "TcpConnection_handleWrite c w =
        (if 0 < ?n then block [upd_conn c ?g, with_conn c (\<lambda>k.
             if tc_outputBuffer k = [] then block
               [Channel_disableWriting (tc_channel k),
                if_then (\<lambda>w. tc_state k = kDisconnecting) (TcpConnection_shutdownInLoop c)]
             else skip)] ?w1
         else Ok ?w1)"
      using ne wr d attached_in_loop(2) [OF at]
      by (simp add: TcpConnection_handleWrite_def conn_access loop_access sys_write_eq skip_def)
         (auto simp: accepted_def split: sum.splits)
    consider (none) "?n = 0" | (part) "0 < ?n" "?n < length ?out" | (all) "0 < ?n" "?n = length ?out"
      using accepted_le [of w ?out] by linarith
    then show thesis
    proof cases
      case none
      then have "established c ?w1 p (k\<lparr>tc_outputBuffer := drop ?n ?out\<rparr>) ch"
        using es established_kernel [OF es, of ?w1] by simp
      with none ne body d show thesis
        by (intro that [of ?w1 p ch]) (auto simp: out_stream_def after_write_def)
    next
      case part
      have "TcpConnection_handleWrite c w = Ok ?w2"
        using body part upd d by (simp add: conn_access skip_def)
      moreover have "established c ?w2 p (k\<lparr>tc_outputBuffer := drop ?n ?out\<rparr>) ch"
        using at2 part wr ne by (simp add: established_def)
      ultimately show thesis
        by (rule that) (use part ne d in \<open>auto simp: out_stream_def after_write_def\<close>)
    next
      case all
      have ob: "tc_outputBuffer (?g k) = []" using all by simp
      show thesis
      proof (rule attached_change [OF at2, of "\<lambda>e. e AND NOT kWriteEvent"], goal_cases)
        case (1 w3 p3 i)
        let ?ch3 = "ch\<lparr>ch_events := ch_events ch AND NOT kWriteEvent, ch_index := i, ch_addedToLoop := True\<rparr>"
        have nw: "\<not> Channel_isWriting ?ch3" by (simp add: Channel_isWriting_def and_not_mask)
        have es3: "established c w3 p3 (?g k) ?ch3"
          using 1(2) nw ob by (simp add: established_def)
        note sn = same_netD [OF 1(3)]
        have run: "TcpConnection_handleWrite c w =
            (if tc_state k = kDisconnecting then TcpConnection_shutdownInLoop c w3 else Ok w3)"
          using body all upd d 1(1)
          by (simp add: conn_access Channel_disableWriting_def if_then_def split: sum.splits)
        let ?w4 = "w3\<lparr>k_shut := k_shut w3 @ [tc_socket k]\<rparr>"
        have wire: "k_wire w3 (tc_socket k) = k_wire w (tc_socket k) @ ?out"
          using sn(4) all by simp
        have conns: "n_conns w3 c = Some (?g k)" using sn(1) by simp
        show thesis
        proof (cases "tc_state k = kDisconnecting")
          case False
          then have "TcpConnection_handleWrite c w = Ok w3" using run by simp
          then show thesis
            by (rule that [OF _ es3]) (use False ne all d sn wire conns in \<open>simp_all add: out_stream_def after_write_def\<close>)
        next
          case dis: True
          have "TcpConnection_handleWrite c w = Ok ?w4"
            using run dis shutdownInLoop_idle [OF 1(2) nw] by simp
          moreover have "established c ?w4 p3 (?g k) ?ch3"
            by (rule established_kernel [OF es3]) simp_all
          ultimately show thesis
            by (rule that) (use dis ne all d sn wire conns in \<open>simp_all add: out_stream_def after_write_def\<close>)
        qed
      qed
    qed
  qed
qed

section \<open>The output path as an interface\<close>

text \<open>
  What the layers above a connection rely on: a message handed to \<open>send\<close> is appended to
  the byte stream the peer will see, and flushing does not change that stream.
\<close>

datatype out_op = Out_send "byte list" | Out_flush

fun op_bytes :: "out_op \<Rightarrow> byte list" where
  "op_bytes (Out_send m) = m"
| "op_bytes Out_flush = []"

locale byte_sink =
  fixes ready :: "'s \<Rightarrow> bool" and stream :: "'s \<Rightarrow> byte list"
    and put :: "byte list \<Rightarrow> 's stmt" and flush :: "'s stmt"
  assumes put_ok: "ready s \<Longrightarrow> \<exists>s'. put m s = Ok s' \<and> ready s' \<and> stream s' = stream s @ m"
    and flush_ok: "ready s \<Longrightarrow> \<exists>s'. flush s = Ok s' \<and> ready s' \<and> stream s' = stream s"
begin

lemma run_ops:
  "ready s \<Longrightarrow> \<exists>s'. block (map (\<lambda>x. case x of Out_send m \<Rightarrow> put m | Out_flush \<Rightarrow> flush) xs) s = Ok s' \<and>
     ready s' \<and> stream s' = stream s @ concat (map op_bytes xs)"
proof (induction xs arbitrary: s)
  case Nil
  then show ?case by simp
next
  case (Cons x xs)
  obtain s1 where s1: "(case x of Out_send m \<Rightarrow> put m | Out_flush \<Rightarrow> flush) s = Ok s1" "ready s1"
    "stream s1 = stream s @ op_bytes x"
    using put_ok [OF Cons.prems] flush_ok [OF Cons.prems] by (cases x) auto
  with Cons.IH [OF s1(2)] show ?case by simp
qed

lemma put_many:
  "ready s \<Longrightarrow> \<exists>s'. block (map put ms) s = Ok s' \<and> ready s' \<and> stream s' = stream s @ concat ms"
  using run_ops [of s "map Out_send ms"] by (simp add: comp_def)

end

definition conn_ready :: "conn_id \<Rightarrow> 'z net_scheme \<Rightarrow> bool" where
  "conn_ready c w \<longleftrightarrow> (\<exists>p k ch. established c w p k ch)"

interpretation conn_out: byte_sink "conn_ready c" "out_stream c" "TcpConnection_sendInLoop c"
    "TcpConnection_handleWrite c" for c
proof unfold_locales
  fix w :: "'a net_scheme" and m
  assume "conn_ready c w"
  then obtain p k ch where es: "established c w p k ch" by (auto simp: conn_ready_def)
  show "\<exists>w'. TcpConnection_sendInLoop c m w = Ok w' \<and> conn_ready c w' \<and> out_stream c w' = out_stream c w @ m"
    by (rule sendInLoop_ok [OF es, of m]) (auto simp: conn_ready_def)
  show "\<exists>w'. TcpConnection_handleWrite c w = Ok w' \<and> conn_ready c w' \<and> out_stream c w' = out_stream c w"
    by (rule handleWrite_ok [OF es]) (auto simp: conn_ready_def)
qed

end
