(* ===== verification/TcpStream.thy ===== *)
theory TcpStream
  imports TcpConnection
begin

text \<open>
  The output path of a connection: establishing a connection, and what sending, flushing
  and shutting down do to the stream of bytes the peer sees.
\<close>

section \<open>Establishing a connection\<close>

definition new_connection :: "chan_id \<Rightarrow> loop_id \<Rightarrow> int \<Rightarrow> sockaddr_in \<Rightarrow> sockaddr_in \<Rightarrow> string \<Rightarrow> tcp_connection" where
  "new_connection chan loop sockfd localAddr peerAddr name =
     \<lparr>tc_loop = loop, tc_state = kConnecting, tc_socket = sockfd, tc_channel = chan,
      tc_localAddr = localAddr, tc_peerAddr = peerAddr, tc_connectionCallback = None,
      tc_messageCallback = None, tc_closeCallback = None, tc_name = name,
      tc_outputBuffer = [], tc_refs = 1\<rparr>"

text \<open>Room for a connection: its two objects do not exist and its descriptor is not polled.\<close>

definition conn_room :: "conn_id \<Rightarrow> chan_id \<Rightarrow> loop_id \<Rightarrow> int \<Rightarrow> 'z net_scheme \<Rightarrow> poller \<Rightarrow> bool" where
  "conn_room c chan l fd w p \<longleftrightarrow> serves l w p \<and> n_conns w c = None \<and> w_heap w chan = None \<and>
     pl_channels p fd = None"

lemma connectEstablished_eq:
  assumes sv: "serves l w p" and k: "n_conns w c = Some k" "tc_loop k = l" "tc_state k = kConnecting"
      "tc_outputBuffer k = []"
    and own: "own_channel l w p (tc_channel k) ch" and ch: "ch_fd ch = tc_socket k" "ch_events ch = kNoneEvent"
  obtains w1 p1 ch1 where
    "TcpConnection_connectEstablished call c w = pinned c (call_opt call (tc_connectionCallback k) c []) w1"
    "established c w1 p1 (k\<lparr>tc_state := kConnected\<rparr>) ch1" "ch_events ch1 = kReadEvent"
    "w1 = w\<lparr>w_heap := w_heap w1, w_loops := w_loops w1, n_conns := (n_conns w)(c \<mapsto> k\<lparr>tc_state := kConnected\<rparr>)\<rparr>"
    "registered (p1, w_heap w1) = insert (tc_channel k) (registered (p, w_heap w))"
    "\<And>d. d \<noteq> tc_channel k \<Longrightarrow> w_heap w1 d = w_heap w d"
proof -
  let ?k = "k\<lparr>tc_state := kConnected\<rparr>"
  let ?w = "w\<lparr>n_conns := (n_conns w)(c \<mapsto> ?k)\<rparr>"
  have sv1: "serves l ?w p" and own1: "own_channel l ?w p (tc_channel k) ch"
    using sv own by (simp_all add: serves_def own_channel_def del: updatable.simps)
  show thesis
  proof (rule change_ok [OF sv1 own1, of "\<lambda>e. e OR kReadEvent"], goal_cases)
    case (1 w1 p1 i)
    let ?ch1 = "ch\<lparr>ch_events := ch_events ch OR kReadEvent, ch_index := i, ch_addedToLoop := True\<rparr>"
    have conns: "n_conns w1 = n_conns ?w" by (subst 1(7)) simp
    have in_loop: "conn_assertInLoopThread c w = Ok w"
      using sv k by (auto simp: conn_assertInLoopThread_def EventLoop_assertInLoopThread_def conn_access
          loop_access check_def serves_def)
    have ev: "ch_events ?ch1 = kReadEvent" using ch(2) by (simp add: kNoneEvent_def)
    show thesis
    proof (rule that [of w1 p1 ?ch1])
      show "TcpConnection_connectEstablished call c w = pinned c (call_opt call (tc_connectionCallback k) c []) w1"
        using in_loop k 1(1) conns
        by (simp add: TcpConnection_connectEstablished_def TcpConnection_setState_def conn_access
            Channel_enableReading_def assertion_def check_def split: sum.splits)
      have "attached c w1 p1 ?k ?ch1"
        unfolding attached_def using conns k ch 1(2,3,4) by (simp del: registered.simps)
      moreover have "\<not> Channel_isWriting ?ch1"
        using ev by (simp add: Channel_isWriting_def kReadEvent_def kWriteEvent_def poll_flags)
      ultimately show "established c w1 p1 ?k ?ch1" using k by (simp add: established_def)
      show "w1 = w\<lparr>w_heap := w_heap w1, w_loops := w_loops w1, n_conns := (n_conns w)(c \<mapsto> ?k)\<rparr>"
        by (subst 1(7)) simp
      show "registered (p1, w_heap w1) = insert (tc_channel k) (registered (p, w_heap w))"
        using 1(4) by (simp del: registered.simps)
    qed (use ev 1(9) in auto)
  qed
qed

section \<open>A concrete connection\<close>

text \<open>
  Loop \<open>4\<close> on thread \<open>1\<close> polls channel \<open>3\<close> of connection \<open>0\<close>, on descriptor \<open>7\<close>.
\<close>

definition example_channel :: "byte list \<Rightarrow> callback channel" where
  "example_channel pending = (Channel_new 4 7)
     \<lparr>ch_events := if pending = [] then kReadEvent else kReadEvent OR kWriteEvent, ch_index := 0,
      ch_addedToLoop := True, ch_readCallback := Some (Cb_TcpConnection_handleRead 0),
      ch_closeCallback := Some (Cb_TcpConnection_handleClose 0),
      ch_writeCallback := Some (Cb_TcpConnection_handleWrite 0),
      ch_errorCallback := Some (Cb_TcpConnection_handleError 0)\<rparr>"

definition example_conn_poller :: "byte list \<Rightarrow> poller" where
  "example_conn_poller pending = (PollPoller_new 4)
     \<lparr>pl_pollfds := [new_pollfd (example_channel pending)], pl_channels := [7 \<mapsto> 3]\<rparr>"

definition example_conn :: "conn_state \<Rightarrow> byte list \<Rightarrow> tcp_connection" where
  "example_conn st pending = (new_connection 3 4 7 (InetAddress_any 80) (InetAddress_any 90) ''conn'')
     \<lparr>tc_state := st, tc_outputBuffer := pending, tc_connectionCallback := Some (Cb_user 0),
      tc_closeCallback := Some (Cb_user 1)\<rparr>"

definition example_net :: "conn_state \<Rightarrow> byte list \<Rightarrow> int stream \<Rightarrow> net" where
  "example_net st pending room =
     \<lparr>w_thread = 1, w_heap = [3 \<mapsto> example_channel pending],
      w_loops = [4 \<mapsto> \<lparr>el_threadId = 1, el_looping = True, el_quit = False,
        el_poller = Some (example_conn_poller pending), el_activeChannels = [],
        el_callingPendingFunctors = False, el_wakeupPipe = (10, 11), el_pipeBytes = 0,
        el_wakeupChannel = None, el_pendingFunctors = []\<rparr>],
      w_loopInThisThread = [1 \<mapsto> 4], n_conns = [0 \<mapsto> example_conn st pending], k_room = room,
      k_reads = sconst None, k_wire = (\<lambda>_. []), k_shut = [], k_closed = [],
      k_socks = (\<lambda>_. new_socket)\<rparr>"

lemma example_net_simps [simp]:
  "w_thread (example_net st pending room) = 1"
  "w_heap (example_net st pending room) = [3 \<mapsto> example_channel pending]"
  "n_conns (example_net st pending room) = [0 \<mapsto> example_conn st pending]"
  "k_room (example_net st pending room) = room" "k_wire (example_net st pending room) = (\<lambda>_. [])"
  "k_shut (example_net st pending room) = []" "k_closed (example_net st pending room) = []"
  "tc_state (example_conn st pending) = st" "tc_outputBuffer (example_conn st pending) = pending"
  "tc_channel (example_conn st pending) = 3" "tc_socket (example_conn st pending) = 7"
  "tc_loop (example_conn st pending) = 4" "tc_closeCallback (example_conn st pending) = Some (Cb_user 1)"
  by (simp_all add: example_net_def example_conn_def new_connection_def)

lemma example_established: "established 0 (example_net st pending room) (example_conn_poller pending)
    (example_conn st pending) (example_channel pending)"
proof -
  have ok: "poller_ok (example_conn_poller pending, [3 \<mapsto> example_channel pending])"
    by (rule poller_okI)
      (auto simp: example_conn_poller_def example_channel_def slot_of_def entry_ok_def PollPoller_new_def
        Channel_new_def new_pollfd_def split: if_splits)
  then show ?thesis
    by (auto simp: established_def attached_def serves_def own_channel_def example_net_def example_conn_def
        new_connection_def example_conn_poller_def example_channel_def PollPoller_new_def Channel_new_def
        Channel_isWriting_def kReadEvent_def kWriteEvent_def poll_flags)
qed

section \<open>Flushing until the buffer is empty\<close>

text \<open>
  When every write finds some room, as many flushes as there are pending bytes deliver all
  of them; in \<open>kDisconnecting\<close> the last one shuts the socket down, once.
\<close>

lemma flush_all:
  assumes "established c w p k ch" "length (tc_outputBuffer k) \<le> n" "\<And>i. 0 < snth (k_room w) i"
  shows "\<exists>w' p' ch'. block (replicate n (TcpConnection_handleWrite c)) w = Ok w' \<and>
    established c w' p' (k\<lparr>tc_outputBuffer := []\<rparr>) ch' \<and> out_stream c w' = out_stream c w \<and>
    k_shut w' = k_shut w @ (if tc_state k = kDisconnecting \<and> tc_outputBuffer k \<noteq> [] then [tc_socket k] else [])"
  using assms
proof (induction n arbitrary: w p k ch)
  case 0
  then have "k\<lparr>tc_outputBuffer := []\<rparr> = k" by simp
  then have "established c w p (k\<lparr>tc_outputBuffer := []\<rparr>) ch" using 0 by (simp only:)
  then show ?case using 0 by auto
next
  case (Suc n)
  let ?out = "tc_outputBuffer k" and ?a = "accepted w (tc_outputBuffer k)"
  show ?case
  proof (rule handleWrite_ok [OF Suc.prems(1)], goal_cases)
    case (1 w1 p1 ch1)
    have room: "0 < snth (k_room w1) i" for i
      using Suc.prems(3) [of "Suc i"] Suc.prems(3) [of i] 1(4) by auto
    have pos: "0 < ?a" if "?out \<noteq> []"
      using that Suc.prems(3) [of 0] by (simp add: accepted_def)
    have len: "length (drop ?a ?out) \<le> n"
      using Suc.prems(2) pos by (cases "?out = []") auto
    let ?k1 = "k\<lparr>tc_outputBuffer := drop ?a ?out\<rparr>"
    obtain w' p' ch' where w': "block (replicate n (TcpConnection_handleWrite c)) w1 = Ok w'"
      "established c w' p' (?k1\<lparr>tc_outputBuffer := []\<rparr>) ch'" "out_stream c w' = out_stream c w1"
      "k_shut w' = k_shut w1 @ (if tc_state ?k1 = kDisconnecting \<and> tc_outputBuffer ?k1 \<noteq> []
         then [tc_socket ?k1] else [])"
      using Suc.IH [OF 1(2) _ room] len by auto
    have shut: "k_shut w' = k_shut w @
        (if tc_state k = kDisconnecting \<and> ?out \<noteq> [] then [tc_socket k] else [])"
      using w'(4) 1(5) accepted_le [of w ?out] by auto
    show ?case
      using 1(1,3) w'(1,2,3) shut by (intro exI [of _ w'] exI [of _ p'] exI [of _ ch']) simp
  qed
qed

section \<open>Properties\<close>

text \<open>
  Creating a connection on a polled loop and calling \<open>connectEstablished\<close> makes it
  \<open>kConnected\<close>, registers its channel for reading only, starts with an empty output
  buffer, and then runs the connection callback in that state.
\<close>

theorem connectEstablished_correct:
  assumes "conn_room c chan l fd w p"
  shows "\<exists>w1 p1 k1 ch1.
    block [TcpConnection_new c chan l fd la pa name,
           upd_conn c (\<lambda>k. k\<lparr>tc_connectionCallback := Some cb\<rparr>),
           TcpConnection_connectEstablished call c] w = pinned c (call cb c []) w1 \<and>
    established c w1 p1 k1 ch1 \<and> tc_state k1 = kConnected \<and> tc_socket k1 = fd \<and>
    ch_events ch1 = kReadEvent \<and> out_stream c w1 = k_wire w fd \<and>
    registered (p1, w_heap w1) = insert chan (registered (p, w_heap w))"
proof -
  let ?ch = "(Channel_new l fd :: callback channel)\<lparr>
       ch_readCallback := Some (Cb_TcpConnection_handleRead c),
       ch_closeCallback := Some (Cb_TcpConnection_handleClose c),
       ch_writeCallback := Some (Cb_TcpConnection_handleWrite c),
       ch_errorCallback := Some (Cb_TcpConnection_handleError c)\<rparr>"
  let ?k = "(new_connection chan l fd la pa name)\<lparr>tc_connectionCallback := Some cb\<rparr>"
  let ?w0 = "w\<lparr>w_heap := (w_heap w)(chan \<mapsto> ?ch)\<rparr>"
  let ?w = "?w0\<lparr>n_conns := (n_conns w)(c \<mapsto> ?k)\<rparr>"
  have room: "serves l w p" "w_heap w chan = None" "pl_channels p fd = None"
    using assms by (auto simp: conn_room_def)
  have "ch_loop ?ch = l" "ch_index ?ch < 0" "pl_channels p (ch_fd ?ch) = None"
    using room by (simp_all add: Channel_new_def)
  note fresh = serves_new_channel [OF room(1,2) this]
  have sv: "serves l ?w p" and own: "own_channel l ?w p (tc_channel ?k) ?ch"
    using fresh by (simp_all add: serves_def own_channel_def new_connection_def del: updatable.simps)
  have run: "block [TcpConnection_new c chan l fd la pa name,
      upd_conn c (\<lambda>k. k\<lparr>tc_connectionCallback := Some cb\<rparr>), TcpConnection_connectEstablished call c] w =
      TcpConnection_connectEstablished call c ?w"
    by (simp add: TcpConnection_new_def modify_def conn_access new_connection_def split: sum.splits)
  show ?thesis
  proof (rule connectEstablished_eq [OF sv _ _ _ _ own, of c call], goal_cases)
    case (7 w1 p1 ch1)
    have "out_stream c w1 = k_wire w fd"
      using attachedD(1) [of c w1 p1 _ ch1] 7(2)
      by (subst 7(4)) (simp add: out_stream_def new_connection_def)
    then show ?thesis
      using run 7 fresh(3)
      by (intro exI [of _ w1] exI [of _ p1] exI [of _ "?k\<lparr>tc_state := kConnected\<rparr>"] exI [of _ ch1])
        (simp add: call_opt_def new_connection_def del: registered.simps)
  qed (simp_all add: new_connection_def Channel_new_def kNoneEvent_def)
qed

definition empty_room :: net where
  "empty_room = (example_net kConnected [] (sconst 1))\<lparr>w_heap := Map.empty, n_conns := Map.empty,
     w_loops := [4 \<mapsto> (the (w_loops (example_net kConnected [] (sconst 1)) 4))
       \<lparr>el_poller := Some (PollPoller_new 4)\<rparr>]\<rparr>"

lemma empty_room: "conn_room c chan 4 fd empty_room (PollPoller_new 4)"
  by (auto simp: conn_room_def empty_room_def serves_def example_net_def PollPoller_new_def
      intro: poller_ok_new [unfolded PollPoller_new_def])

theorem connectEstablished_correct_witness:
  "\<exists>w1 p1 k1 ch1.
    block [TcpConnection_new 0 3 4 7 (InetAddress_any 80) (InetAddress_any 90) ''conn'',
           upd_conn 0 (\<lambda>k. k\<lparr>tc_connectionCallback := Some defaultConnectionCallback\<rparr>),
           TcpConnection_connectEstablished (\<lambda>_ _ _. skip) 0] empty_room = pinned 0 skip w1 \<and>
    established 0 w1 p1 k1 ch1 \<and> tc_state k1 = kConnected"
  using connectEstablished_correct [OF empty_room, of 0 3 7 "InetAddress_any 80" "InetAddress_any 90" "''conn''"
      defaultConnectionCallback "\<lambda>_ _ _. skip"] by blast

text \<open>
  C2. The bytes of a connection reach the peer in order, without loss or duplication: any
  sequence of sends and write events succeeds, whatever each \<open>write\<close> accepts or fails to,
  and extends the stream (bytes accepted by the kernel, then the pending output) by exactly
  the sent messages, in order.
\<close>

theorem sends_and_flushes_extend_stream:
  assumes "established c w p k ch"
  shows "\<exists>w'. block (map (\<lambda>x. case x of Out_send m \<Rightarrow> TcpConnection_sendInLoop c m
                             | Out_flush \<Rightarrow> TcpConnection_handleWrite c) ops) w = Ok w' \<and>
    conn_ready c w' \<and> out_stream c w' = out_stream c w @ concat (map op_bytes ops)"
  by (rule conn_out.run_ops) (use assms in \<open>auto simp: conn_ready_def\<close>)

theorem sends_and_flushes_extend_stream_witness:
  "\<exists>w'. block [TcpConnection_sendInLoop 0 [1, 2, 3], TcpConnection_sendInLoop 0 [4],
      TcpConnection_handleWrite 0] (example_net kConnected [] (2 ## -1 ## sconst 1)) = Ok w' \<and>
    out_stream 0 w' = [1, 2, 3, 4]"
  using sends_and_flushes_extend_stream
    [OF example_established [of kConnected "[]" "2 ## -1 ## sconst 1"],
     of "[Out_send [1, 2, 3], Out_send [4], Out_flush]"]
  by (auto simp: out_stream_def)

text \<open>
  C12. Graceful shutdown: \<open>shutdown()\<close> with output pending leaves the socket open for
  writing until the output is flushed; when every write finds room, as many write events as
  there are pending bytes put all of them on the wire, and only then the write side is shut,
  once. Without pending output it is shut at once.
\<close>

theorem shutdown_flushes_first:
  assumes es: "established c w p k ch" and st: "tc_state k = kConnected"
    and exec: "exec (Fn_shutdownInLoop c) = TcpConnection_shutdownInLoop c"
    and room: "\<And>i. 0 < snth (k_room w) i" and n: "length (tc_outputBuffer k) \<le> n"
    and refs: "0 < tc_refs k"
  shows "\<exists>w1 w2. TcpConnection_shutdown exec c w = Ok w1 \<and>
    k_shut w1 = k_shut w @ (if tc_outputBuffer k = [] then [tc_socket k] else []) \<and>
    k_wire w1 = k_wire w \<and>
    block (replicate n (TcpConnection_handleWrite c)) w1 = Ok w2 \<and>
    k_wire w2 (tc_socket k) = k_wire w (tc_socket k) @ tc_outputBuffer k \<and>
    k_shut w2 = k_shut w @ [tc_socket k] \<and> conn_ready c w2"
proof -
  have at: "attached c w p k ch" and wr: "Channel_isWriting ch \<longleftrightarrow> tc_outputBuffer k \<noteq> []"
    using es by (auto simp: established_def)
  note d = attachedD [OF at]
  let ?k1 = "k\<lparr>tc_state := kDisconnecting\<rparr>" and ?k2 = "k\<lparr>tc_state := kDisconnecting, tc_refs := Suc (tc_refs k)\<rparr>"
  let ?w0 = "w\<lparr>n_conns := (n_conns w)(c \<mapsto> ?k2)\<rparr>"
  let ?shut = "k_shut w @ (if tc_outputBuffer k = [] then [tc_socket k] else [])"
  let ?w1 = "w\<lparr>n_conns := (n_conns w)(c \<mapsto> ?k1), k_shut := ?shut\<rparr>"
  have at0: "attached c ?w0 p ?k2 ch"
    using attached_upd_conn(2) [OF at, of "\<lambda>_. ?k2"] by simp
  have "attached c (w\<lparr>n_conns := (n_conns w)(c \<mapsto> ?k1)\<rparr>) p ?k1 ch"
    using attached_upd_conn(2) [OF at, of "\<lambda>_. ?k1"] by simp
  then have "attached c ?w1 p ?k1 ch" by (rule attached_kernel) simp_all
  with wr have es1: "established c ?w1 p ?k1 ch" by (simp add: established_def)
  have body: "TcpConnection_shutdownInLoop c ?w0 = Ok (?w0\<lparr>k_shut := ?shut\<rparr>)"
    using shutdownInLoop_idle [OF at0] shutdownInLoop_busy [OF at0] wr by (cases "tc_outputBuffer k = []") simp_all
  have loop: "EventLoop_isInLoopThread (tc_loop k) (w\<lparr>n_conns := (n_conns w)(c \<mapsto> ?k1)\<rparr>)"
    using attached_in_loop(1) [OF at] by (auto simp: EventLoop_isInLoopThread_def split: option.splits)
  have run: "TcpConnection_shutdown exec c w = Ok ?w1"
    using st d(1) body loop refs
    by (simp add: TcpConnection_shutdown_def TcpConnection_setState_def conn_access run_bound_def pinned_def
        conn_ref_def conn_unref_def exec skip_def)
  obtain w2 p2 ch2 where w2: "block (replicate n (TcpConnection_handleWrite c)) ?w1 = Ok w2"
    "established c w2 p2 (?k1\<lparr>tc_outputBuffer := []\<rparr>) ch2" "out_stream c w2 = out_stream c ?w1"
    "k_shut w2 = k_shut ?w1 @ (if tc_state ?k1 = kDisconnecting \<and> tc_outputBuffer ?k1 \<noteq> [] then [tc_socket ?k1] else [])"
    using flush_all [OF es1, of n] room n by auto
  have "k_wire w2 (tc_socket k) = k_wire w (tc_socket k) @ tc_outputBuffer k"
    using w2(3) attachedD(1) [OF w2(2) [unfolded established_def, THEN conjunct1]] by (simp add: out_stream_def)
  then show ?thesis
    using run w2(1,2,4) by (intro exI [of _ ?w1] exI [of _ w2]) (auto simp: conn_ready_def)
qed

theorem shutdown_flushes_first_witness:
  "\<exists>w1 w2. TcpConnection_shutdown (\<lambda>f. if f = Fn_shutdownInLoop 0 then TcpConnection_shutdownInLoop 0 else skip) 0
      (example_net kConnected [1, 2, 3] (sconst 2)) = Ok w1 \<and> k_shut w1 = [] \<and>
    block (replicate 3 (TcpConnection_handleWrite 0)) w1 = Ok w2 \<and> k_wire w2 7 = [1, 2, 3] \<and> k_shut w2 = [7]"
proof -
  have refs: "0 < tc_refs (example_conn kConnected [1, 2, 3])"
    by (simp add: example_conn_def new_connection_def)
  show ?thesis
    using shutdown_flushes_first [OF example_established [where room = "sconst 2"] _ _ _ _ refs, where n = 3 and
        exec = "\<lambda>f. if f = Fn_shutdownInLoop 0 then TcpConnection_shutdownInLoop 0 else skip"]
    by simp blast
qed

section \<open>Sending a block of memory\<close>

lemma c_string_terminated: "0 \<notin> set s \<Longrightarrow> c_string (s @ 0 # rest) = Some s"
  by (simp add: c_string_def takeWhile_append)

text \<open>
  \<open>send(const char*, int)\<close> is the same operation as \<open>send(const std::string&)\<close> when
  the block is a C string and \<open>len\<close> its length.
\<close>

theorem sendInLoopChar_of_c_string:
  assumes "0 \<notin> set s"
  shows "TcpConnection_sendInLoopChar c (s @ 0 # rest) (length s) = TcpConnection_sendInLoop c s"
proof -
  have "try_write c (s @ 0 # rest) (length s) f w = try_write c s (length s) f w" for f :: "nat \<Rightarrow> 'a net_stmt" and w
    by (simp add: try_write_def cong: if_cong)
  then have "try_write c (s @ 0 # rest) (length s) = (try_write c s (length s) :: (nat \<Rightarrow> 'a net_stmt) \<Rightarrow> 'a net_stmt)"
    by (intro ext)
  moreover have "(\<lambda>n. if n < length s then
        (case c_string (s @ 0 # rest) of None \<Rightarrow> (\<lambda>w. Fault UndefinedBehaviour)
         | Some m \<Rightarrow> if n \<le> length m then queue_rest c (drop n m) else (\<lambda>w. Fault UndefinedBehaviour))
        else skip) = (\<lambda>n. if n < length s then queue_rest c (drop n s) else skip :: 'a net_stmt)"
    by (intro ext) (simp add: c_string_terminated [OF assms])
  ultimately show ?thesis
    by (intro ext) (simp only: TcpConnection_sendInLoopChar_def TcpConnection_sendInLoop_def)
qed

theorem sendInLoopChar_of_c_string_witness:
  "TcpConnection_sendInLoopChar 0 [104, 105, 0, 9] 2 = (TcpConnection_sendInLoop 0 [104, 105] :: unit net_stmt)"
proof -
  have "0 \<notin> set [104, 105 :: byte]" and len: "length [104, 105 :: byte] = 2" by simp_all
  from sendInLoopChar_of_c_string [OF this(1), of 0 "[9]"] show ?thesis
    unfolding len append_Cons append_Nil .
qed

text \<open>
  While output is pending, \<open>send(const char*, int)\<close> queues only the bytes before the
  first zero byte of the block, whatever \<open>len\<close> says: binary data, such as a length
  header, is cut off without an error.
\<close>

theorem sendInLoopChar_truncates_pending:
  assumes es: "established c w p k ch" and pending: "tc_outputBuffer k \<noteq> []"
    and zero: "0 \<in> set m" and len: "0 < len"
  shows "\<exists>w'. TcpConnection_sendInLoopChar c m len w = Ok w' \<and> conn_ready c w' \<and>
    out_stream c w' = out_stream c w @ takeWhile (\<lambda>b. b \<noteq> 0) m"
proof -
  let ?s = "takeWhile (\<lambda>b. b \<noteq> 0) m"
  have at: "attached c w p k ch" and wr: "Channel_isWriting ch"
    using es pending by (auto simp: established_def)
  have run: "TcpConnection_sendInLoopChar c m len w = queue_rest c ?s w"
    using attached_in_loop(2) [OF at] try_write_busy [OF at, of m len] pending zero len
    by (simp add: TcpConnection_sendInLoopChar_def c_string_def split: sum.splits)
  show ?thesis
  proof (cases "?s = []")
    case True
    have "k\<lparr>tc_outputBuffer := tc_outputBuffer k\<rparr> = k" by simp
    with True have "queue_rest c ?s w = Ok w"
      using attachedD [OF at] wr
      by (simp add: queue_rest_def conn_access loop_access skip_def map_upd_triv)
    with run True es show ?thesis by (auto simp: conn_ready_def)
  next
    case False
    show ?thesis
      by (rule queue_rest_ok [OF at False])
        (use run attachedD(1) [OF at] in \<open>auto simp: conn_ready_def out_stream_def\<close>)
  qed
qed

theorem sendInLoopChar_truncates_pending_witness:
  "\<exists>w'. TcpConnection_sendInLoopChar 0 [5, 0, 0, 0] 4 (example_net kConnected [1] (sconst 2)) = Ok w' \<and>
    out_stream 0 w' = [1, 5]"
  using sendInLoopChar_truncates_pending [OF example_established [of kConnected "[1]" "sconst 2"], of "[5, 0, 0, 0]" 4]
  by (auto simp: out_stream_def)

text \<open>
  A direct write of a block that stops after its first zero byte and before \<open>len\<close> is
  undefined behaviour: the iterator \<open>new_message.begin()+bytes_wrote\<close> is past the end of
  the string copied from the block.
\<close>

theorem sendInLoopChar_partial_write_undefined:
  assumes "established c w p k ch" "tc_outputBuffer k = []" "len \<le> length m" "0 \<in> set m"
    and "int (length (takeWhile (\<lambda>b. b \<noteq> 0) m)) < shd (k_room w)" "shd (k_room w) < int len"
  shows "TcpConnection_sendInLoopChar c m len w = Fault UndefinedBehaviour"
proof -
  have at: "attached c w p k ch" and "\<not> Channel_isWriting ch"
    using assms(1,2) by (auto simp: established_def)
  then have "try_write c m len f w = f (accepted w (take len m)) (after_write (tc_socket k) (take len m) w)" for f
    using try_write_idle [of c w p k ch len m f] assms(2,3) by simp
  moreover have "accepted w (take len m) = nat (shd (k_room w))"
    using assms(3,5,6) by (simp add: accepted_def)
  moreover have "nat (shd (k_room w)) < len" "\<not> nat (shd (k_room w)) \<le> length (takeWhile (\<lambda>b. b \<noteq> 0) m)"
    using assms(5,6) by linarith+
  ultimately show ?thesis
    using assms(4) attached_in_loop(2) [OF at]
    by (simp add: TcpConnection_sendInLoopChar_def c_string_def)
qed

theorem sendInLoopChar_partial_write_undefined_witness:
  "TcpConnection_sendInLoopChar 0 [5, 0, 0, 0] 4 (example_net kConnected [] (sconst 2)) = Fault UndefinedBehaviour"
  using sendInLoopChar_partial_write_undefined [OF example_established [of kConnected "[]" "sconst 2"], of 4 "[5, 0, 0, 0]"]
  by simp

end
