(* ===== verification/TcpLifecycle.thy ===== *)
theory TcpLifecycle
  imports TcpStream
begin

text \<open>
  The life of a connection: the hang-up event, and the release of its channel and socket.
\<close>

section \<open>Keeping a property of the world\<close>

lemma keeps_block_Nil: "keeps P (block [])"
  by (simp add: keeps_def)

lemma keeps_block_Cons: "keeps P s \<Longrightarrow> keeps P (block ss) \<Longrightarrow> keeps P (block (s # ss))"
proof (rule keepsI)
  fix w w''
  assume s: "keeps P s" and ss: "keeps P (block ss)" and "P w" and "block (s # ss) w = Ok w''"
  then obtain w' where w': "s w = Ok w'" "block ss w' = Ok w''" by (auto split: sum.splits)
  show "P w''" by (rule keepsD [OF ss keepsD [OF s \<open>P w\<close> w'(1)] w'(2)])
qed

lemma keeps_with_conn: "(\<And>k. keeps P (f k)) \<Longrightarrow> keeps P (with_conn c f)"
  by (rule keepsI) (auto simp: with_conn_def dest: keepsD split: option.splits)

lemma keeps_with_chan: "(\<And>ch. keeps P (f ch)) \<Longrightarrow> keeps P (with_chan d f)"
  by (rule keepsI) (auto simp: with_chan_def dest: keepsD split: option.splits)

lemma keeps_cond: "keeps P s \<Longrightarrow> keeps P t \<Longrightarrow> keeps P (if b then s else t)"
  by simp

lemma keeps_cond_state:
  assumes "keeps P s" "keeps P t"
  shows "keeps P (\<lambda>w. if b w then s w else t w)"
proof (rule keepsI)
  fix w w'
  assume "P w" "(if b w then s w else t w) = Ok w'"
  then show "P w'"
    using keepsD [OF assms(1), of w w'] keepsD [OF assms(2), of w w'] by (cases "b w") simp_all
qed

lemma keeps_fault: "keeps P (\<lambda>w. Fault e)"
  by (simp add: keeps_def)

lemma keeps_call_opt:
  "(\<And>cb buf. keeps P (call cb c buf)) \<Longrightarrow> keeps P (call_opt call cb c buf)"
  by (simp add: call_opt_def keeps_fault split: option.split)

lemma with_conn_Ok: "with_conn c f w = Ok w' \<Longrightarrow> \<exists>k. n_conns w c = Some k \<and> f k w = Ok w'"
  by (auto simp: with_conn_def split: option.splits)

section \<open>Closing and releasing\<close>

lemma pinned_eq:
  assumes "n_conns w c = Some k"
  shows "pinned c s w = (case s (w\<lparr>n_conns := (n_conns w)(c \<mapsto> k\<lparr>tc_refs := Suc (tc_refs k)\<rparr>)\<rparr>) of
     Inl e \<Rightarrow> Inl e | Inr w' \<Rightarrow> conn_unref c w')"
  using assms by (simp add: pinned_def conn_ref_def conn_access cong: sum.case_cong split: sum.splits)

lemma conn_unref_keep:
  assumes "n_conns w c = Some k" "1 < tc_refs k"
  shows "conn_unref c w = Ok (w\<lparr>n_conns := (n_conns w)(c \<mapsto> k\<lparr>tc_refs := tc_refs k - 1\<rparr>)\<rparr>)"
  using assms by (simp add: conn_unref_def conn_access skip_def)

lemma conn_unref_last:
  assumes "n_conns w c = Some k" "tc_refs k = 1" "w_heap w (tc_channel k) = Some ch" "\<not> ch_addedToLoop ch"
  shows "conn_unref c w = Ok (w\<lparr>w_heap := (w_heap w)(tc_channel k := None), n_conns := (n_conns w)(c := None),
     k_closed := k_closed w @ [tc_socket k]\<rparr>)"
  using assms
  by (simp add: conn_unref_def conn_access TcpConnection_destroy_def Channel_destroy_def Socket_destroy_def
      modify_def loop_access assertion_def check_def)

lemma pinned_skip:
  assumes "n_conns w c = Some k" "0 < tc_refs k"
  shows "pinned c skip w = Ok w"
  using assms by (simp add: pinned_def conn_ref_def conn_unref_def conn_access skip_def map_upd_triv)

text \<open>From another thread a bound functor is posted, with one more reference.\<close>

lemma run_bound_foreign:
  assumes "n_conns w c = Some k" "w_loops w l = Some el" "el_threadId el \<noteq> w_thread w"
  shows "run_bound exec l c f w = Ok (w\<lparr>n_conns := (n_conns w)(c \<mapsto> k\<lparr>tc_refs := Suc (tc_refs k)\<rparr>),
    w_loops := (w_loops w)(l \<mapsto> el\<lparr>el_pendingFunctors := el_pendingFunctors el @ [f],
      el_pipeBytes := Suc (el_pipeBytes el)\<rparr>)\<rparr>)"
proof -
  let ?w1 = "w\<lparr>n_conns := (n_conns w)(c \<mapsto> k\<lparr>tc_refs := Suc (tc_refs k)\<rparr>)\<rparr>"
  have "conn_ref c w = Ok ?w1" using assms(1) by (simp add: conn_ref_def conn_access)
  moreover have "\<not> EventLoop_isInLoopThread l w" using assms(2,3) by (simp add: EventLoop_isInLoopThread_def)
  moreover note runInLoop_foreign [of ?w1 l el exec f]
  ultimately show ?thesis using assms(2,3) by (simp add: run_bound_def)
qed

lemma handleClose_eq:
  assumes at: "attached c w p k ch" and st: "tc_state k = kConnected \<or> tc_state k = kDisconnecting"
  obtains w1 p1 i where
    "TcpConnection_handleClose call c w = pinned c (call_opt call (tc_closeCallback k) c []) w1"
    "attached c w1 p1 (k\<lparr>tc_state := kDisconnected\<rparr>)
       (ch\<lparr>ch_events := kNoneEvent, ch_index := i, ch_addedToLoop := True\<rparr>)"
    "w1 = w\<lparr>w_heap := w_heap w1, w_loops := w_loops w1, n_conns := (n_conns w)(c \<mapsto> k\<lparr>tc_state := kDisconnected\<rparr>)\<rparr>"
    "registered (p1, w_heap w1) = registered (p, w_heap w)" "\<And>d. d \<noteq> tc_channel k \<Longrightarrow> w_heap w1 d = w_heap w d"
    "\<And>el. w_loops w (tc_loop k) = Some el \<Longrightarrow> w_loops w1 (tc_loop k) = Some (el\<lparr>el_poller := Some p1\<rparr>)"
    "\<And>l. l \<noteq> tc_loop k \<Longrightarrow> w_loops w1 l = w_loops w l"
proof -
  let ?k = "k\<lparr>tc_state := kDisconnected\<rparr>"
  show thesis
  proof (rule attached_change [OF at, of "\<lambda>e. kNoneEvent"], goal_cases)
    case (1 w1 p1 i)
    let ?w1 = "w1\<lparr>n_conns := (n_conns w1)(c \<mapsto> ?k)\<rparr>"
    note sn = 1(3) [unfolded same_net_def]
    have conns: "n_conns w1 = n_conns w" by (rule same_netD [OF 1(3)])
    have up: "TcpConnection_setState c kDisconnected w1 = Ok ?w1"
      unfolding TcpConnection_setState_def by (rule attached_upd_conn(1) [OF 1(2)]) simp_all
    have at1: "attached c ?w1 p1 ?k (ch\<lparr>ch_events := kNoneEvent, ch_index := i, ch_addedToLoop := True\<rparr>)"
      by (rule attached_upd_conn(2) [OF 1(2)]) simp_all
    show thesis
    proof (rule that [OF _ at1])
      show "TcpConnection_handleClose call c w = pinned c (call_opt call (tc_closeCallback k) c []) ?w1"
        using st attachedD(1) [OF at] attached_in_loop(2) [OF at] 1(1) up
        by (simp add: TcpConnection_handleClose_def with_conn_def assertion_def check_def conns
            Channel_disableAll_def split: sum.splits)
      show "?w1 = w\<lparr>w_heap := w_heap ?w1, w_loops := w_loops ?w1, n_conns := (n_conns w)(c \<mapsto> ?k)\<rparr>"
        by (subst sn) (simp add: conns)
      show "registered (p1, w_heap ?w1) = registered (p, w_heap w)" using 1(5) by (simp del: registered.simps)
    qed (use 1(4,6,7) in simp_all)
  qed
qed

text \<open>The end of the stream closes the connection.\<close>

lemma handleRead_eof:
  assumes at: "attached c w p k ch" and st: "tc_state k = kConnected \<or> tc_state k = kDisconnecting"
    and eof: "shd (k_reads w) = Some []"
  obtains w1 p1 i where
    "TcpConnection_handleRead call c w = pinned c (call_opt call (tc_closeCallback k) c []) w1"
    "attached c w1 p1 (k\<lparr>tc_state := kDisconnected\<rparr>)
       (ch\<lparr>ch_events := kNoneEvent, ch_index := i, ch_addedToLoop := True\<rparr>)"
    "w1 = w\<lparr>w_heap := w_heap w1, w_loops := w_loops w1, n_conns := (n_conns w)(c \<mapsto> k\<lparr>tc_state := kDisconnected\<rparr>),
            k_reads := stl (k_reads w)\<rparr>"
    "\<And>d. d \<noteq> tc_channel k \<Longrightarrow> w_heap w1 d = w_heap w d"
    "\<And>el. w_loops w (tc_loop k) = Some el \<Longrightarrow> w_loops w1 (tc_loop k) = Some (el\<lparr>el_poller := Some p1\<rparr>)"
    "\<And>l. l \<noteq> tc_loop k \<Longrightarrow> w_loops w1 l = w_loops w l"
proof -
  let ?w = "w\<lparr>k_reads := stl (k_reads w)\<rparr>"
  have at1: "attached c ?w p k ch" by (rule attached_kernel [OF at]) simp_all
  have "TcpConnection_handleRead call c w = TcpConnection_handleClose call c ?w"
    using attachedD(1,5) [OF at] eof
    by (simp add: TcpConnection_handleRead_def with_conn_def with_chan_def sys_read_def)
  note read = this
  show thesis
  proof (rule handleClose_eq [OF at1 st, of call], goal_cases)
    case (1 w1 p1 i)
    show thesis
    proof (rule that [OF _ 1(2)])
      show "TcpConnection_handleRead call c w = pinned c (call_opt call (tc_closeCallback k) c []) w1"
        using read 1(1) by simp
      show "w1 = w\<lparr>w_heap := w_heap w1, w_loops := w_loops w1,
          n_conns := (n_conns w)(c \<mapsto> k\<lparr>tc_state := kDisconnected\<rparr>), k_reads := stl (k_reads w)\<rparr>"
        by (subst 1(3)) simp
    qed (use 1(5,6,7) in simp_all)
  qed
qed

text \<open>\<open>connectDestroyed\<close> of a closed connection takes its channel out of the poller.\<close>

lemma connectDestroyed_closed:
  assumes at: "attached c w p k ch" and st: "tc_state k = kDisconnected" "ch_events ch = kNoneEvent"
    and el: "w_loops w (tc_loop k) = Some el"
  shows "TcpConnection_connectDestroyed call c w = Ok (w\<lparr>
    w_heap := (w_heap w)(tc_channel k \<mapsto> ch\<lparr>ch_addedToLoop := False, ch_index := -1\<rparr>),
    w_loops := (w_loops w)(tc_loop k \<mapsto> el\<lparr>el_poller := Some (p\<lparr>
      pl_pollfds := erase_at (nat (ch_index ch)) (pl_pollfds p),
      pl_channels := (pl_channels p)(ch_fd ch := None)\<rparr>)\<rparr>)\<rparr>)"
proof -
  note d = attachedD [OF at]
  have fd: "pl_channels p (ch_fd ch) = Some (tc_channel k)" and loop: "ch_loop ch = tc_loop k"
    using d(3,5,6) by (auto simp: own_channel_def)
  show ?thesis
    using d(1) st(1) attached_in_loop(2) [OF at] Channel_remove_eq [OF d(2,5) loop fd st(2) el]
    by (simp add: TcpConnection_connectDestroyed_def with_conn_def skip_def)
qed

text \<open>Releasing the last reference of a closed connection: its channel leaves the poller, is
  destroyed, and its socket is closed.\<close>

lemma connectDestroyed_release:
  assumes at: "attached c w p k ch" and st: "tc_state k = kDisconnected" "ch_events ch = kNoneEvent" "tc_refs k = 1"
  obtains w' p' where "block [TcpConnection_connectDestroyed call c, conn_unref c] w = Ok w'"
    "w' = w\<lparr>w_heap := (w_heap w)(tc_channel k := None), w_loops := w_loops w', n_conns := (n_conns w)(c := None),
            k_closed := k_closed w @ [tc_socket k]\<rparr>"
    "\<exists>el. w_loops w' (tc_loop k) = Some el \<and> el_poller el = Some p'"
    "registered (p', w_heap w') = registered (p, w_heap w) - {tc_channel k}"
proof -
  note d = attachedD [OF at]
  have fd: "pl_channels p (ch_fd ch) = Some (tc_channel k)" using d(5,6) by auto
  obtain el where el: "w_loops w (tc_loop k) = Some el" using d(2) by (auto simp: serves_def)
  let ?p = "p\<lparr>pl_pollfds := erase_at (nat (ch_index ch)) (pl_pollfds p),
      pl_channels := (pl_channels p)(ch_fd ch := None)\<rparr>"
  let ?w1 = "w\<lparr>w_heap := (w_heap w)(tc_channel k \<mapsto> ch\<lparr>ch_addedToLoop := False, ch_index := -1\<rparr>),
      w_loops := (w_loops w)(tc_loop k \<mapsto> el\<lparr>el_poller := Some ?p\<rparr>)\<rparr>"
  let ?w2 = "w\<lparr>w_heap := (w_heap w)(tc_channel k := None),
      w_loops := (w_loops w)(tc_loop k \<mapsto> el\<lparr>el_poller := Some ?p\<rparr>),
      n_conns := (n_conns w)(c := None), k_closed := k_closed w @ [tc_socket k]\<rparr>"
  note gone = connectDestroyed_closed [OF at st(1,2) el, of call]
  have unref: "conn_unref c ?w1 = Ok ?w2"
    using conn_unref_last [of ?w1 c k] d(1) st(3) by simp
  have reg: "registered (?p, w_heap ?w2) = registered (p, w_heap w) - {tc_channel k}"
    using fd by auto (metis option.inject)
  show thesis
    by (rule that [of ?w2 ?p]) (use gone unref reg in \<open>simp_all del: registered.simps\<close>)
qed

section \<open>Properties\<close>

text \<open>
  C13. Releasing a connection: after \<open>handleClose\<close>, with a close callback that keeps no
  reference, \<open>connectDestroyed\<close> and the release of the last reference destroy the
  connection and its channel, unregister the channel and close the socket exactly once,
  leaving every other connection and channel alone.
\<close>

theorem close_releases_everything:
  assumes at: "attached c w p k ch" and st: "tc_state k = kConnected \<or> tc_state k = kDisconnecting"
    and refs: "tc_refs k = 1" and cb: "tc_closeCallback k = Some cb" "call cb c [] = skip"
  shows "\<exists>w' p'. block [TcpConnection_handleClose call c, TcpConnection_connectDestroyed call c, conn_unref c] w = Ok w' \<and>
    n_conns w' = (n_conns w)(c := None) \<and> w_heap w' = (w_heap w)(tc_channel k := None) \<and>
    k_closed w' = k_closed w @ [tc_socket k] \<and>
    (\<exists>el. w_loops w' (tc_loop k) = Some el \<and> el_poller el = Some p') \<and>
    registered (p', w_heap w') = registered (p, w_heap w) - {tc_channel k}"
proof (rule handleClose_eq [OF at st, of call], goal_cases)
  case (1 w1 p1 i)
  let ?k = "k\<lparr>tc_state := kDisconnected\<rparr>"
  have conns: "n_conns w1 = (n_conns w)(c \<mapsto> ?k)" "k_closed w1 = k_closed w" by (subst 1(3), simp)+
  have "pinned c (call_opt call (tc_closeCallback k) c []) w1 = Ok w1"
    using pinned_skip [of w1 c ?k] refs cb by (simp add: call_opt_def conns(1))
  then have close: "TcpConnection_handleClose call c w = Ok w1" using 1(1) by simp
  show ?thesis
  proof (rule connectDestroyed_release [OF 1(2), of call], goal_cases)
    case (4 w' p')
    have "n_conns w' = (n_conns w)(c := None)" "w_heap w' = (w_heap w1)(tc_channel k := None)"
      "k_closed w' = k_closed w @ [tc_socket k]"
      by (subst 4(2), simp add: conns)+
    moreover have "(w_heap w1)(tc_channel k := None) = (w_heap w)(tc_channel k := None)"
      using 1(5) by auto
    ultimately show ?thesis
      using close 4(1,3,4) 1(4) by (intro exI [of _ w'] exI [of _ p']) (auto split: sum.splits simp del: registered.simps)
  qed (simp_all add: refs)
qed

theorem close_releases_everything_witness:
  "\<exists>w'. block [TcpConnection_handleClose (\<lambda>_ _ _. skip) 0, TcpConnection_connectDestroyed (\<lambda>_ _ _. skip) 0, conn_unref 0]
      (example_net kConnected [] (sconst 1)) = Ok w' \<and>
    n_conns w' = Map.empty \<and> w_heap w' = Map.empty \<and> k_closed w' = [7]"
proof -
  have "attached 0 (example_net kConnected [] (sconst 1)) (example_conn_poller []) (example_conn kConnected []) (example_channel [])"
    using example_established unfolding established_def by blast
  from close_releases_everything [OF this, of "Cb_user 1" "\<lambda>_ _ _. skip"] show ?thesis
    by (auto simp: example_conn_def new_connection_def)
qed

text \<open>
  A hang-up reported without readable data (\<open>POLLHUP\<close> and not \<open>POLLIN\<close>) on a
  connection that outlives its close callback aborts the program: \<open>handleEvent\<close> fires
  \<open>handleClose\<close> and then also \<open>handleRead\<close>, whose read meets the end of the stream and
  closes again, which fails the assertion on the state.
\<close>

theorem hangup_aborts:
  assumes at: "attached c w p k ch" and st: "tc_state k = kConnected \<or> tc_state k = kDisconnecting"
    and refs: "0 < tc_refs k" and cb: "tc_closeCallback k = Some cb" "call cb c [] = skip"
    and slots: "ch_closeCallback ch = Some (Cb_TcpConnection_handleClose c)"
      "ch_readCallback ch = Some (Cb_TcpConnection_handleRead c)"
    and ev: "has_revents ch POLLHUP" "\<not> has_revents ch (POLLIN OR POLLERR OR POLLNVAL)"
    and eof: "shd (k_reads w) = Some []"
    and fire: "fire (Cb_TcpConnection_handleClose c) = TcpConnection_handleClose call c"
      "fire (Cb_TcpConnection_handleRead c) = TcpConnection_handleRead call c"
  shows "Channel_handleEvent fire (tc_channel k) w = Fault AssertFailed"
proof -
  have ev': "\<not> has_revents ch POLLIN" "\<not> has_revents ch (POLLERR OR POLLNVAL)" "\<not> has_revents ch POLLNVAL"
    "has_revents ch (POLLIN OR POLLPRI OR POLLHUP)"
    using ev by (simp_all add: has_revents_or)
  let ?ch1 = "ch\<lparr>ch_handlingEvent := True\<rparr>"
  let ?w1 = "w\<lparr>w_heap := (w_heap w)(tc_channel k \<mapsto> ?ch1)\<rparr>"
  note d = attachedD [OF at]
  have at1: "attached c ?w1 p k ?ch1" by (rule attached_chan_field [OF at]) simp_all
  show ?thesis
  proof (rule handleClose_eq [OF at1 st, of call], goal_cases)
    case (1 w2 p2 i)
    let ?k = "k\<lparr>tc_state := kDisconnected\<rparr>"
    let ?ch2 = "?ch1\<lparr>ch_events := kNoneEvent, ch_index := i, ch_addedToLoop := True\<rparr>"
    have conns: "n_conns w2 = (n_conns w)(c \<mapsto> ?k)" "k_reads w2 = k_reads w" by (subst 1(3), simp)+
    have "pinned c (call_opt call (tc_closeCallback k) c []) w2 = Ok w2"
      using pinned_skip [of w2 c ?k] refs cb by (simp add: call_opt_def conns(1))
    then have close: "TcpConnection_handleClose call c ?w1 = Ok w2" using 1(1) by simp
    note d2 = attachedD [OF 1(2)]
    have "attached c (w2\<lparr>k_reads := stl (k_reads w2)\<rparr>) p2 ?k ?ch2" by (rule attached_kernel [OF 1(2)]) simp_all
    from attached_in_loop(2) [OF this]
    have again: "TcpConnection_handleClose call c (w2\<lparr>k_reads := stl (k_reads w2)\<rparr>) = Fault AssertFailed"
      using d2(1) by (simp add: TcpConnection_handleClose_def with_conn_def assertion_def check_def)
    have read: "TcpConnection_handleRead call c w2 = Fault AssertFailed"
      using d2(1,5) conns eof again
      by (simp add: TcpConnection_handleRead_def with_conn_def with_chan_def sys_read_def)
    have hr: "has_revents ?ch1 = has_revents ch" "has_revents ?ch2 = has_revents ch"
      by (auto simp: has_revents_def fun_eq_iff)
    show ?thesis
      using d d2(5) close read fire slots ev ev' hr
      by (simp add: Channel_handleEvent_def chan_if_def fire_slot_def loop_access skip_def)
  qed
qed

definition hangup_net :: net where
  "hangup_net = (example_net kConnected [] (sconst 1))\<lparr>k_reads := sconst (Some []),
     w_heap := [3 \<mapsto> (example_channel [])\<lparr>ch_revents := POLLHUP\<rparr>]\<rparr>"

definition fire_conn :: "'z call_fn \<Rightarrow> callback \<Rightarrow> 'z net_stmt" where
  "fire_conn call cb = (case cb of
       Cb_TcpConnection_handleRead c \<Rightarrow> TcpConnection_handleRead call c
     | Cb_TcpConnection_handleWrite c \<Rightarrow> TcpConnection_handleWrite c
     | Cb_TcpConnection_handleClose c \<Rightarrow> TcpConnection_handleClose call c
     | Cb_TcpConnection_handleError c \<Rightarrow> TcpConnection_handleError c
     | _ \<Rightarrow> skip)"

theorem hangup_aborts_witness:
  "Channel_handleEvent (fire_conn (\<lambda>_ _ _. skip)) 3 hangup_net = Fault AssertFailed"
proof -
  let ?ch = "(example_channel [])\<lparr>ch_revents := POLLHUP\<rparr>"
  have "attached 0 (example_net kConnected [] (sconst 1)) (example_conn_poller []) (example_conn kConnected []) (example_channel [])"
    using example_established unfolding established_def by blast
  then have "attached 0 ((example_net kConnected [] (sconst 1))\<lparr>w_heap :=
      (w_heap (example_net kConnected [] (sconst 1)))(tc_channel (example_conn kConnected []) \<mapsto> ?ch)\<rparr>)
      (example_conn_poller []) (example_conn kConnected []) ?ch"
    by (rule attached_chan_field) simp_all
  then have at: "attached 0 hangup_net (example_conn_poller []) (example_conn kConnected []) ?ch"
    by (rule attached_kernel) (simp_all add: hangup_net_def)
  have "Channel_handleEvent (fire_conn (\<lambda>_ _ _. skip)) (tc_channel (example_conn kConnected [])) hangup_net =
      Fault AssertFailed"
  proof (rule hangup_aborts [OF at, of "Cb_user 1" "\<lambda>_ _ _. skip"])
    show "0 < tc_refs (example_conn kConnected [])" by (simp add: example_conn_def new_connection_def)
  qed (simp_all add: example_channel_def has_revents_def poll_flags hangup_net_def fire_conn_def)
  then show ?thesis by simp
qed

end
