(* ===== verification/EventLoopThreadPool.thy ===== *)
theory EventLoopThreadPool
  imports TcpLifecycle
begin

text \<open>
  \<open>EventLoopThread.cpp\<close> and \<open>EventLoopThreadPool.cpp\<close>: starting a loop on a thread of its
  own, the pool of such loops, and the choice of the loop for the next connection.
\<close>

section \<open>A loop on its own thread\<close>

record loop_thread =
  lt_loop :: "loop_id option"
  lt_exiting :: bool
  lt_hasCallback :: bool

definition EventLoopThread_new :: "bool \<Rightarrow> loop_thread" where
  "EventLoopThread_new cb = \<lparr>lt_loop = None, lt_exiting = False, lt_hasCallback = cb\<rparr>"

text \<open>A statement executed by thread \<open>t\<close>.\<close>

definition on_thread :: "nat \<Rightarrow> ('cb, 'f, 'z) world_scheme stmt \<Rightarrow> ('cb, 'f, 'z) world_scheme stmt" where
  "on_thread t s w =
     (case s (w\<lparr>w_thread := t\<rparr>) of Inl e \<Rightarrow> Fault e | Inr w' \<Rightarrow> Ok (w'\<lparr>w_thread := w_thread w\<rparr>))"

text \<open>
  What the system gives a new thread: its identity, the address of its \<open>EventLoop\<close> and of
  the loop's wake-up channel, and the wake-up pipe.
\<close>

type_synonym thread_resources = "nat \<times> loop_id \<times> chan_id \<times> (int \<times> int)"

text \<open>
  \<open>startLoop\<close>: the new thread constructs its loop, runs the init callback and publishes the
  loop, for which the caller waits; the thread then enters \<open>loop()\<close>. The result is the
  published loop.
\<close>

definition EventLoopThread_startLoop :: "(loop_id \<Rightarrow> 'z net_stmt) \<Rightarrow> thread_resources \<Rightarrow> loop_thread \<Rightarrow>
    'z net_scheme \<Rightarrow> (loop_id \<times> loop_thread \<times> 'z net_scheme) res" where
  "EventLoopThread_startLoop init res lt w = (case res of (t, l, chan, fds) \<Rightarrow>
     (case on_thread t (block
        [EventLoop_new l chan 0 (Some fds) (Cb_EventLoop_handleRead l),
         if lt_hasCallback lt then init l else skip]) w of
        Inl e \<Rightarrow> Fault e
      | Inr w' \<Rightarrow> Ok (l, lt\<lparr>lt_loop := Some l\<rparr>, w')))"

text \<open>
  After publishing its loop the thread enters \<open>loop()\<close>, where it clears \<open>quit_\<close> and goes into
  the first \<open>poll\<close>. Nothing makes the owner wait for that.
\<close>

definition threadFunc_enters :: "loop_id \<Rightarrow> ('cb, 'f, 'z) world_scheme stmt" where
  "threadFunc_enters l = with_loop l (\<lambda>el. on_thread (el_threadId el) (EventLoop_enter l))"

text \<open>
  The destructor calls \<open>quit\<close> and joins the thread; \<open>finish l\<close> is what the thread of loop \<open>l\<close>
  still does. That is the rest of \<open>threadFunc\<close>: a thread that is in \<open>loop()\<close> comes back from
  the \<open>poll\<close> it waits in and goes on until it sees \<open>quit_\<close>; a thread that is not there yet
  enters \<open>loop()\<close> first. It then destroys its loop. \<open>polls l\<close> is what its polls from now on
  report. If it is still in the loop after the last of them, \<open>join\<close> has not returned. All
  interleavings of the owner and the thread are the subject of \<open>LoopThread\<close>.
\<close>

definition EventLoopThread_destroy :: "(loop_id \<Rightarrow> ('cb, 'f, 'z) world_scheme stmt) \<Rightarrow> loop_thread \<Rightarrow>
    ('cb, 'f, 'z) world_scheme stmt" where
  "EventLoopThread_destroy finish lt =
     (case lt_loop lt of None \<Rightarrow> skip | Some l \<Rightarrow> block [EventLoop_quit l, finish l])"

definition threadFunc_end :: "('cb \<Rightarrow> ('cb, 'f, 'z) world_scheme stmt) \<Rightarrow> ('f \<Rightarrow> ('cb, 'f, 'z) world_scheme stmt) \<Rightarrow>
    ('f \<Rightarrow> ('cb, 'f, 'z) world_scheme stmt) \<Rightarrow> (loop_id \<Rightarrow> (int \<times> 16 word list) list) \<Rightarrow> loop_id \<Rightarrow>
    ('cb, 'f, 'z) world_scheme stmt" where
  "threadFunc_end fire exec release polls l = with_loop l (\<lambda>el. on_thread (el_threadId el) (block
     [if el_looping el then
        (case polls l of
           [] \<Rightarrow> skip
         | k # ks \<Rightarrow> block
             [EventLoop_turn fire exec release l k,
              EventLoop_while fire exec release l ks,
              with_loop l (\<lambda>el. if el_quit el then upd_loop l (\<lambda>el. el\<lparr>el_looping := False\<rparr>) else skip)])
      else EventLoop_loop fire exec release l (polls l),
      with_loop l (\<lambda>el. if el_looping el then (\<lambda>w. Fault Blocked) else skip),
      EventLoop_destroy release l]))"

section \<open>The pool\<close>

record loop_pool =
  lp_baseLoop :: loop_id
  lp_started :: bool
  lp_numThreads :: int
  lp_next :: nat
  lp_threads :: "loop_thread list"
  lp_loops :: "loop_id list"

definition EventLoopThreadPool_new :: "loop_id \<Rightarrow> loop_pool" where
  "EventLoopThreadPool_new baseLoop = \<lparr>lp_baseLoop = baseLoop, lp_started = False, lp_numThreads = 0,
     lp_next = 0, lp_threads = [], lp_loops = []\<rparr>"

definition EventLoopThreadPool_setThreadNum :: "int \<Rightarrow> loop_pool \<Rightarrow> loop_pool" where
  "EventLoopThreadPool_setThreadNum n lp = lp\<lparr>lp_numThreads := n\<rparr>"

text \<open>The loop of \<open>start\<close>; \<open>res\<close> is what the system gives the \<open>n\<close> threads.\<close>

fun start_threads :: "(loop_id \<Rightarrow> 'z net_stmt) \<Rightarrow> bool \<Rightarrow> thread_resources list \<Rightarrow> loop_pool \<Rightarrow>
    'z net_scheme \<Rightarrow> (loop_pool \<times> 'z net_scheme) res" where
  "start_threads init cb [] lp w = Ok (lp, w)"
| "start_threads init cb (r # rs) lp w =
     (case EventLoopThread_startLoop init r (EventLoopThread_new cb) w of
        Inl e \<Rightarrow> Fault e
      | Inr (l, lt, w') \<Rightarrow>
          start_threads init cb rs (lp\<lparr>lp_loops := lp_loops lp @ [l], lp_threads := lp_threads lp @ [lt]\<rparr>) w')"

definition EventLoopThreadPool_start :: "(loop_id \<Rightarrow> 'z net_stmt) option \<Rightarrow> thread_resources list \<Rightarrow> loop_pool \<Rightarrow>
    'z net_scheme \<Rightarrow> (loop_pool \<times> 'z net_scheme) res" where
  "EventLoopThreadPool_start cb rs lp w =
     (if lp_started lp then Fault AssertFailed
      else (case EventLoop_assertInLoopThread (lp_baseLoop lp) w of
        Inl e \<Rightarrow> Fault e
      | Inr _ \<Rightarrow>
          (case start_threads (case cb of None \<Rightarrow> (\<lambda>l. skip) | Some init \<Rightarrow> init) (cb \<noteq> None)
                  (take (nat (lp_numThreads lp)) rs) lp w of
             Inl e \<Rightarrow> Fault e
           | Inr (lp', w') \<Rightarrow>
               (case (if lp_numThreads lp = 0 then (case cb of None \<Rightarrow> skip | Some init \<Rightarrow> init (lp_baseLoop lp))
                      else skip) w' of
                  Inl e \<Rightarrow> Fault e
                | Inr w'' \<Rightarrow> Ok (lp'\<lparr>lp_started := True\<rparr>, w'')))))"

text \<open>The destructor: the threads go in the order in which they were started.\<close>

definition EventLoopThreadPool_destroy :: "(loop_id \<Rightarrow> ('cb, 'f, 'z) world_scheme stmt) \<Rightarrow> loop_pool \<Rightarrow>
    ('cb, 'f, 'z) world_scheme stmt" where
  "EventLoopThreadPool_destroy finish lp = block (map (EventLoopThread_destroy finish) (lp_threads lp))"

text \<open>The guard of the three accessors.\<close>

definition pool_guard :: "loop_pool \<Rightarrow> ('cb, 'f, 'z) world_scheme stmt" where
  "pool_guard lp = block
     [EventLoop_assertInLoopThread (lp_baseLoop lp), assertion (\<lambda>w. lp_started lp)]"

definition EventLoopThreadPool_getNextLoop :: "loop_pool \<Rightarrow> ('cb, 'f, 'z) world_scheme \<Rightarrow> (loop_id \<times> loop_pool) res" where
  "EventLoopThreadPool_getNextLoop lp w =
     (case pool_guard lp w of
        Inl e \<Rightarrow> Fault e
      | Inr _ \<Rightarrow>
          if lp_loops lp = [] then Ok (lp_baseLoop lp, lp)
          else if lp_next lp < length (lp_loops lp) then
            (let next' = Suc (lp_next lp)
             in Ok (lp_loops lp ! lp_next lp,
                    lp\<lparr>lp_next := if length (lp_loops lp) \<le> next' then 0 else next'\<rparr>))
          else Fault UndefinedBehaviour)"

definition EventLoopThreadPool_getLoopAtIndex :: "nat \<Rightarrow> loop_pool \<Rightarrow> ('cb, 'f, 'z) world_scheme \<Rightarrow> loop_id res" where
  "EventLoopThreadPool_getLoopAtIndex index lp w =
     (case pool_guard lp w of
        Inl e \<Rightarrow> Fault e
      | Inr _ \<Rightarrow> Ok (if lp_loops lp = [] then lp_baseLoop lp else lp_loops lp ! (index mod length (lp_loops lp))))"

definition EventLoopThreadPool_getAllLoops :: "loop_pool \<Rightarrow> ('cb, 'f, 'z) world_scheme \<Rightarrow> loop_id list res" where
  "EventLoopThreadPool_getAllLoops lp w =
     (case pool_guard lp w of
        Inl e \<Rightarrow> Fault e
      | Inr _ \<Rightarrow> Ok (if lp_loops lp \<noteq> [] then lp_loops lp else [lp_baseLoop lp]))"

section \<open>Round robin as an interface\<close>

text \<open>The results of \<open>n\<close> picks.\<close>

primrec repeat_pick :: "('p \<Rightarrow> ('l \<times> 'p) res) \<Rightarrow> nat \<Rightarrow> 'p \<Rightarrow> 'l list res" where
  "repeat_pick pick 0 p = Ok []"
| "repeat_pick pick (Suc n) p = (case pick p of
     Inl e \<Rightarrow> Fault e
   | Inr (l, p') \<Rightarrow> (case repeat_pick pick n p' of Inl e \<Rightarrow> Fault e | Inr ls \<Rightarrow> Ok (l # ls)))"

text \<open>What the server relies on: the loops are handed out in turn.\<close>

locale turn_taking =
  fixes ok :: "'p \<Rightarrow> bool" and pick :: "'p \<Rightarrow> ('l \<times> 'p) res" and ring :: "'p \<Rightarrow> 'l list" and pos :: "'p \<Rightarrow> nat"
  assumes pos_less: "ok p \<Longrightarrow> pos p < length (ring p)"
    and pick_ok: "ok p \<Longrightarrow> \<exists>p'. pick p = Ok (ring p ! pos p, p') \<and> ok p' \<and> ring p' = ring p \<and>
       pos p' = Suc (pos p) mod length (ring p)"
begin

lemma picks_eq:
  "ok p \<Longrightarrow> repeat_pick pick n p = Ok (map (\<lambda>i. ring p ! ((pos p + i) mod length (ring p))) [0..<n])"
proof (induction n arbitrary: p)
  case 0
  then show ?case by simp
next
  case (Suc n)
  obtain p' where p': "pick p = Ok (ring p ! pos p, p')" "ok p'" "ring p' = ring p"
    "pos p' = Suc (pos p) mod length (ring p)"
    using pick_ok [OF Suc.prems] by blast
  have "[0..<Suc n] = 0 # map Suc [0..<n]" by (simp add: upt_conv_Cons map_Suc_upt)
  with Suc.IH [OF p'(2)] p' pos_less [OF Suc.prems] show ?case
    by (simp add: mod_add_left_eq comp_def)
qed

end

text \<open>The pool with its world: started, inside the base loop's thread, with loops of its own.\<close>

definition pool_ready :: "('cb, 'f, 'z) world_scheme \<Rightarrow> loop_pool \<Rightarrow> bool" where
  "pool_ready w lp \<longleftrightarrow> pool_guard lp w = Ok w \<and> lp_next lp < length (lp_loops lp)"

interpretation pool: turn_taking "pool_ready w" "\<lambda>lp. EventLoopThreadPool_getNextLoop lp w" lp_loops lp_next for w
proof unfold_locales
  fix lp :: loop_pool
  assume r: "pool_ready w lp"
  then show "lp_next lp < length (lp_loops lp)" by (simp add: pool_ready_def)
  let ?lp = "lp\<lparr>lp_next := Suc (lp_next lp) mod length (lp_loops lp)\<rparr>"
  have "(if length (lp_loops lp) \<le> Suc (lp_next lp) then 0 else Suc (lp_next lp)) =
      Suc (lp_next lp) mod length (lp_loops lp)"
    using r by (auto simp: pool_ready_def mod_Suc)
  then have "EventLoopThreadPool_getNextLoop lp w = Ok (lp_loops lp ! lp_next lp, ?lp)"
    using r by (auto simp: EventLoopThreadPool_getNextLoop_def pool_ready_def Let_def)
  moreover have "0 < length (lp_loops lp)" using r by (auto simp: pool_ready_def)
  from mod_less_divisor [OF this, of "Suc (lp_next lp)"] have "pool_ready w ?lp"
    using r by (simp add: pool_ready_def pool_guard_def)
  ultimately show "\<exists>p'. EventLoopThreadPool_getNextLoop lp w = Ok (lp_loops lp ! lp_next lp, p') \<and> pool_ready w p' \<and>
      lp_loops p' = lp_loops lp \<and> lp_next p' = Suc (lp_next lp) mod length (lp_loops lp)"
    by (intro exI [of _ ?lp]) simp
qed

section \<open>Properties\<close>

text \<open>
  New connections are spread over the pool's loops in turn: the \<open>i\<close>-th of \<open>n\<close>
  successive calls of \<open>getNextLoop\<close> returns the loop \<open>i\<close> places after the current one,
  cyclically; so any \<open>n\<close> calls, \<open>n\<close> the number of loops, give every loop once.
\<close>

theorem getNextLoop_round_robin:
  assumes "pool_guard lp w = Ok w" "lp_next lp < length (lp_loops lp)"
  shows "repeat_pick (\<lambda>lp. EventLoopThreadPool_getNextLoop lp w) n lp =
    Ok (map (\<lambda>i. lp_loops lp ! ((lp_next lp + i) mod length (lp_loops lp))) [0..<n])"
  by (rule pool.picks_eq) (use assms in \<open>simp add: pool_ready_def\<close>)

definition example_pool :: loop_pool where
  "example_pool = \<lparr>lp_baseLoop = 4, lp_started = True, lp_numThreads = 3, lp_next = 1, lp_threads = [], lp_loops = [5, 6, 7]\<rparr>"

theorem getNextLoop_round_robin_witness:
  "repeat_pick (\<lambda>lp. EventLoopThreadPool_getNextLoop lp (example_net kConnected [] (sconst 1))) 4 example_pool =
     Ok [6, 7, 5, 6]"
proof -
  have "pool_guard example_pool (example_net kConnected [] (sconst 1)) = Ok (example_net kConnected [] (sconst 1))"
    by (simp add: pool_guard_def example_pool_def EventLoop_assertInLoopThread_def loop_access check_def
        assertion_def example_net_def)
  from getNextLoop_round_robin [OF this, of 4] show ?thesis
    by (simp add: example_pool_def upt_rec)
qed

end
