(* ===== verification/Acceptor.thy ===== *)
theory Acceptor
  imports EventLoopThreadPool
begin

text \<open>
  \<open>Acceptor.cpp\<close>, with the parts of \<open>Socket.cpp\<close> it uses: the listening socket and the
  channel that accepts connections. The world gets the acceptor object and the kernel's side
  of listening: the addresses bound, the sockets that listen and what each successive
  \<open>accept\<close> returns (a negative number: it fails).
\<close>

record acceptor =
  ac_loop :: loop_id
  ac_acceptSocket :: int
  ac_acceptChannel :: chan_id
  ac_newConnectionCallback :: bool
  ac_listening :: bool
  ac_idleFd :: int

record acceptor_net = net +
  n_acceptor :: "acceptor option"
  k_bound :: "(int \<times> sockaddr_in) list"
  k_listening :: "int list"
  k_accepts :: "(int \<times> sockaddr_in) stream"

definition with_acceptor :: "(acceptor \<Rightarrow> 'z acceptor_net_scheme stmt) \<Rightarrow> 'z acceptor_net_scheme stmt" where
  "with_acceptor s w = (case n_acceptor w of None \<Rightarrow> Fault UseAfterFree | Some a \<Rightarrow> s a w)"

definition upd_acceptor :: "(acceptor \<Rightarrow> acceptor) \<Rightarrow> 'z acceptor_net_scheme stmt" where
  "upd_acceptor g = with_acceptor (\<lambda>a w. Ok (w\<lparr>n_acceptor := Some (g a)\<rparr>))"

definition Acceptor_setNewConnectionCallback :: "acceptor \<Rightarrow> acceptor" where
  [simp]: "Acceptor_setNewConnectionCallback a = a\<lparr>ac_newConnectionCallback := True\<rparr>"

definition Socket_bindAddress :: "int \<Rightarrow> sockaddr_in \<Rightarrow> 'z acceptor_net_scheme stmt" where
  "Socket_bindAddress fd addr = modify (\<lambda>w. w\<lparr>k_bound := k_bound w @ [(fd, addr)]\<rparr>)"

definition Socket_listen :: "int \<Rightarrow> 'z acceptor_net_scheme stmt" where
  "Socket_listen fd = modify (\<lambda>w. w\<lparr>k_listening := k_listening w @ [fd]\<rparr>)"

text \<open>\<open>accept\<close>: \<open>peeraddr\<close> is what the address pointed to holds before; the continuation gets
  the result and what it holds afterwards.\<close>

definition Socket_accept :: "int \<Rightarrow> sockaddr_in \<Rightarrow> (int \<Rightarrow> sockaddr_in \<Rightarrow> 'z acceptor_net_scheme stmt) \<Rightarrow>
    'z acceptor_net_scheme stmt" where
  "Socket_accept fd peeraddr k w = (let (connfd, addr) = shd (k_accepts w); w1 = w\<lparr>k_accepts := stl (k_accepts w)\<rparr> in
     if connfd < 0 then k (-1) peeraddr w1
     else k connfd (InetAddress_setSockAddrIn addr peeraddr) (w1\<lparr>k_socks := setNonBlockAndCloseOnExec connfd
       ((k_socks w)(connfd := accepted_socket (k_socks w connfd)))\<rparr>))"

text \<open>
  The constructor: \<open>chan\<close> is the address of the member \<open>acceptChannel_\<close>, \<open>sock\<close> and
  \<open>idle\<close> the results of \<open>socket\<close> and \<open>open\<close>.
\<close>

definition Acceptor_new :: "chan_id \<Rightarrow> int \<Rightarrow> int \<Rightarrow> loop_id \<Rightarrow> sockaddr_in \<Rightarrow> bool \<Rightarrow> 'z acceptor_net_scheme stmt" where
  "Acceptor_new chan sock idle loop listenAddr reusePort = block
     [modify (\<lambda>w. w\<lparr>w_heap := (w_heap w)(chan \<mapsto> Channel_new loop sock),
        k_socks := (k_socks w)(sock := new_socket),
        n_acceptor := Some \<lparr>ac_loop = loop, ac_acceptSocket = sock, ac_acceptChannel = chan,
          ac_newConnectionCallback = False, ac_listening = False, ac_idleFd = idle\<rparr>\<rparr>),
      assertion (\<lambda>w. 0 \<le> idle),
      if_then (\<lambda>w. reusePort) (modify (\<lambda>w. w\<lparr>k_socks := Socket_setReuseAddr sock True (k_socks w)\<rparr>)),
      Socket_bindAddress sock listenAddr,
      upd_chan chan (Channel_setReadCallback Cb_Acceptor_handleRead)]"

definition Acceptor_listen :: "'z acceptor_net_scheme stmt" where
  "Acceptor_listen = with_acceptor (\<lambda>a. block
     [EventLoop_assertInLoopThread (ac_loop a),
      upd_acceptor (\<lambda>a. a\<lparr>ac_listening := True\<rparr>),
      Socket_listen (ac_acceptSocket a),
      Channel_enableReading (ac_acceptChannel a)])"

definition close_fd :: "int \<Rightarrow> 'z net_scheme stmt" where
  "close_fd fd = modify (\<lambda>w. w\<lparr>k_closed := k_closed w @ [fd]\<rparr>)"

text \<open>\<open>newConnection\<close> is the callback \<open>newConnectionCallback_\<close>.\<close>

definition Acceptor_handleRead :: "(int \<Rightarrow> sockaddr_in \<Rightarrow> 'z acceptor_net_scheme stmt) \<Rightarrow> 'z acceptor_net_scheme stmt" where
  "Acceptor_handleRead newConnection = with_acceptor (\<lambda>a. block
     [EventLoop_assertInLoopThread (ac_loop a),
      Socket_accept (ac_acceptSocket a) (InetAddress_any 0) (\<lambda>connfd peerAddr.
        if 0 \<le> connfd
        then (if ac_newConnectionCallback a then newConnection connfd peerAddr else close_fd connfd)
        else skip)])"

text \<open>The destructor, then the members in reverse order of declaration.\<close>

definition Acceptor_destroy :: "'z acceptor_net_scheme stmt" where
  "Acceptor_destroy = with_acceptor (\<lambda>a. block
     [Channel_disableAll (ac_acceptChannel a),
      Channel_remove (ac_acceptChannel a),
      close_fd (ac_idleFd a),
      Channel_destroy (ac_acceptChannel a),
      Socket_destroy (ac_acceptSocket a),
      modify (\<lambda>w. w\<lparr>n_acceptor := None\<rparr>)])"

lemmas acceptor_access = with_acceptor_def upd_acceptor_def

section \<open>Accepting\<close>

text \<open>What \<open>accept\<close> leaves alone of the world that its continuation runs in.\<close>

lemma Socket_accept_result:
  assumes "Socket_accept fd peeraddr k w = Ok w'"
  shows "\<exists>connfd peer w1. k connfd peer w1 = Ok w' \<and> w_loops w1 = w_loops w \<and> n_conns w1 = n_conns w \<and>
    acceptor_net.more w1 = acceptor_net.more w"
proof (cases "shd (k_accepts w)")
  case (Pair cf pr)
  show ?thesis
  proof (cases "cf < 0")
    case True
    then show ?thesis
      using assms Pair by (intro exI [of _ "-1"] exI [of _ peeraddr] exI [of _ "w\<lparr>k_accepts := stl (k_accepts w)\<rparr>"])
        (simp add: Socket_accept_def)
  next
    case False
    then show ?thesis
      using assms Pair by (intro exI [of _ cf] exI [of _ "InetAddress_setSockAddrIn pr peeraddr"] exI [of _ "w\<lparr>k_accepts := stl (k_accepts w),
        k_socks := setNonBlockAndCloseOnExec cf ((k_socks w)(cf := accepted_socket (k_socks w cf)))\<rparr>"])
        (simp add: Socket_accept_def)
  qed
qed

lemma handleRead_accepts:
  assumes "n_acceptor w = Some a" "EventLoop_assertInLoopThread (ac_loop a) w = Ok w"
    "shd (k_accepts w) = (fd, peer)" "0 \<le> fd" "ac_newConnectionCallback a"
  shows "Acceptor_handleRead newConnection w = newConnection fd peer (w\<lparr>k_accepts := stl (k_accepts w),
    k_socks := setNonBlockAndCloseOnExec fd ((k_socks w)(fd := accepted_socket (k_socks w fd)))\<rparr>)"
  using assms by (simp add: Acceptor_handleRead_def acceptor_access Socket_accept_def split: sum.splits)


text \<open>
  C21. The acceptor's event on every branch. An accepted descriptor is non-blocking and closed on
  \<open>exec\<close>, as the comment of \<open>Socket::accept\<close> promises, when it is passed on with its
  peer's address or, without a callback, closed; no other socket is touched. A failed \<open>accept\<close>
  has no effect.
\<close>

theorem accept_event_contract:
  assumes "n_acceptor w = Some a" "EventLoop_assertInLoopThread (ac_loop a) w = Ok w"
    "shd (k_accepts w) = (fd, peer)"
  shows "\<exists>w1. Acceptor_handleRead newConnection w =
      (if fd < 0 then Ok (w\<lparr>k_accepts := stl (k_accepts w)\<rparr>)
       else if ac_newConnectionCallback a then newConnection fd peer w1
       else Ok (w1\<lparr>k_closed := k_closed w @ [fd]\<rparr>)) \<and>
    w1 = w\<lparr>k_accepts := stl (k_accepts w), k_socks := k_socks w1\<rparr> \<and>
    nonblocking (k_socks w1 fd) \<and> close_on_exec (k_socks w1 fd) \<and>
    sa_options (k_socks w1 fd) = sa_options (k_socks w fd) \<and> (\<forall>fd'. fd' \<noteq> fd \<longrightarrow> k_socks w1 fd' = k_socks w fd')"
  using assms
  by (intro exI [of _ "w\<lparr>k_accepts := stl (k_accepts w),
        k_socks := setNonBlockAndCloseOnExec fd ((k_socks w)(fd := accepted_socket (k_socks w fd)))\<rparr>"])
    (simp add: Acceptor_handleRead_def acceptor_access Socket_accept_def close_fd_def modify_def skip_def
      setNonBlockAndCloseOnExec_sets(1,2,4), simp add: setNonBlockAndCloseOnExec_sets(3) accepted_socket_def
      split: sum.splits)

text \<open>An acceptor on descriptor \<open>5\<close> without a callback.\<close>

definition example_acceptor :: acceptor where
  "example_acceptor = \<lparr>ac_loop = 4, ac_acceptSocket = 5, ac_acceptChannel = 6, ac_newConnectionCallback = False,
     ac_listening = True, ac_idleFd = 12\<rparr>"

definition example_acceptor_net :: acceptor_net where
  "example_acceptor_net = net.extend (example_net kConnected [] (sconst 9))
     (acceptor_net.fields (Some example_acceptor) [] [] (sconst (8, InetAddress_any 90)))"

lemma example_acceptor_net_simps [simp]:
  "n_acceptor example_acceptor_net = Some example_acceptor" "k_accepts example_acceptor_net = sconst (8, InetAddress_any 90)"
  "k_closed example_acceptor_net = []" "w_loops example_acceptor_net = w_loops (example_net kConnected [] (sconst 9))"
  "w_thread example_acceptor_net = 1"
  by (simp_all add: example_acceptor_net_def net.defs acceptor_net.defs)

theorem accept_event_contract_witness:
  "\<exists>w'. Acceptor_handleRead (\<lambda>_ _. skip) example_acceptor_net = Ok w' \<and>
    k_closed w' = [8] \<and> nonblocking (k_socks w' 8) \<and> close_on_exec (k_socks w' 8)"
proof -
  have "EventLoop_assertInLoopThread (ac_loop example_acceptor) example_acceptor_net = Ok example_acceptor_net"
    by (simp add: EventLoop_assertInLoopThread_def loop_access check_def EventLoop_isInLoopThread_def
        example_acceptor_def example_net_def)
  from accept_event_contract [OF _ this, of 8 "InetAddress_any 90" "\<lambda>_ _. skip"] show ?thesis
    by (auto simp: example_acceptor_def)
qed

text \<open>
  The constructor's flag \<open>reusePort\<close> lets the address be reused, not the port: the option
  \<open>SO_REUSEPORT\<close> is never set.
\<close>

lemma Acceptor_new_options:
  assumes "0 \<le> idle"
  shows "\<exists>w'. Acceptor_new chan sock idle loop listenAddr reusePort w = Ok w' \<and>
    k_socks w' = (k_socks w)(sock := new_socket\<lparr>sa_options := (\<lambda>opt. if reusePort \<and> opt = SO_REUSEADDR then 1 else 0)\<rparr>)"
  using assms
  by (cases reusePort) (simp_all add: Acceptor_new_def modify_def assertion_def check_def if_then_def
      Socket_bindAddress_def loop_access Socket_setReuseAddr_def new_socket_option)

end
