(* ===== verification/TcpServer.thy ===== *)
theory TcpServer
  imports Acceptor "HOL-Library.AList" "HOL-Library.List_Lexorder" "HOL-Library.Char_ord"
begin

text \<open>
  \<open>TcpServer.cpp\<close>: accepting connections, handing them to the loops of the pool, and
  removing them when they close. The connection map is an association list from connection
  names to connections, each entry holding one reference. The world gets the server object
  and the addresses that successive \<open>new TcpConnection\<close> give to the connection and its
  channel.
\<close>

section \<open>State and operations\<close>

record tcp_server =
  sv_loop :: loop_id
  sv_ipPort :: string
  sv_name :: string
  sv_threadPool :: loop_pool
  sv_started :: bool
  sv_nextConnId :: nat
  sv_connections :: "(string \<times> conn_id) list"
  sv_connectionCallback :: conn_callback
  sv_messageCallback :: conn_callback
  sv_threadInitCallback :: bool
  sv_listenAddr :: sockaddr_in

record server_net = acceptor_net +
  n_server :: "tcp_server option"
  n_alloc :: "(conn_id \<times> chan_id) stream"

definition with_server :: "(tcp_server \<Rightarrow> 'z server_net_scheme stmt) \<Rightarrow> 'z server_net_scheme stmt" where
  "with_server s w = (case n_server w of None \<Rightarrow> Fault UseAfterFree | Some sv \<Rightarrow> s sv w)"

definition upd_server :: "(tcp_server \<Rightarrow> tcp_server) \<Rightarrow> 'z server_net_scheme stmt" where
  "upd_server g = with_server (\<lambda>sv w. Ok (w\<lparr>n_server := Some (g sv)\<rparr>))"

type_synonym 'z server_exec = "loop_functor \<Rightarrow> 'z server_net_scheme stmt"
type_synonym 'z server_call = "conn_callback \<Rightarrow> conn_id \<Rightarrow> byte list \<Rightarrow> 'z server_net_scheme stmt"

definition TcpServer_new :: "chan_id \<Rightarrow> int \<Rightarrow> int \<Rightarrow> loop_id \<Rightarrow> sockaddr_in \<Rightarrow> string \<Rightarrow> bool \<Rightarrow>
    'z server_net_scheme stmt" where
  "TcpServer_new chan sock idle loop listenAddr name reusePort =
     (case InetAddress_toIpPort listenAddr of
        Inl e \<Rightarrow> (\<lambda>w. Fault e)
      | Inr ipPort \<Rightarrow> block
          [Acceptor_new chan sock idle loop listenAddr reusePort,
           modify (\<lambda>w. w\<lparr>n_server := Some
             \<lparr>sv_loop = loop, sv_ipPort = ipPort, sv_name = name,
              sv_threadPool = EventLoopThreadPool_new loop, sv_started = False, sv_nextConnId = 1,
              sv_connections = [], sv_connectionCallback = defaultConnectionCallback,
              sv_messageCallback = defaultMessageCallback, sv_threadInitCallback = False,
              sv_listenAddr = listenAddr\<rparr>\<rparr>),
           upd_acceptor Acceptor_setNewConnectionCallback])"

definition TcpServer_setThreadNum :: "int \<Rightarrow> 'z server_net_scheme stmt" where
  "TcpServer_setThreadNum numThreads = block
     [assertion (\<lambda>w. 0 \<le> numThreads),
      upd_server (\<lambda>sv. sv\<lparr>sv_threadPool := EventLoopThreadPool_setThreadNum numThreads (sv_threadPool sv)\<rparr>)]"

definition TcpServer_setConnectionCallback :: "conn_callback \<Rightarrow> 'z server_net_scheme stmt" where
  "TcpServer_setConnectionCallback cb = upd_server (\<lambda>sv. sv\<lparr>sv_connectionCallback := cb\<rparr>)"

definition TcpServer_setMessageCallback :: "conn_callback \<Rightarrow> 'z server_net_scheme stmt" where
  "TcpServer_setMessageCallback cb = upd_server (\<lambda>sv. sv\<lparr>sv_messageCallback := cb\<rparr>)"

definition TcpServer_setThreadInitCallback :: "'z server_net_scheme stmt" where
  "TcpServer_setThreadInitCallback = upd_server (\<lambda>sv. sv\<lparr>sv_threadInitCallback := True\<rparr>)"

definition pool_start :: "(loop_id \<Rightarrow> 'z server_net_scheme stmt) \<Rightarrow> thread_resources list \<Rightarrow> 'z server_net_scheme stmt" where
  "pool_start init rs = with_server (\<lambda>sv w.
     case EventLoopThreadPool_start (if sv_threadInitCallback sv then Some init else None) rs (sv_threadPool sv) w of
       Inl e \<Rightarrow> Fault e
     | Inr (lp, w') \<Rightarrow> upd_server (\<lambda>sv. sv\<lparr>sv_threadPool := lp\<rparr>) w')"

definition TcpServer_start :: "'z server_exec \<Rightarrow> (loop_id \<Rightarrow> 'z server_net_scheme stmt) \<Rightarrow> thread_resources list \<Rightarrow>
    'z server_net_scheme stmt" where
  "TcpServer_start exec init rs = with_server (\<lambda>sv.
     if \<not> sv_started sv then block
       [pool_start init rs,
        with_acceptor (\<lambda>a. assertion (\<lambda>w. \<not> ac_listening a)),
        EventLoop_runInLoop exec (sv_loop sv) Fn_Acceptor_listen]
     else skip)"

text \<open>\<open>snprintf\<close> into \<open>buf[64]\<close>: at most 63 characters are kept.\<close>

definition conn_name :: "tcp_server \<Rightarrow> string" where
  "conn_name sv = sv_name sv @ take 63 (''-'' @ sv_ipPort sv @ ''#'' @ show_nat (sv_nextConnId sv))"

definition get_next_loop :: "(loop_id \<Rightarrow> 'z server_net_scheme stmt) \<Rightarrow> 'z server_net_scheme stmt" where
  "get_next_loop k = with_server (\<lambda>sv w.
     case EventLoopThreadPool_getNextLoop (sv_threadPool sv) w of
       Inl e \<Rightarrow> Fault e
     | Inr (l, lp) \<Rightarrow> block [upd_server (\<lambda>sv. sv\<lparr>sv_threadPool := lp\<rparr>), k l] w)"

text \<open>\<open>connections_[name] = c\<close>: an entry that is overwritten releases its connection.\<close>

definition insert_connection :: "string \<Rightarrow> conn_id \<Rightarrow> 'z server_net_scheme stmt" where
  "insert_connection name c = with_server (\<lambda>sv. block
     [conn_ref c,
      upd_server (\<lambda>sv. sv\<lparr>sv_connections := AList.update name c (sv_connections sv)\<rparr>),
      (case map_of (sv_connections sv) name of None \<Rightarrow> skip | Some old \<Rightarrow> conn_unref old)])"

definition TcpServer_newConnection :: "'z server_exec \<Rightarrow> int \<Rightarrow> sockaddr_in \<Rightarrow> 'z server_net_scheme stmt" where
  "TcpServer_newConnection exec connFd peerAddr = with_server (\<lambda>sv. block
     [EventLoop_assertInLoopThread (sv_loop sv),
      get_next_loop (\<lambda>ioLoop w.
        case shd (n_alloc w) of (c, chan) \<Rightarrow> block
          [modify (\<lambda>w. w\<lparr>n_alloc := stl (n_alloc w)\<rparr>),
           upd_server (\<lambda>sv. sv\<lparr>sv_nextConnId := Suc (sv_nextConnId sv)\<rparr>),
           TcpConnection_new c chan ioLoop connFd (sv_listenAddr sv) peerAddr (conn_name sv),
           insert_connection (conn_name sv) c,
           upd_conn c (\<lambda>k. TcpConnection_setCloseCallback Cb_TcpServer_removeConnection
             (TcpConnection_setMessageCallback (sv_messageCallback sv)
               (TcpConnection_setConnectionCallback (sv_connectionCallback sv) k))),
           run_bound exec ioLoop c (Fn_connectEstablished c),
           conn_unref c] w)])"

definition TcpServer_removeConnection :: "'z server_exec \<Rightarrow> conn_id \<Rightarrow> 'z server_net_scheme stmt" where
  "TcpServer_removeConnection exec c = with_server (\<lambda>sv.
     run_bound exec (sv_loop sv) c (Fn_TcpServer_removeConnectionInLoop c))"

definition TcpServer_removeConnectionInLoop :: "'z server_exec \<Rightarrow> conn_id \<Rightarrow> 'z server_net_scheme stmt" where
  "TcpServer_removeConnectionInLoop exec c = with_server (\<lambda>sv. block
     [EventLoop_assertInLoopThread (sv_loop sv),
      with_conn c (\<lambda>k. case map_of (sv_connections sv) (tc_name k) of
        None \<Rightarrow> (\<lambda>w. Fault AssertFailed)
      | Some old \<Rightarrow> block
          [upd_server (\<lambda>sv. sv\<lparr>sv_connections := AList.delete (tc_name k) (sv_connections sv)\<rparr>),
           conn_unref old,
           run_bound exec (tc_loop k) c (Fn_connectDestroyed c)])])"

text \<open>
  The destructor: every connection of the map, in the order of the names, loses the
  reference of the map; then the members go, the pool of threads before the acceptor.
\<close>

definition TcpServer_destroy :: "(loop_id \<Rightarrow> 'z server_net_scheme stmt) \<Rightarrow> 'z server_net_scheme stmt" where
  "TcpServer_destroy finish = with_server (\<lambda>sv. block
     [EventLoop_assertInLoopThread (sv_loop sv),
      block (map (\<lambda>item. conn_unref (snd item)) (sort_key fst (sv_connections sv))),
      upd_server (\<lambda>sv. sv\<lparr>sv_connections := []\<rparr>),
      EventLoopThreadPool_destroy finish (sv_threadPool sv),
      Acceptor_destroy,
      modify (\<lambda>w. w\<lparr>n_server := None\<rparr>)])"

section \<open>Tying the knot\<close>

text \<open>
  What the functors and callbacks of a server program do. A functor that runs in place may
  call a callback that runs a functor in place, and so on: \<open>n\<close> bounds the depth. \<open>user\<close> is
  the behaviour of the callbacks that the program installs.
\<close>

fun server_exec :: "'z server_call \<Rightarrow> nat \<Rightarrow> loop_functor \<Rightarrow> 'z server_net_scheme stmt"
  and server_call :: "'z server_call \<Rightarrow> nat \<Rightarrow> conn_callback \<Rightarrow> conn_id \<Rightarrow> byte list \<Rightarrow> 'z server_net_scheme stmt" where
  "server_exec user 0 f = (\<lambda>w. Fault DepthExceeded)"
| "server_exec user (Suc n) f = (case f of
     Fn_connectEstablished c \<Rightarrow> TcpConnection_connectEstablished (server_call user n) c
   | Fn_connectDestroyed c \<Rightarrow> TcpConnection_connectDestroyed (server_call user n) c
   | Fn_shutdownInLoop c \<Rightarrow> TcpConnection_shutdownInLoop c
   | Fn_sendInLoop c m \<Rightarrow> TcpConnection_sendInLoop c m
   | Fn_sendInLoopChar c m len \<Rightarrow> TcpConnection_sendInLoopChar c m len
   | Fn_TcpServer_removeConnectionInLoop c \<Rightarrow> TcpServer_removeConnectionInLoop (server_exec user n) c
   | Fn_Acceptor_listen \<Rightarrow> Acceptor_listen
   | _ \<Rightarrow> (\<lambda>w. Fault UndefinedBehaviour))"
| "server_call user 0 cb c buf = (\<lambda>w. Fault DepthExceeded)"
| "server_call user (Suc n) cb c buf = (case cb of
     defaultConnectionCallback \<Rightarrow> skip
   | defaultMessageCallback \<Rightarrow> skip
   | Cb_TcpServer_removeConnection \<Rightarrow> TcpServer_removeConnection (server_exec user n) c
   | _ \<Rightarrow> user cb c buf)"

definition server_fire :: "'z server_call \<Rightarrow> nat \<Rightarrow> callback \<Rightarrow> 'z server_net_scheme stmt" where
  "server_fire user n cb = (case cb of
     Cb_EventLoop_handleRead l \<Rightarrow> EventLoop_handleRead l
   | Cb_TcpConnection_handleRead c \<Rightarrow> TcpConnection_handleRead (server_call user n) c
   | Cb_TcpConnection_handleWrite c \<Rightarrow> TcpConnection_handleWrite c
   | Cb_TcpConnection_handleClose c \<Rightarrow> TcpConnection_handleClose (server_call user n) c
   | Cb_TcpConnection_handleError c \<Rightarrow> TcpConnection_handleError c
   | Cb_Acceptor_handleRead \<Rightarrow> Acceptor_handleRead (TcpServer_newConnection (server_exec user n))
   | _ \<Rightarrow> (\<lambda>w. Fault UndefinedBehaviour))"

lemmas server_access = with_server_def upd_server_def

section \<open>Removing a connection in the thread of its own loop\<close>

text \<open>
  When the server's loop is also the connection's loop, \<open>removeConnection\<close> runs to the end
  in place: the map's reference goes, then the functors' ones, and with the last the object.
\<close>

lemma removeConnection_in_place:
  assumes at: "attached c w p k ch" and st: "tc_state k = kDisconnected" "ch_events ch = kNoneEvent" "tc_refs k = 1"
    and sv: "n_server w = Some sv" "sv_loop sv = tc_loop k" "map_of (sv_connections sv) (tc_name k) = Some c"
    and exec: "exec (Fn_TcpServer_removeConnectionInLoop c) = TcpServer_removeConnectionInLoop exec' c"
      "exec' (Fn_connectDestroyed c) = TcpConnection_connectDestroyed call c"
  shows "\<exists>w'. pinned c (TcpServer_removeConnection exec c) w = Ok w' \<and> n_conns w' c = None \<and>
    w_heap w' (tc_channel k) = None \<and> k_closed w' = k_closed w @ [tc_socket k]"
proof -
  note d = attachedD [OF at]
  obtain el where el: "w_loops w (tc_loop k) = Some el" "el_threadId el = w_thread w"
    using d(2) by (auto simp: serves_def)
  let ?sv = "sv\<lparr>sv_connections := AList.delete (tc_name k) (sv_connections sv)\<rparr>"
  let ?k = "\<lambda>r. k\<lparr>tc_refs := r\<rparr>"
  let ?v = "\<lambda>r. w\<lparr>n_conns := (n_conns w)(c \<mapsto> ?k r)\<rparr>"
  let ?w = "\<lambda>r. w\<lparr>n_server := Some ?sv, n_conns := (n_conns w)(c \<mapsto> ?k r)\<rparr>"
  let ?ch = "ch\<lparr>ch_addedToLoop := False, ch_index := -1\<rparr>"
  let ?el = "el\<lparr>el_poller := Some (p\<lparr>pl_pollfds := erase_at (nat (ch_index ch)) (pl_pollfds p),
      pl_channels := (pl_channels p)(ch_fd ch := None)\<rparr>)\<rparr>"
  let ?x = "\<lambda>r. w\<lparr>w_heap := (w_heap w)(tc_channel k \<mapsto> ?ch), w_loops := (w_loops w)(tc_loop k \<mapsto> ?el),
      n_server := Some ?sv, n_conns := (n_conns w)(c \<mapsto> ?k r)\<rparr>"
  have loop: "EventLoop_isInLoopThread (tc_loop k) v" "EventLoop_assertInLoopThread (tc_loop k) v = Ok v"
    if "w_loops v = w_loops w" "w_thread v = w_thread w" for v :: "'a server_net_scheme"
    using that el by (simp_all add: EventLoop_isInLoopThread_def EventLoop_assertInLoopThread_def loop_access check_def)
  have sv_last: "(?v r)\<lparr>n_server := Some ?sv\<rparr> = ?w r" for r by (rule server_net.equality) simp_all
  have x: "(?w r)\<lparr>w_heap := (w_heap w)(tc_channel k \<mapsto> ?ch), w_loops := (w_loops w)(tc_loop k \<mapsto> ?el)\<rparr> = ?x r" for r
    by (rule server_net.equality) simp_all
  have "attached c (?v 3) p (?k 3) ch"
    using attached_upd_conn(2) [OF at, of "tc_refs_update (\<lambda>_. 3)"] by simp
  then have "attached c (?w 3) p (?k 3) ch" by (rule attached_kernel) simp_all
  from connectDestroyed_closed [OF this, of el call] have gone: "TcpConnection_connectDestroyed call c (?w 3) = Ok (?x 3)"
    unfolding x [symmetric] using st el by simp
  have destroyed: "run_bound exec' (tc_loop k) c (Fn_connectDestroyed c) (?w 2) = Ok (?x 2)"
    using loop(1) [of "?w 2"] pinned_eq [of "?w 2" c "?k 2"] gone conn_unref_keep [of "?x 3" c "?k 3"] exec(2)
    by (simp add: run_bound_def)
  have "TcpServer_removeConnectionInLoop exec' c (?v 3) = Ok (?x 2)"
    using sv d(1) loop(2) [of "?v 3"] conn_unref_keep [of "?w 3" c "?k 3"] destroyed
    by (simp add: TcpServer_removeConnectionInLoop_def server_access with_conn_def sv_last)
  then have "TcpServer_removeConnection exec c (?v 2) = Ok (?x 1)"
    using sv(1,2) loop(1) [of "?v 2"] pinned_eq [of "?v 2" c "?k 2"] exec(1) conn_unref_keep [of "?x 2" c "?k 2"]
    by (simp add: TcpServer_removeConnection_def with_server_def run_bound_def)
  then have "pinned c (TcpServer_removeConnection exec c) w = conn_unref c (?x 1)"
    using pinned_eq [OF d(1)] st(3) by (simp add: numeral_2_eq_2)
  then show ?thesis
    using conn_unref_last [of "?x 1" c "?k 1" ?ch] by simp
qed

section \<open>Removing a connection of another thread\<close>

text \<open>The close callback posts the removal to the server's loop, with one more reference.\<close>

lemma removeConnection_posts:
  assumes k: "n_conns w c = Some k" "0 < tc_refs k" and sv: "n_server w = Some sv"
    and el: "w_loops w (sv_loop sv) = Some el" "el_threadId el \<noteq> w_thread w"
  shows "pinned c (TcpServer_removeConnection exec c) w = Ok (w\<lparr>
    w_loops := (w_loops w)(sv_loop sv \<mapsto> el\<lparr>
      el_pendingFunctors := el_pendingFunctors el @ [Fn_TcpServer_removeConnectionInLoop c],
      el_pipeBytes := Suc (el_pipeBytes el)\<rparr>),
    n_conns := (n_conns w)(c \<mapsto> k\<lparr>tc_refs := Suc (tc_refs k)\<rparr>)\<rparr>)"
proof -
  let ?v = "w\<lparr>n_conns := (n_conns w)(c \<mapsto> k\<lparr>tc_refs := Suc (tc_refs k)\<rparr>)\<rparr>"
  let ?x = "?v\<lparr>n_conns := (n_conns ?v)(c \<mapsto> k\<lparr>tc_refs := Suc (Suc (tc_refs k))\<rparr>),
    w_loops := (w_loops w)(sv_loop sv \<mapsto> el\<lparr>
      el_pendingFunctors := el_pendingFunctors el @ [Fn_TcpServer_removeConnectionInLoop c],
      el_pipeBytes := Suc (el_pipeBytes el)\<rparr>)\<rparr>"
  have "TcpServer_removeConnection exec c ?v = Ok ?x"
    using run_bound_foreign [of ?v c "k\<lparr>tc_refs := Suc (tc_refs k)\<rparr>" "sv_loop sv" el exec] sv el
    by (simp add: TcpServer_removeConnection_def with_server_def)
  moreover have "conn_unref c ?x = Ok (?x\<lparr>n_conns := (n_conns ?x)(c \<mapsto> k\<lparr>tc_refs := Suc (tc_refs k)\<rparr>)\<rparr>)"
    using conn_unref_keep [of ?x c "k\<lparr>tc_refs := Suc (Suc (tc_refs k))\<rparr>"] k(2) by simp
  moreover have "?x\<lparr>n_conns := (n_conns ?x)(c \<mapsto> k\<lparr>tc_refs := Suc (tc_refs k)\<rparr>)\<rparr> = w\<lparr>
    w_loops := (w_loops w)(sv_loop sv \<mapsto> el\<lparr>
      el_pendingFunctors := el_pendingFunctors el @ [Fn_TcpServer_removeConnectionInLoop c],
      el_pipeBytes := Suc (el_pipeBytes el)\<rparr>),
    n_conns := (n_conns w)(c \<mapsto> k\<lparr>tc_refs := Suc (tc_refs k)\<rparr>)\<rparr>"
    by (rule server_net.equality) simp_all
  ultimately show ?thesis using pinned_eq [OF k(1)] by simp
qed

text \<open>The server's loop drops the map's reference and posts \<open>connectDestroyed\<close> back.\<close>

lemma removeConnectionInLoop_posts:
  assumes k: "n_conns w c = Some k" "1 < tc_refs k" and sv: "n_server w = Some sv"
    "map_of (sv_connections sv) (tc_name k) = Some c"
    and base: "w_loops w (sv_loop sv) = Some e0" "el_threadId e0 = w_thread w"
    and own: "w_loops w (tc_loop k) = Some e1" "el_threadId e1 \<noteq> w_thread w"
  shows "TcpServer_removeConnectionInLoop exec c w = Ok (w\<lparr>
    w_loops := (w_loops w)(tc_loop k \<mapsto> e1\<lparr>el_pendingFunctors := el_pendingFunctors e1 @ [Fn_connectDestroyed c],
      el_pipeBytes := Suc (el_pipeBytes e1)\<rparr>),
    n_conns := (n_conns w)(c \<mapsto> k),
    n_server := Some (sv\<lparr>sv_connections := AList.delete (tc_name k) (sv_connections sv)\<rparr>)\<rparr>)"
proof -
  let ?sv = "sv\<lparr>sv_connections := AList.delete (tc_name k) (sv_connections sv)\<rparr>"
  let ?k = "k\<lparr>tc_refs := tc_refs k - 1\<rparr>"
  let ?v = "w\<lparr>n_server := Some ?sv\<rparr>"
  let ?u = "?v\<lparr>n_conns := (n_conns w)(c \<mapsto> ?k)\<rparr>"
  let ?el = "e1\<lparr>el_pendingFunctors := el_pendingFunctors e1 @ [Fn_connectDestroyed c], el_pipeBytes := Suc (el_pipeBytes e1)\<rparr>"
  have "?k\<lparr>tc_refs := Suc (tc_refs ?k)\<rparr> = k" using k(2) by simp
  then have post: "run_bound exec (tc_loop k) c (Fn_connectDestroyed c) ?u =
      Ok (?u\<lparr>n_conns := (n_conns ?u)(c \<mapsto> k), w_loops := (w_loops ?u)(tc_loop k \<mapsto> ?el)\<rparr>)"
    using run_bound_foreign [of ?u c ?k "tc_loop k" e1 exec] own by simp
  have eq: "?u\<lparr>n_conns := (n_conns ?u)(c \<mapsto> k), w_loops := (w_loops ?u)(tc_loop k \<mapsto> ?el)\<rparr> =
      w\<lparr>w_loops := (w_loops w)(tc_loop k \<mapsto> ?el), n_conns := (n_conns w)(c \<mapsto> k), n_server := Some ?sv\<rparr>"
    by (rule server_net.equality) simp_all
  have "conn_unref c ?v = Ok ?u" using conn_unref_keep [of ?v c k] k by simp
  then show ?thesis
    using sv k(1) base post unfolding eq
    by (simp add: TcpServer_removeConnectionInLoop_def server_access with_conn_def EventLoop_assertInLoopThread_def
        loop_access check_def)
qed

text \<open>The three hops of a removal, each described by what it changes.\<close>

lemma close_event_posts_removal:
  assumes at: "attached c w p k ch" and st: "tc_state k = kConnected \<or> tc_state k = kDisconnecting" "tc_refs k = 1"
    and sv: "n_server w = Some sv" "sv_loop sv \<noteq> tc_loop k"
    and cb: "tc_closeCallback k = Some Cb_TcpServer_removeConnection"
    and ch: "ch_revents ch = POLLIN" "ch_readCallback ch = Some (Cb_TcpConnection_handleRead c)"
    and eof: "shd (k_reads w) = Some []"
    and base: "w_loops w (sv_loop sv) = Some e0" "el_threadId e0 \<noteq> w_thread w"
    and own: "w_loops w (tc_loop k) = Some e1"
  obtains w' p' ch' where "Channel_handleEvent (server_fire user (Suc n)) (tc_channel k) w = Ok w'"
    "attached c w' p' (k\<lparr>tc_state := kDisconnected, tc_refs := 2\<rparr>) ch'" "ch_events ch' = kNoneEvent"
    "n_conns w' = (n_conns w)(c \<mapsto> k\<lparr>tc_state := kDisconnected, tc_refs := 2\<rparr>)"
    "w_loops w' (sv_loop sv) = Some (e0\<lparr>el_pendingFunctors := el_pendingFunctors e0 @ [Fn_TcpServer_removeConnectionInLoop c],
       el_pipeBytes := Suc (el_pipeBytes e0)\<rparr>)"
    "w_loops w' (tc_loop k) = Some (e1\<lparr>el_poller := Some p'\<rparr>)"
    "n_server w' = Some sv" "k_closed w' = k_closed w" "w_thread w' = w_thread w"
    "\<And>d. d \<noteq> tc_channel k \<Longrightarrow> w_heap w' d = w_heap w d"
proof -
  let ?ch1 = "ch\<lparr>ch_handlingEvent := True\<rparr>"
  let ?w1 = "w\<lparr>w_heap := (w_heap w)(tc_channel k \<mapsto> ?ch1)\<rparr>"
  let ?k = "\<lambda>r. k\<lparr>tc_state := kDisconnected, tc_refs := r\<rparr>"
  have at1: "attached c ?w1 p k ?ch1" by (rule attached_chan_field [OF at]) simp_all
  have eof1: "shd (k_reads ?w1) = Some []" using eof by simp
  show thesis
  proof (rule handleRead_eof [OF at1 st(1) eof1, of "server_call user (Suc n)"], goal_cases)
    case (1 w2 p2 i)
    let ?ch2 = "?ch1\<lparr>ch_events := kNoneEvent, ch_index := i, ch_addedToLoop := True\<rparr>"
    let ?e0 = "e0\<lparr>el_pendingFunctors := el_pendingFunctors e0 @ [Fn_TcpServer_removeConnectionInLoop c],
       el_pipeBytes := Suc (el_pipeBytes e0)\<rparr>"
    let ?w3 = "w2\<lparr>w_loops := (w_loops w2)(sv_loop sv \<mapsto> ?e0), n_conns := (n_conns w2)(c \<mapsto> ?k 2)\<rparr>"
    let ?ch4 = "?ch2\<lparr>ch_handlingEvent := False\<rparr>"
    let ?w4 = "?w3\<lparr>w_heap := (w_heap ?w3)(tc_channel k \<mapsto> ?ch4)\<rparr>"
    note d2 = attachedD [OF 1(2)]
    have frame: "n_server w2 = Some sv" "k_closed w2 = k_closed w" "w_thread w2 = w_thread w"
      "n_conns w2 = (n_conns w)(c \<mapsto> k\<lparr>tc_state := kDisconnected\<rparr>)"
      using sv(1) by (subst 1(3), simp)+
    have base2: "w_loops w2 (sv_loop sv) = Some e0" using base(1) 1(6) [of "sv_loop sv"] sv(2) by simp
    have own2: "w_loops w2 (tc_loop k) = Some (e1\<lparr>el_poller := Some p2\<rparr>)" using 1(5) own by simp
    have "TcpConnection_handleRead (server_call user (Suc n)) c ?w1 = Ok ?w3"
      using 1(1) removeConnection_posts [OF d2(1) _ frame(1) base2, of "server_exec user n"] base(2) frame(3) st(2) cb
      by (simp add: call_opt_def numeral_2_eq_2)
    then have run: "Channel_handleEvent (server_fire user (Suc n)) (tc_channel k) w = Ok ?w4"
      using d2(5) ch by (intro handleEvent_read [OF attachedD(5) [OF at] ch]) (simp_all add: server_fire_def)
    have "attached c (w2\<lparr>n_conns := (n_conns w2)(c \<mapsto> ?k 2)\<rparr>) p2 (?k 2) ?ch2"
      using attached_upd_conn(2) [OF 1(2), of "tc_refs_update (\<lambda>_. 2)"] by simp
    then have at3: "attached c ?w3 p2 (?k 2) ?ch2"
      by (rule attached_kernel) (use sv(2) in simp_all)
    have "attached c (?w3\<lparr>w_heap := (w_heap ?w3)(tc_channel (?k 2) \<mapsto> ?ch4)\<rparr>) p2 (?k 2) ?ch4"
      by (rule attached_chan_field [OF at3]) simp_all
    then have at4: "attached c ?w4 p2 (?k 2) ?ch4" by simp
    show thesis
      by (rule that [OF run at4]) (use frame base2 own2 sv(2) 1(4) in simp_all)
  qed
qed

lemma base_loop_drops_connection:
  assumes k: "n_conns w c = Some k" "tc_refs k = 2" and sv: "n_server w = Some sv"
    "map_of (sv_connections sv) (tc_name k) = Some c" "sv_loop sv \<noteq> tc_loop k"
    and base: "w_loops w (sv_loop sv) = Some e0" "el_pendingFunctors e0 = [Fn_TcpServer_removeConnectionInLoop c]"
    and own: "w_loops w (tc_loop k) = Some e1" "el_threadId e1 \<noteq> el_threadId e0" "el_pendingFunctors e1 = []"
  obtains w' where "on_thread (el_threadId e0)
      (EventLoop_doPendingFunctors (server_exec user (Suc n)) release_functor (sv_loop sv)) w = Ok w'"
    "n_conns w' = (n_conns w)(c \<mapsto> k\<lparr>tc_refs := 1\<rparr>)" "w_heap w' = w_heap w"
    "w_loops w' (tc_loop k) = Some (e1\<lparr>el_pendingFunctors := [Fn_connectDestroyed c], el_pipeBytes := Suc (el_pipeBytes e1)\<rparr>)"
    "n_server w' = Some (sv\<lparr>sv_connections := AList.delete (tc_name k) (sv_connections sv)\<rparr>)"
    "k_closed w' = k_closed w" "w_thread w' = w_thread w"
proof -
  let ?el = "e0\<lparr>el_callingPendingFunctors := True, el_pendingFunctors := []\<rparr>"
  let ?v = "w\<lparr>w_thread := el_threadId e0, w_loops := (w_loops w)(sv_loop sv \<mapsto> ?el)\<rparr>"
  let ?e1 = "e1\<lparr>el_pendingFunctors := [Fn_connectDestroyed c], el_pipeBytes := Suc (el_pipeBytes e1)\<rparr>"
  let ?sv = "sv\<lparr>sv_connections := AList.delete (tc_name k) (sv_connections sv)\<rparr>"
  let ?v1 = "?v\<lparr>w_loops := (w_loops ?v)(tc_loop k \<mapsto> ?e1), n_conns := (n_conns ?v)(c \<mapsto> k), n_server := Some ?sv\<rparr>"
  let ?v2 = "?v1\<lparr>w_loops := (w_loops ?v1)(sv_loop sv \<mapsto> ?el\<lparr>el_callingPendingFunctors := False\<rparr>)\<rparr>"
  let ?v3 = "?v2\<lparr>n_conns := (n_conns ?v2)(c \<mapsto> k\<lparr>tc_refs := 1\<rparr>)\<rparr>"
  have 1: "TcpServer_removeConnectionInLoop (server_exec user n) c ?v = Ok ?v1"
    using removeConnectionInLoop_posts [of ?v c k sv ?el e1 "server_exec user n"] k sv base own by simp
  have 2: "upd_loop (sv_loop sv) (\<lambda>el. el\<lparr>el_callingPendingFunctors := False\<rparr>) ?v1 = Ok ?v2"
    using sv(3) by (simp add: loop_access)
  have 3: "conn_unref c ?v2 = Ok ?v3"
    using conn_unref_keep [of ?v2 c k] k(2) by simp
  have "EventLoop_doPendingFunctors (server_exec user (Suc n)) release_functor (sv_loop sv)
      (w\<lparr>w_thread := el_threadId e0\<rparr>) = Ok ?v3"
    using doPendingFunctors_eq [of "w\<lparr>w_thread := el_threadId e0\<rparr>" "sv_loop sv" e0] base 1 2 3
    by (simp add: release_functor_def functor_conn_def)
  then show thesis
    by (intro that [of "?v3\<lparr>w_thread := w_thread w\<rparr>"]) (use sv(3) in \<open>simp_all add: on_thread_def\<close>)
qed

lemma own_loop_destroys_connection:
  assumes at: "attached c w p k ch" and st: "tc_state k = kDisconnected" "tc_refs k = 1" "ch_events ch = kNoneEvent"
    and own: "w_loops w (tc_loop k) = Some e1" "el_pendingFunctors e1 = [Fn_connectDestroyed c]"
  obtains w' where "EventLoop_doPendingFunctors (server_exec user (Suc n)) release_functor (tc_loop k) w = Ok w'"
    "n_conns w' = (n_conns w)(c := None)" "w_heap w' = (w_heap w)(tc_channel k := None)"
    "k_closed w' = k_closed w @ [tc_socket k]" "n_server w' = n_server w"
proof -
  let ?el = "e1\<lparr>el_callingPendingFunctors := True, el_pendingFunctors := []\<rparr>"
  let ?v = "w\<lparr>w_loops := (w_loops w)(tc_loop k \<mapsto> ?el)\<rparr>"
  let ?ch = "ch\<lparr>ch_addedToLoop := False, ch_index := -1\<rparr>"
  have "attached c ?v p k ch"
    by (rule attached_kernel [OF at]) (use own(1) in \<open>simp_all add: loop_view_def\<close>)
  note gone = connectDestroyed_closed [OF this st(1,3), of ?el "server_call user n"]
  obtain v1 where v1: "TcpConnection_connectDestroyed (server_call user n) c ?v = Ok v1"
    "n_conns v1 = n_conns w" "w_heap v1 = (w_heap w)(tc_channel k \<mapsto> ?ch)" "k_closed v1 = k_closed w"
    "n_server v1 = n_server w" "\<exists>el. w_loops v1 (tc_loop k) = Some el"
    using gone by simp
  then obtain el where el: "w_loops v1 (tc_loop k) = Some el" by blast
  let ?v2 = "v1\<lparr>w_loops := (w_loops v1)(tc_loop k \<mapsto> el\<lparr>el_callingPendingFunctors := False\<rparr>)\<rparr>"
  have 2: "upd_loop (tc_loop k) (\<lambda>el. el\<lparr>el_callingPendingFunctors := False\<rparr>) v1 = Ok ?v2"
    using el by (simp add: loop_access)
  let ?v3 = "?v2\<lparr>w_heap := (w_heap ?v2)(tc_channel k := None),
      n_conns := (n_conns ?v2)(c := None), k_closed := k_closed ?v2 @ [tc_socket k]\<rparr>"
  have 3: "conn_unref c ?v2 = Ok ?v3"
    by (rule conn_unref_last [of ?v2 c k ?ch]) (use v1 attachedD(1) [OF at] st(2) in simp_all)
  have "EventLoop_doPendingFunctors (server_exec user (Suc n)) release_functor (tc_loop k) w = Ok ?v3"
    unfolding doPendingFunctors_eq [OF own(1)] own(2)
    using v1(1) 2 3 by (simp add: release_functor_def functor_conn_def)
  then show thesis
    by (rule that) (use v1 in simp_all)
qed

section \<open>Starting\<close>

text \<open>Starting threads, listening and posting leave the server object alone.\<close>

lemma EventLoop_new_server:
  assumes "EventLoop_new l c kind fds cb (w :: 'z server_net_scheme) = Ok w'"
  shows "n_server w' = n_server w"
  using EventLoop_new_frame [OF assms] by auto

lemma startLoop_server:
  assumes "EventLoopThread_startLoop (\<lambda>l. skip) r lt (w :: 'z server_net_scheme) = Ok (l, lt', w')"
  shows "n_server w' = n_server w"
  using assms
  by (auto simp: EventLoopThread_startLoop_def on_thread_def skip_def dest!: EventLoop_new_server
      split: prod.splits sum.splits if_splits)

lemma start_threads_server:
  "start_threads (\<lambda>l. skip) cb rs lp (w :: 'z server_net_scheme) = Ok (lp', w') \<Longrightarrow> n_server w' = n_server w"
  by (induction rs arbitrary: lp w) (auto dest: startLoop_server split: sum.splits)

lemma Acceptor_listen_server:
  assumes "Acceptor_listen (w :: 'z server_net_scheme) = Ok w'"
  shows "n_server w' = n_server w"
proof -
  obtain w1 c where w1: "Channel_change c (\<lambda>e. e OR kReadEvent) w1 = Ok w'" "n_server w1 = n_server w"
    using assms
    by (auto simp: Acceptor_listen_def acceptor_access Socket_listen_def modify_def Channel_enableReading_def
        EventLoop_assertInLoopThread_def loop_access check_def split: option.splits sum.splits if_splits)
  show ?thesis using w1(2) by (subst Channel_change_frame [OF w1(1)]) simp
qed

section \<open>Properties\<close>

text \<open>
  C31. With a single loop the server destroys a connection inside the connection's own event:
  when the peer closes, the close callback runs the whole removal in place, the last
  reference goes, and \<open>Channel::handleEvent\<close> continues on the destroyed channel.
\<close>

theorem single_loop_close_uses_freed_channel:
  assumes at: "attached c w p k ch" and st: "tc_state k = kConnected \<or> tc_state k = kDisconnecting" "tc_refs k = 1"
    and sv: "n_server w = Some sv" "sv_loop sv = tc_loop k" "map_of (sv_connections sv) (tc_name k) = Some c"
    and cb: "tc_closeCallback k = Some Cb_TcpServer_removeConnection"
    and ch: "ch_revents ch = POLLIN" "ch_readCallback ch = Some (Cb_TcpConnection_handleRead c)"
    and eof: "shd (k_reads w) = Some []"
  shows "Channel_handleEvent (server_fire user (Suc (Suc (Suc n)))) (tc_channel k) w = Fault UseAfterFree"
proof -
  let ?ch1 = "ch\<lparr>ch_handlingEvent := True\<rparr>"
  let ?w1 = "w\<lparr>w_heap := (w_heap w)(tc_channel k \<mapsto> ?ch1)\<rparr>"
  let ?call = "server_call user (Suc (Suc (Suc n)))"
  have at1: "attached c ?w1 p k ?ch1" by (rule attached_chan_field [OF at]) simp_all
  have eof1: "shd (k_reads ?w1) = Some []" using eof by simp
  obtain w' where w': "TcpConnection_handleRead ?call c ?w1 = Ok w'" "w_heap w' (tc_channel k) = None"
  proof (rule handleRead_eof [OF at1 st(1) eof1, of ?call], goal_cases)
    case (1 w2 p2 i)
    have sv2: "n_server w2 = Some sv" using sv(1) by (subst 1(4)) simp
    obtain w' where "pinned c (TcpServer_removeConnection (server_exec user (Suc (Suc n))) c) w2 = Ok w'"
      "w_heap w' (tc_channel k) = None"
      using removeConnection_in_place [OF 1(3), of sv "server_exec user (Suc (Suc n))" "server_exec user (Suc n)"
          "server_call user n"] st(2) sv(2,3) sv2 by auto
    with 1(1,2) cb show ?thesis by (simp add: call_opt_def)
  qed
  show ?thesis
    by (rule handleEvent_destroyed [OF attachedD(5) [OF at] _ ch, of _ w'])
      (use ch w' in \<open>simp_all add: server_fire_def has_revents_def poll_flags\<close>)
qed

text \<open>A server with one loop and one connection whose peer has closed.\<close>

definition example_server :: "loop_id \<Rightarrow> tcp_server" where
  "example_server l = \<lparr>sv_loop = l, sv_ipPort = ''0.0.0.0:'' @ show_nat 80, sv_name = ''s'',
     sv_threadPool = (EventLoopThreadPool_new l)\<lparr>lp_started := True\<rparr>, sv_started = False, sv_nextConnId = 2,
     sv_connections = [(''conn'', 0)], sv_connectionCallback = defaultConnectionCallback,
     sv_messageCallback = defaultMessageCallback, sv_threadInitCallback = False, sv_listenAddr = InetAddress_any 80\<rparr>"

lemma example_server_simps [simp]:
  "sv_loop (example_server l) = l" "sv_connections (example_server l) = [(''conn'', 0)]"
  by (simp_all add: example_server_def)

definition example_server_conn :: tcp_connection where
  "example_server_conn = (example_conn kConnected [])\<lparr>tc_closeCallback := Some Cb_TcpServer_removeConnection\<rparr>"

definition example_server_net :: "tcp_server \<Rightarrow> loop_functor eventloop option \<Rightarrow> server_net" where
  "example_server_net sv base = acceptor_net.extend (net.extend
       ((example_net kConnected [] (sconst 1))\<lparr>w_heap := [3 \<mapsto> (example_channel [])\<lparr>ch_revents := POLLIN\<rparr>],
          n_conns := [0 \<mapsto> example_server_conn], k_reads := sconst (Some []),
          w_loops := (w_loops (example_net kConnected [] (sconst 1)))(5 := base)\<rparr>)
       (acceptor_net.fields None [] [] (sconst (7, InetAddress_any 90))))
     (server_net.fields (Some sv) (sconst (1, 8)))"

lemma example_server_net_simps [simp]:
  "w_thread (example_server_net sv base) = 1"
  "w_heap (example_server_net sv base) = [3 \<mapsto> (example_channel [])\<lparr>ch_revents := POLLIN\<rparr>]"
  "n_conns (example_server_net sv base) = [0 \<mapsto> example_server_conn]"
  "w_loops (example_server_net sv base) = (w_loops (example_net kConnected [] (sconst 1)))(5 := base)"
  "k_reads (example_server_net sv base) = sconst (Some [])" "k_closed (example_server_net sv base) = []"
  "n_server (example_server_net sv base) = Some sv"
  by (simp_all add: example_server_net_def net.defs acceptor_net.defs server_net.defs)

lemma example_server_attached:
  "attached 0 (example_server_net sv base) (example_conn_poller []) example_server_conn
     ((example_channel [])\<lparr>ch_revents := POLLIN\<rparr>)"
proof -
  let ?ch = "(example_channel [])\<lparr>ch_revents := POLLIN\<rparr>"
  let ?w = "example_net kConnected [] (sconst 1)"
  have at: "attached 0 ?w (example_conn_poller []) (example_conn kConnected []) (example_channel [])"
    using example_established unfolding established_def by blast
  have "attached 0 (?w\<lparr>w_heap := (w_heap ?w)(tc_channel (example_conn kConnected []) \<mapsto> ?ch)\<rparr>)
      (example_conn_poller []) (example_conn kConnected []) ?ch"
    by (rule attached_chan_field [OF at]) simp_all
  then show ?thesis
    by (auto simp: attached_def serves_def own_channel_def example_server_conn_def
        simp del: registered.simps updatable.simps)
qed

theorem single_loop_close_uses_freed_channel_witness:
  "Channel_handleEvent (server_fire (\<lambda>_ _ _. skip) 3) 3 (example_server_net (example_server 4) None) = Fault UseAfterFree"
proof -
  have "Channel_handleEvent (server_fire (\<lambda>_ _ _. skip) (Suc (Suc (Suc 0)))) (tc_channel example_server_conn)
      (example_server_net (example_server 4) None) = Fault UseAfterFree"
    by (rule single_loop_close_uses_freed_channel [where sv = "example_server 4", OF example_server_attached])
      (simp_all add: example_server_conn_def example_channel_def example_conn_def new_connection_def)
  then show ?thesis by (simp add: numeral_3_eq_3 example_server_conn_def)
qed

text \<open>
  C7. With a pool the removal of a closed connection is orderly: its own thread closes it and
  posts the removal to the server's loop; that loop drops it from the map and posts
  \<open>connectDestroyed\<close> back; the connection's thread, outside any event of the channel,
  unregisters and destroys it. Every step succeeds, and the socket is closed once.
\<close>

theorem pool_close_is_orderly:
  assumes at: "attached c w p k ch" and st: "tc_state k = kConnected \<or> tc_state k = kDisconnecting" "tc_refs k = 1"
    and sv: "n_server w = Some sv" "sv_loop sv \<noteq> tc_loop k" "map_of (sv_connections sv) (tc_name k) = Some c"
    and cb: "tc_closeCallback k = Some Cb_TcpServer_removeConnection"
    and ch: "ch_revents ch = POLLIN" "ch_readCallback ch = Some (Cb_TcpConnection_handleRead c)"
    and eof: "shd (k_reads w) = Some []"
    and base: "w_loops w (sv_loop sv) = Some e0" "el_threadId e0 \<noteq> w_thread w" "el_pendingFunctors e0 = []"
    and own: "w_loops w (tc_loop k) = Some e1" "el_pendingFunctors e1 = []"
  shows "\<exists>w'. block
      [Channel_handleEvent (server_fire user (Suc n)) (tc_channel k),
       on_thread (el_threadId e0) (EventLoop_doPendingFunctors (server_exec user (Suc n)) release_functor (sv_loop sv)),
       EventLoop_doPendingFunctors (server_exec user (Suc n)) release_functor (tc_loop k)] w = Ok w' \<and>
    n_conns w' = (n_conns w)(c := None) \<and> w_heap w' (tc_channel k) = None \<and>
    k_closed w' = k_closed w @ [tc_socket k] \<and>
    n_server w' = Some (sv\<lparr>sv_connections := AList.delete (tc_name k) (sv_connections sv)\<rparr>)"
proof (rule close_event_posts_removal [OF at st sv(1,2) cb ch eof base(1,2) own(1), of user n], goal_cases)
  case (1 w1 p1 ch1)
  let ?k = "\<lambda>r. k\<lparr>tc_state := kDisconnected, tc_refs := r\<rparr>"
  let ?e0 = "e0\<lparr>el_pendingFunctors := el_pendingFunctors e0 @ [Fn_TcpServer_removeConnectionInLoop c],
     el_pipeBytes := Suc (el_pipeBytes e0)\<rparr>"
  let ?e1 = "e1\<lparr>el_poller := Some p1\<rparr>"
  have thread: "el_threadId e1 = w_thread w"
    using attachedD(2) [OF at] own(1) by (auto simp: serves_def)
  obtain w2 where w2: "on_thread (el_threadId ?e0)
      (EventLoop_doPendingFunctors (server_exec user (Suc n)) release_functor (sv_loop sv)) w1 = Ok w2"
    "n_conns w2 = (n_conns w1)(c \<mapsto> (?k 2)\<lparr>tc_refs := 1\<rparr>)" "w_heap w2 = w_heap w1"
    "w_loops w2 (tc_loop (?k 2)) = Some (?e1\<lparr>el_pendingFunctors := [Fn_connectDestroyed c],
       el_pipeBytes := Suc (el_pipeBytes ?e1)\<rparr>)"
    "n_server w2 = Some (sv\<lparr>sv_connections := AList.delete (tc_name (?k 2)) (sv_connections sv)\<rparr>)"
    "k_closed w2 = k_closed w1" "w_thread w2 = w_thread w1"
    by (rule base_loop_drops_connection [of w1 c "?k 2" sv ?e0 ?e1 user n])
      (use 1 sv base own thread in simp_all)
  have "attached c (w1\<lparr>n_conns := (n_conns w1)(c \<mapsto> ?k 1)\<rparr>) p1 (?k 1) ch1"
    using attached_upd_conn(2) [OF 1(2), of "tc_refs_update (\<lambda>_. 1)"] by simp
  then have at2: "attached c w2 p1 (?k 1) ch1"
    by (rule attached_kernel) (use w2 1(6) in \<open>simp_all add: loop_view_def\<close>)
  obtain w3 where w3: "EventLoop_doPendingFunctors (server_exec user (Suc n)) release_functor (tc_loop (?k 1)) w2 = Ok w3"
    "n_conns w3 = (n_conns w2)(c := None)" "w_heap w3 = (w_heap w2)(tc_channel (?k 1) := None)"
    "k_closed w3 = k_closed w2 @ [tc_socket (?k 1)]" "n_server w3 = n_server w2"
    by (rule own_loop_destroys_connection [OF at2 _ _ 1(3), of "?e1\<lparr>el_pendingFunctors := [Fn_connectDestroyed c],
       el_pipeBytes := Suc (el_pipeBytes ?e1)\<rparr>" user n]) (use w2(4) in simp_all)
  show ?case
    using 1(1,4,8) w2 w3 by (intro exI [of _ w3]) simp
qed

definition example_base_loop :: "loop_functor eventloop" where
  "example_base_loop = \<lparr>el_threadId = 2, el_looping = True, el_quit = False, el_poller = Some (PollPoller_new 5),
     el_activeChannels = [], el_callingPendingFunctors = False, el_wakeupPipe = (12, 13), el_pipeBytes = 0,
     el_wakeupChannel = None, el_pendingFunctors = []\<rparr>"

theorem pool_close_is_orderly_witness:
  "\<exists>w'. block
      [Channel_handleEvent (server_fire (\<lambda>_ _ _. skip) (Suc 1)) 3,
       on_thread 2 (EventLoop_doPendingFunctors (server_exec (\<lambda>_ _ _. skip) (Suc 1)) release_functor 5),
       EventLoop_doPendingFunctors (server_exec (\<lambda>_ _ _. skip) (Suc 1)) release_functor 4]
      (example_server_net (example_server 5) (Some example_base_loop)) = Ok w' \<and>
    n_conns w' = Map.empty \<and> k_closed w' = [7]"
proof -
  let ?w = "example_server_net (example_server 5) (Some example_base_loop)"
  have e1: "w_loops ?w (tc_loop example_server_conn) = w_loops (example_net kConnected [] (sconst 1)) 4"
    by (simp add: example_server_conn_def)
  then obtain e1 where own: "w_loops ?w (tc_loop example_server_conn) = Some e1" "el_pendingFunctors e1 = []"
    by (simp add: example_net_def)
  have base: "w_loops ?w (sv_loop (example_server 5)) = Some example_base_loop" "el_threadId example_base_loop = 2"
    "el_pendingFunctors example_base_loop = []"
    by (simp_all add: example_base_loop_def)
  have "\<exists>w'. block
      [Channel_handleEvent (server_fire (\<lambda>_ _ _. skip) (Suc 1)) (tc_channel example_server_conn),
       on_thread (el_threadId example_base_loop)
         (EventLoop_doPendingFunctors (server_exec (\<lambda>_ _ _. skip) (Suc 1)) release_functor (sv_loop (example_server 5))),
       EventLoop_doPendingFunctors (server_exec (\<lambda>_ _ _. skip) (Suc 1)) release_functor (tc_loop example_server_conn)] ?w =
      Ok w' \<and>
    n_conns w' = (n_conns ?w)(0 := None) \<and> w_heap w' (tc_channel example_server_conn) = None \<and>
    k_closed w' = k_closed ?w @ [tc_socket example_server_conn] \<and>
    n_server w' = Some ((example_server 5)\<lparr>sv_connections :=
      AList.delete (tc_name example_server_conn) (sv_connections (example_server 5))\<rparr>)"
    by (rule pool_close_is_orderly [OF example_server_attached _ _ _ _ _ _ _ _ _ base(1) _ base(3) own])
      (simp_all add: example_server_conn_def example_channel_def example_conn_def new_connection_def base(2))
  then show ?thesis by (auto simp: example_server_conn_def base(2))
qed

text \<open>
  C18. Accepting a connection: the server hands it to the pool's next loop, names it, records
  it in the map with one reference, installs the callbacks, and posts \<open>connectEstablished\<close>
  with one more reference as the last functor of that loop.
\<close>

theorem newConnection_hands_over:
  assumes sv: "n_server w = Some sv" "EventLoop_assertInLoopThread (sv_loop sv) w = Ok w"
    and pool: "EventLoopThreadPool_getNextLoop (sv_threadPool sv) w = Ok (io, lp)"
    and io: "w_loops w io = Some e1" "el_threadId e1 \<noteq> w_thread w"
    and alloc: "shd (n_alloc w) = (c, chan)"
    and name: "map_of (sv_connections sv) (conn_name sv) = None"
  shows "\<exists>w' k. TcpServer_newConnection exec connFd peer w = Ok w' \<and>
    n_conns w' = (n_conns w)(c \<mapsto> k) \<and> tc_loop k = io \<and> tc_socket k = connFd \<and> tc_channel k = chan \<and>
    tc_name k = conn_name sv \<and> tc_state k = kConnecting \<and> tc_refs k = 2 \<and>
    tc_connectionCallback k = Some (sv_connectionCallback sv) \<and> tc_messageCallback k = Some (sv_messageCallback sv) \<and>
    tc_closeCallback k = Some Cb_TcpServer_removeConnection \<and>
    w_loops w' = (w_loops w)(io \<mapsto> e1\<lparr>el_pendingFunctors := el_pendingFunctors e1 @ [Fn_connectEstablished c],
      el_pipeBytes := Suc (el_pipeBytes e1)\<rparr>) \<and>
    n_server w' = Some (sv\<lparr>sv_threadPool := lp, sv_nextConnId := Suc (sv_nextConnId sv),
      sv_connections := AList.update (conn_name sv) c (sv_connections sv)\<rparr>)"
proof -
  have not_in: "\<not> EventLoop_isInLoopThread io v" if "w_loops v = w_loops w" "w_thread v = w_thread w"
    for v :: "'a server_net_scheme"
    using that io by (simp add: EventLoop_isInLoopThread_def)
  show ?thesis
    using sv pool io alloc name
    by (simp add: TcpServer_newConnection_def get_next_loop_def insert_connection_def server_access conn_access
        TcpConnection_new_def modify_def conn_ref_def conn_unref_def skip_def run_bound_def not_in
        EventLoop_runInLoop_def loop_access if_then_def EventLoop_wakeup_def EventLoop_isInLoopThread_def
        cong: if_cong split: sum.splits)
      (rule exI, rule conjI, rule refl, simp)
qed

definition example_pool_server :: tcp_server where
  "example_pool_server = (example_server 4)\<lparr>sv_threadPool := (EventLoopThreadPool_new 4)\<lparr>lp_started := True, lp_loops := [5]\<rparr>\<rparr>"

lemma example_pool_server_simps [simp]:
  "sv_loop example_pool_server = 4" "sv_connections example_pool_server = [(''conn'', 0)]"
  "sv_threadPool example_pool_server = (EventLoopThreadPool_new 4)\<lparr>lp_started := True, lp_loops := [5]\<rparr>"
  by (simp_all add: example_pool_server_def)

lemma example_conn_name: "conn_name example_pool_server \<noteq> ''conn''"
  by (simp add: conn_name_def example_pool_server_def example_server_def)

theorem newConnection_hands_over_witness:
  "\<exists>w' k. TcpServer_newConnection (\<lambda>_. skip) 11 (InetAddress_any 90)
       (example_server_net example_pool_server (Some example_base_loop)) = Ok w' \<and>
     n_conns w' 1 = Some k \<and> tc_loop k = 5 \<and> tc_refs k = 2"
proof -
  let ?w = "example_server_net example_pool_server (Some example_base_loop)"
  have "EventLoop_assertInLoopThread 4 ?w = Ok ?w"
    by (simp add: EventLoop_assertInLoopThread_def loop_access) (simp add: example_net_def check_def)
  moreover have "shd (n_alloc ?w) = (1, 8)"
    by (simp add: example_server_net_def net.defs acceptor_net.defs server_net.defs)
  moreover have "el_threadId example_base_loop \<noteq> w_thread ?w" by (simp add: example_base_loop_def)
  ultimately show ?thesis
    using newConnection_hands_over [of ?w example_pool_server 5
        "(EventLoopThreadPool_new 4)\<lparr>lp_started := True, lp_loops := [5]\<rparr>" example_base_loop 1 8 "\<lambda>_. skip" 11 "InetAddress_any 90"]
    by (auto simp: EventLoopThreadPool_getNextLoop_def pool_guard_def EventLoopThreadPool_new_def assertion_def check_def
        example_conn_name)
qed

text \<open>
  The names of a server's connections are distinct: \<open>snprintf\<close> never cuts the suffix
  with the serial number (up to ten digits), since the server's address takes at most 21
  characters.
\<close>

theorem connection_names_distinct:
  assumes "InetAddress_toIpPort (sv_listenAddr sv) = Ok (sv_ipPort sv)" "i < 10 ^ 10" "j < 10 ^ 10"
  shows "conn_name (sv\<lparr>sv_nextConnId := i\<rparr>) = conn_name (sv\<lparr>sv_nextConnId := j\<rparr>) \<longleftrightarrow> i = j"
proof -
  have ip: "length (sv_ipPort sv) \<le> 21"
    using assms(1) toIpPort_length [of "sv_listenAddr sv"] by auto
  have "take 63 (''-'' @ sv_ipPort sv @ ''#'' @ show_nat n) = ''-'' @ sv_ipPort sv @ ''#'' @ show_nat n"
    if "n < 10 ^ 10" for n
    using length_show_nat [OF that] ip by (intro take_all) simp
  then have "conn_name (sv\<lparr>sv_nextConnId := n\<rparr>) = sv_name sv @ ''-'' @ sv_ipPort sv @ ''#'' @ show_nat n"
    if "n < 10 ^ 10" for n
    using that by (simp add: conn_name_def)
  with assms(2,3) show ?thesis by simp
qed

theorem connection_names_distinct_witness:
  "conn_name ((example_server 4)\<lparr>sv_nextConnId := 12\<rparr>) \<noteq> conn_name ((example_server 4)\<lparr>sv_nextConnId := 2\<rparr>)"
proof -
  have "InetAddress_toIpPort (sv_listenAddr (example_server 4)) = Ok (sv_ipPort (example_server 4))"
    by (simp add: example_server_def toIpPort_any)
  from connection_names_distinct [OF this, of 12 2] show ?thesis by simp
qed

text \<open>
  \<open>start()\<close> is not idempotent, although it tests \<open>started_\<close>: the flag is never set,
  so a second call gets to the pool, whose own assertion aborts the program.
\<close>

theorem second_start_aborts:
  assumes sv: "n_server w = Some sv" "\<not> sv_started sv" "\<not> sv_threadInitCallback sv"
    and first: "TcpServer_start (server_exec user (Suc n)) init rs w = Ok w1"
  shows "TcpServer_start exec' init' rs' w1 = Fault AssertFailed"
proof -
  obtain lp w0 where start: "EventLoopThreadPool_start None rs (sv_threadPool sv) w = Ok (lp, w0)"
    and rest: "block [upd_server (\<lambda>sv. sv\<lparr>sv_threadPool := lp\<rparr>),
        with_acceptor (\<lambda>a. assertion (\<lambda>w. \<not> ac_listening a)),
        EventLoop_runInLoop (server_exec user (Suc n)) (sv_loop sv) Fn_Acceptor_listen] w0 = Ok w1"
    using first sv by (auto simp: TcpServer_start_def pool_start_def with_server_def split: sum.splits prod.splits)
  have lp: "lp_started lp"
    using start by (auto simp: EventLoopThreadPool_start_def split: sum.splits if_splits)
  have w0: "n_server w0 = Some sv"
    using start sv(1)
    by (auto simp: EventLoopThreadPool_start_def skip_def dest!: start_threads_server split: sum.splits if_splits)
  let ?w2 = "w0\<lparr>n_server := Some (sv\<lparr>sv_threadPool := lp\<rparr>)\<rparr>"
  have run: "EventLoop_runInLoop (server_exec user (Suc n)) (sv_loop sv) Fn_Acceptor_listen ?w2 = Ok w1"
    using rest w0
    by (auto simp: server_access acceptor_access assertion_def check_def split: option.splits sum.splits if_splits)
  have "n_server w1 = n_server ?w2"
    using run
    by (auto simp: EventLoop_runInLoop_def loop_access if_then_def EventLoop_wakeup_def dest: Acceptor_listen_server
        split: option.splits if_splits)
  with sv(2) lp show ?thesis
    by (simp add: TcpServer_start_def pool_start_def with_server_def EventLoopThreadPool_start_def)
qed

definition startable_net :: server_net where
  "startable_net = (example_server_net ((example_server 4)\<lparr>sv_threadPool := EventLoopThreadPool_new 4\<rparr>) None)
     \<lparr>w_heap := [3 \<mapsto> (example_channel [])\<lparr>ch_revents := POLLIN\<rparr>, 9 \<mapsto> Channel_new 4 20],
      n_acceptor := Some \<lparr>ac_loop = 4, ac_acceptSocket = 20, ac_acceptChannel = 9, ac_newConnectionCallback = True,
        ac_listening = False, ac_idleFd = 21\<rparr>\<rparr>"

lemma startable_loop: "\<exists>el. w_loops startable_net 4 = Some el \<and> el_threadId el = w_thread startable_net"
  by (simp add: startable_net_def) (simp add: example_net_def)

theorem second_start_aborts_witness:
  "\<exists>w1. TcpServer_start (server_exec (\<lambda>_ _ _. skip) (Suc 0)) (\<lambda>l. skip) [] startable_net = Ok w1 \<and>
     TcpServer_start (server_exec (\<lambda>_ _ _. skip) (Suc 0)) (\<lambda>l. skip) [] w1 = Fault AssertFailed"
proof -
  let ?exec = "server_exec (\<lambda>_ _ _. skip) (Suc 0)"
  let ?sv = "(example_server 4)\<lparr>sv_threadPool := EventLoopThreadPool_new 4\<rparr>"
  let ?a = "\<lparr>ac_loop = 4, ac_acceptSocket = 20, ac_acceptChannel = 9, ac_newConnectionCallback = True,
        ac_listening = True, ac_idleFd = 21\<rparr>"
  let ?w = "example_server_net ?sv None"
  let ?lp = "(EventLoopThreadPool_new 4)\<lparr>lp_started := True\<rparr>"
  let ?v = "startable_net\<lparr>n_server := Some (?sv\<lparr>sv_threadPool := ?lp\<rparr>), n_acceptor := Some ?a,
      k_listening := k_listening startable_net @ [20]\<rparr>"
  have sv: "n_server startable_net = Some ?sv" by (simp add: startable_net_def)
  have n: "\<not> sv_started ?sv" "\<not> sv_threadInitCallback ?sv" by (simp_all add: example_server_def)
  have a: "n_acceptor startable_net = Some (?a\<lparr>ac_listening := False\<rparr>)" by (simp add: startable_net_def)
  obtain el where el: "w_loops startable_net 4 = Some el" "el_threadId el = w_thread startable_net"
    using startable_loop by blast
  have "serves 4 ?w (example_conn_poller [])"
    using attachedD(2) [OF example_server_attached, of ?sv None] by (simp add: example_server_conn_def)
  from serves_new_channel(1,2) [OF this, of 9 "Channel_new 4 20"]
  have "serves 4 (?w\<lparr>w_heap := (w_heap ?w)(9 \<mapsto> Channel_new 4 20)\<rparr>) (example_conn_poller [])"
    "own_channel 4 (?w\<lparr>w_heap := (w_heap ?w)(9 \<mapsto> Channel_new 4 20)\<rparr>) (example_conn_poller []) 9 (Channel_new 4 20)"
    by (simp_all add: Channel_new_def example_conn_poller_def)
  then have v: "serves 4 ?v (example_conn_poller [])" "own_channel 4 ?v (example_conn_poller []) 9 (Channel_new 4 20)"
    by (simp_all add: serves_def own_channel_def startable_net_def fun_upd_twist del: updatable.simps)
  obtain w1 where w1: "Channel_change 9 (\<lambda>e. e OR kReadEvent) ?v = Ok w1"
    by (rule change_ok [OF v, of "\<lambda>e. e OR kReadEvent"])
  have "TcpServer_start ?exec (\<lambda>l. skip) [] startable_net = Ok w1"
    using sv n el a w1
    by (simp add: TcpServer_start_def pool_start_def server_access EventLoopThreadPool_start_def
        EventLoop_assertInLoopThread_def loop_access check_def skip_def EventLoopThreadPool_new_def
        acceptor_access assertion_def EventLoop_runInLoop_def EventLoop_isInLoopThread_def
        Acceptor_listen_def Socket_listen_def modify_def Channel_enableReading_def)
  with second_start_aborts [OF sv n this, of ?exec "\<lambda>l. skip" "[]"] show ?thesis by blast
qed

text \<open>
  Destroying a server that still has connections aborts the program: the destructor
  drops the map's references without \<open>connectDestroyed\<close>, so the first connection of which
  the map holds the last reference destroys a channel that is still registered.
\<close>

theorem destroying_live_server_aborts:
  assumes sv: "n_server w = Some sv" "EventLoop_assertInLoopThread (sv_loop sv) w = Ok w" "sv_connections sv \<noteq> []"
    and live: "\<And>name c. (name, c) \<in> set (sv_connections sv) \<Longrightarrow> \<exists>k ch. n_conns w c = Some k \<and> tc_refs k = 1 \<and>
        w_heap w (tc_channel k) = Some ch \<and> ch_addedToLoop ch"
  shows "TcpServer_destroy finish w = Fault AssertFailed"
proof -
  obtain name c rest where s: "sort_key fst (sv_connections sv) = (name, c) # rest"
    using sv(3) by (metis list.exhaust set_empty set_sort surj_pair)
  then have "(name, c) \<in> set (sv_connections sv)" by (metis list.set_intros(1) set_sort)
  then obtain k ch where k: "n_conns w c = Some k" "tc_refs k = 1" "w_heap w (tc_channel k) = Some ch" "ch_addedToLoop ch"
    using live by blast
  have "conn_unref c w = Fault AssertFailed"
    using k by (simp add: conn_unref_def conn_access TcpConnection_destroy_def Channel_destroy_def loop_access
        assertion_def check_def)
  with sv s show ?thesis by (simp add: TcpServer_destroy_def with_server_def)
qed

theorem destroying_live_server_aborts_witness:
  "TcpServer_destroy (\<lambda>_. skip) (example_server_net (example_server 4) None) = Fault AssertFailed"
proof -
  let ?w = "example_server_net (example_server 4) None"
  have "EventLoop_assertInLoopThread 4 ?w = Ok ?w"
    by (simp add: EventLoop_assertInLoopThread_def loop_access) (simp add: example_net_def check_def)
  then show ?thesis
    by (intro destroying_live_server_aborts [of ?w "example_server 4"])
      (auto simp: example_server_conn_def example_conn_def new_connection_def example_channel_def)
qed

end
