(* ===== verification/ServerStart.thy ===== *)
theory ServerStart
  imports TcpServer
begin

text \<open>
  The construction of a server with a pool of loops, as \<open>serverCode\<close> of \<open>main.cpp\<close> does it:
  the loop of the calling thread, the server on top of it, and \<open>start()\<close>, which starts the
  threads of the pool and lets the acceptor listen.
\<close>

section \<open>A loop more\<close>

text \<open>A channel of another loop, new or not, is nothing to a poller.\<close>

lemma foreign_channel:
  assumes ok: "poller_ok (p, h)" and c: "\<And>x. h c = Some x \<Longrightarrow> ch_loop x \<noteq> pl_ownerLoop p" and ch: "ch_loop ch \<noteq> pl_ownerLoop p"
  shows "poller_ok (p, h(c \<mapsto> ch))" "registered (p, h(c \<mapsto> ch)) = registered (p, h)"
proof -
  have free: "pl_channels p fd \<noteq> Some c" for fd
    using poller_okD_reg [OF ok, of fd c] c by (metis entry_ok_def)
  have slot: "slot_of p (h(c \<mapsto> ch)) d i \<longleftrightarrow> slot_of p h d i" for d i
    using free c by (auto simp: slot_of_def)
  show "poller_ok (p, h(c \<mapsto> ch))"
  proof (rule poller_okI)
    show "\<exists>x. (h(c \<mapsto> ch)) d = Some x \<and> ch_fd x = fd \<and> entry_ok p x" if "pl_channels p fd = Some d" for fd d
      using poller_okD_reg [OF ok that] that free by (metis fun_upd_other)
    show "pl_channels p (ch_fd x) = Some d"
      if "(h(c \<mapsto> ch)) d = Some x" "ch_loop x = pl_ownerLoop p" "0 \<le> ch_index x" for d x
      using that ch poller_okD_index [OF ok] by (auto split: if_splits)
    show "d = e" if "slot_of p (h(c \<mapsto> ch)) d i" "slot_of p (h(c \<mapsto> ch)) e i" for d e i
      using that slot_unique [OF ok] by (simp add: slot)
    show "\<exists>d. slot_of p (h(c \<mapsto> ch)) d i" if "i < length (pl_pollfds p)" for i
      using poller_okD_slot [OF ok that] by (metis slot)
  qed
  show "registered (p, h(c \<mapsto> ch)) = registered (p, h)" using free c by auto
qed

text \<open>\<open>serving t l p X w\<close>: loop \<open>l\<close> belongs to thread \<open>t\<close> and has exactly the channels \<open>X\<close> registered.\<close>

definition serving :: "nat \<Rightarrow> loop_id \<Rightarrow> poller \<Rightarrow> chan_id set \<Rightarrow> ('cb, 'f, 'z) world_scheme \<Rightarrow> bool" where
  "serving t l p X w \<longleftrightarrow> serves l (w\<lparr>w_thread := t\<rparr>) p \<and> registered (p, w_heap w) = X"

lemma serving_frame:
  assumes "serving t l p X w" "w_heap w' = w_heap w" "w_loops w' = w_loops w"
  shows "serving t l p X w'"
  using assms by (simp add: serving_def serves_def del: registered.simps)

lemma startLoop_serving:
  assumes fresh: "fresh_loop l c (w\<lparr>w_thread := t\<rparr>)"
  obtains w' p where "EventLoopThread_startLoop (\<lambda>l. skip) (t, l, c, fds) (EventLoopThread_new False) w =
      Ok (l, \<lparr>lt_loop = Some l, lt_exiting = False, lt_hasCallback = False\<rparr>, w')"
    "serving t l p {c} w'" "\<And>s k q X. k \<noteq> l \<Longrightarrow> serving s k q X w \<Longrightarrow> serving s k q X w'"
    "\<And>d. d \<noteq> c \<Longrightarrow> w_heap w' d = w_heap w d" "\<exists>ch. w_heap w' c = Some ch \<and> ch_loop ch = l"
    "\<And>k. k \<noteq> l \<Longrightarrow> w_loops w' k = w_loops w k"
    "w' = w\<lparr>w_heap := w_heap w', w_loops := w_loops w', w_loopInThisThread := (w_loopInThisThread w)(t \<mapsto> l)\<rparr>"
proof -
  show thesis
  proof (rule EventLoop_new_serves [OF fresh, of fds "Cb_EventLoop_handleRead l"], goal_cases)
  case (1 w1 p ch)
  let ?w' = "w1\<lparr>w_thread := w_thread w\<rparr>"
  have c: "w_heap w c = None" "w_loops w l = None" using fresh by (simp_all add: fresh_loop_def)
  have ch: "w_heap w1 c = Some ch" "ch_loop ch = l" using 1(3) unfolding own_channel_def by blast+
  have heap: "w_heap w1 = (w_heap w)(c \<mapsto> ch)" using 1(8) ch by (auto simp: fun_eq_iff)
  have other: "serving s k q X ?w'" if "k \<noteq> l" "serving s k q X w" for s k q X
  proof -
    have q: "poller_ok (q, w_heap w)" "ch_loop ch \<noteq> pl_ownerLoop q"
      using that ch(2) by (auto simp: serving_def serves_def)
    show ?thesis
      using that foreign_channel [of q "w_heap w" c ch, OF q(1) _ q(2)] c(1) 1(9) [OF that(1)] heap
      by (simp add: serving_def serves_def del: registered.simps)
  qed
  show thesis
  proof (rule that)
    show "EventLoopThread_startLoop (\<lambda>l. skip) (t, l, c, fds) (EventLoopThread_new False) w =
        Ok (l, \<lparr>lt_loop = Some l, lt_exiting = False, lt_hasCallback = False\<rparr>, ?w')"
      using 1(1) by (simp add: EventLoopThread_startLoop_def EventLoopThread_new_def on_thread_def skip_def)
    show "serving t l p {c} ?w'"
      using 1(2,4) by (subst (asm) 1(10)) (simp add: serving_def serves_def del: registered.simps)
    show "?w' = w\<lparr>w_heap := w_heap ?w', w_loops := w_loops ?w', w_loopInThisThread := (w_loopInThisThread w)(t \<mapsto> l)\<rparr>"
      by (subst 1(10)) simp
  qed (use other 1(8,9) ch in auto)
  qed
qed

section \<open>The threads of the pool\<close>

text \<open>What the system gives the threads is new and distinct.\<close>

definition fresh_threads :: "thread_resources list \<Rightarrow> ('cb, 'f, 'z) world_scheme \<Rightarrow> bool" where
  "fresh_threads rs w \<longleftrightarrow> distinct (map fst rs) \<and> distinct (map (\<lambda>r. fst (snd r)) rs) \<and>
     distinct (map (\<lambda>r. fst (snd (snd r))) rs) \<and> (\<forall>(t, l, c, fds) \<in> set rs. fresh_loop l c (w\<lparr>w_thread := t\<rparr>))"

lemma fresh_threads_Cons:
  assumes fresh: "fresh_threads ((t, l, c, fds) # rs) w"
    and w': "\<And>d. d \<noteq> c \<Longrightarrow> w_heap w' d = w_heap w d" "\<exists>ch. w_heap w' c = Some ch \<and> ch_loop ch = l"
      "\<And>k. k \<noteq> l \<Longrightarrow> w_loops w' k = w_loops w k" "w_loopInThisThread w' = (w_loopInThisThread w)(t \<mapsto> l)"
  shows "fresh_threads rs w'"
proof -
  have "fresh_loop l' c' (w'\<lparr>w_thread := t'\<rparr>)" if r: "(t', l', c', fds') \<in> set rs" for t' l' c' fds'
  proof -
    have "t' \<noteq> t" "l' \<noteq> l" "c' \<noteq> c" and f: "fresh_loop l' c' (w\<lparr>w_thread := t'\<rparr>)"
      using fresh r by (auto simp: fresh_threads_def image_iff)
    moreover have "ch_loop ch \<noteq> l'" if "w_heap w' d = Some ch" for d ch
      using f that w'(1,2) \<open>l' \<noteq> l\<close> by (cases "d = c") (auto simp: fresh_loop_def)
    ultimately show ?thesis using w' f by (simp add: fresh_loop_def)
  qed
  then show ?thesis using fresh by (auto simp: fresh_threads_def)
qed

lemma start_threads_serving:
  assumes "fresh_threads rs w"
  shows "\<exists>w' lts. start_threads (\<lambda>l. skip) False rs lp w =
      Ok (lp\<lparr>lp_loops := lp_loops lp @ map (\<lambda>r. fst (snd r)) rs, lp_threads := lp_threads lp @ lts\<rparr>, w') \<and>
    (\<forall>(t, l, c, fds) \<in> set rs. \<exists>p. serving t l p {c} w') \<and>
    (\<forall>s k q X. k \<notin> (\<lambda>r. fst (snd r)) ` set rs \<longrightarrow> serving s k q X w \<longrightarrow> serving s k q X w') \<and>
    (\<forall>d. d \<notin> (\<lambda>r. fst (snd (snd r))) ` set rs \<longrightarrow> w_heap w' d = w_heap w d) \<and>
    (\<forall>k. k \<notin> (\<lambda>r. fst (snd r)) ` set rs \<longrightarrow> w_loops w' k = w_loops w k) \<and>
    w' = w\<lparr>w_heap := w_heap w', w_loops := w_loops w', w_loopInThisThread := w_loopInThisThread w'\<rparr>"
  using assms
proof (induction rs arbitrary: lp w)
  case Nil
  show ?case by (intro exI [of _ w] exI [of _ "[]"]) simp
next
  case (Cons r rs)
  obtain t l c fds where r: "r = (t, l, c, fds)" by (cases r)
  have fresh: "fresh_loop l c (w\<lparr>w_thread := t\<rparr>)" and new: "l \<notin> (\<lambda>r. fst (snd r)) ` set rs"
    using Cons.prems by (auto simp: fresh_threads_def r)
  show ?case
  proof (rule startLoop_serving [OF fresh, of fds], goal_cases)
    case (1 w1 p)
    have "w_loopInThisThread w1 = (w_loopInThisThread w)(t \<mapsto> l)" by (subst 1(7)) simp
    note rest = fresh_threads_Cons [OF Cons.prems [unfolded r] 1(4,5,6) this]
    let ?lt = "\<lparr>lt_loop = Some l, lt_exiting = False, lt_hasCallback = False\<rparr>"
    let ?lp = "lp\<lparr>lp_loops := lp_loops lp @ [l], lp_threads := lp_threads lp @ [?lt]\<rparr>"
    obtain w' lts where w': "start_threads (\<lambda>l. skip) False rs ?lp w1 =
        Ok (?lp\<lparr>lp_loops := lp_loops ?lp @ map (\<lambda>r. fst (snd r)) rs, lp_threads := lp_threads ?lp @ lts\<rparr>, w')"
      and all: "\<forall>(t, l, c, fds) \<in> set rs. \<exists>p. serving t l p {c} w'"
      and keep: "\<forall>s k q X. k \<notin> (\<lambda>r. fst (snd r)) ` set rs \<longrightarrow> serving s k q X w1 \<longrightarrow> serving s k q X w'"
      and heap: "\<forall>d. d \<notin> (\<lambda>r. fst (snd (snd r))) ` set rs \<longrightarrow> w_heap w' d = w_heap w1 d"
      and loops: "\<forall>k. k \<notin> (\<lambda>r. fst (snd r)) ` set rs \<longrightarrow> w_loops w' k = w_loops w1 k"
      and frame: "w' = w1\<lparr>w_heap := w_heap w', w_loops := w_loops w', w_loopInThisThread := w_loopInThisThread w'\<rparr>"
      using Cons.IH [OF rest, of ?lp] by blast
    have run: "start_threads (\<lambda>l. skip) False (r # rs) lp w =
        Ok (lp\<lparr>lp_loops := lp_loops lp @ map (\<lambda>r. fst (snd r)) (r # rs), lp_threads := lp_threads lp @ ?lt # lts\<rparr>, w')"
      using 1(1) w' by (simp add: r)
    have kept: "\<forall>s k q X. k \<notin> (\<lambda>r. fst (snd r)) ` set (r # rs) \<longrightarrow> serving s k q X w \<longrightarrow> serving s k q X w'"
      using keep 1(3) by (simp add: r)
    have "serving t l p {c} w'" using keep new 1(2) by blast
    moreover have "w' = w\<lparr>w_heap := w_heap w', w_loops := w_loops w', w_loopInThisThread := w_loopInThisThread w'\<rparr>"
      by (subst frame, subst 1(7)) simp
    ultimately show ?case
      using run kept all heap loops 1(4,6) by (intro exI [of _ w'] exI [of _ "?lt # lts"] conjI) (auto simp: r)
  qed
qed

section \<open>The server comes up\<close>

text \<open>
  \<open>serverCode\<close> up to \<open>loop()\<close>: \<open>hw\<close> is the number of hardware threads, \<open>rs\<close> what the system
  gives the threads of the pool, and the callback with number 0 is \<open>messageCallback\<close>.
\<close>

definition server_setup :: "'z server_exec \<Rightarrow> loop_id \<Rightarrow> chan_id \<Rightarrow> (int \<times> int) option \<Rightarrow> chan_id \<Rightarrow> int \<Rightarrow> int \<Rightarrow> int \<Rightarrow>
    thread_resources list \<Rightarrow> int \<Rightarrow> 'z server_net_scheme stmt" where
  "server_setup exec l c pipe_res chan sock idle hw rs serverPort = block
     [EventLoop_new l c 0 pipe_res (Cb_EventLoop_handleRead l),
      TcpServer_new chan sock idle l (InetAddress_any (word_of_int serverPort)) ''echo server'' True,
      TcpServer_setThreadNum hw,
      TcpServer_setMessageCallback (Cb_user 0),
      TcpServer_start exec (\<lambda>l. skip) rs]"

text \<open>The acceptor and the server that the constructors leave, before \<open>start()\<close>.\<close>

definition new_acceptor :: "loop_id \<Rightarrow> chan_id \<Rightarrow> int \<Rightarrow> int \<Rightarrow> bool \<Rightarrow> acceptor" where
  "new_acceptor l chan sock idle listening = \<lparr>ac_loop = l, ac_acceptSocket = sock, ac_acceptChannel = chan,
     ac_newConnectionCallback = True, ac_listening = listening, ac_idleFd = idle\<rparr>"

definition new_server :: "loop_id \<Rightarrow> sockaddr_in \<Rightarrow> string \<Rightarrow> loop_pool \<Rightarrow> tcp_server" where
  "new_server l addr ipPort lp = \<lparr>sv_loop = l, sv_ipPort = ipPort, sv_name = ''echo server'', sv_threadPool = lp,
     sv_started = False, sv_nextConnId = 1, sv_connections = [], sv_connectionCallback = defaultConnectionCallback,
     sv_messageCallback = Cb_user 0, sv_threadInitCallback = False, sv_listenAddr = addr\<rparr>"

definition accept_channel :: "loop_id \<Rightarrow> int \<Rightarrow> callback channel" where
  "accept_channel l sock = (Channel_new l sock)\<lparr>ch_readCallback := Some Cb_Acceptor_handleRead\<rparr>"

definition before_start :: "loop_id \<Rightarrow> chan_id \<Rightarrow> int \<Rightarrow> int \<Rightarrow> int \<Rightarrow> sockaddr_in \<Rightarrow> string \<Rightarrow> 'z server_net_scheme \<Rightarrow>
    'z server_net_scheme" where
  "before_start l chan sock idle hw addr ipPort w = w\<lparr>w_heap := (w_heap w)(chan \<mapsto> accept_channel l sock),
     k_socks := (k_socks w)(sock := new_socket\<lparr>sa_options := (\<lambda>opt. if opt = SO_REUSEADDR then 1 else 0)\<rparr>),
     n_acceptor := Some (new_acceptor l chan sock idle False), k_bound := k_bound w @ [(sock, addr)],
     n_server := Some (new_server l addr ipPort (EventLoopThreadPool_setThreadNum hw (EventLoopThreadPool_new l)))\<rparr>"

lemma construction_eq:
  assumes "InetAddress_toIpPort addr = Ok ipPort" "0 \<le> idle" "0 \<le> hw"
  shows "block [TcpServer_new chan sock idle l addr ''echo server'' True, TcpServer_setThreadNum hw,
      TcpServer_setMessageCallback (Cb_user 0)] w = Ok (before_start l chan sock idle hw addr ipPort w)"
proof -
  have opts: "Socket_setReuseAddr sock True ((k_socks w)(sock := new_socket)) =
      (k_socks w)(sock := new_socket\<lparr>sa_options := (\<lambda>opt. if opt = SO_REUSEADDR then 1 else 0)\<rparr>)"
    by (simp add: Socket_setReuseAddr_def new_socket_option)
  show ?thesis
    using assms opts
    by (simp add: TcpServer_new_def Acceptor_new_def modify_def assertion_def check_def if_then_def Socket_bindAddress_def
        loop_access acceptor_access TcpServer_setThreadNum_def TcpServer_setMessageCallback_def server_access
        before_start_def new_acceptor_def new_server_def accept_channel_def)
qed

lemma construction_block:
  assumes "InetAddress_toIpPort addr = Ok ipPort" "0 \<le> idle" "0 \<le> hw"
    and "EventLoop_new l c 0 pipe_res (Cb_EventLoop_handleRead l) w = Ok w1"
    and "addr = InetAddress_any (word_of_int serverPort)"
  shows "server_setup exec l c pipe_res chan sock idle hw rs serverPort w =
    TcpServer_start exec (\<lambda>l. skip) rs (before_start l chan sock idle hw addr ipPort w1)"
  using construction_eq [OF assms(1-3), of chan sock l w1] assms(4,5)
  by (auto simp: server_setup_def split: sum.splits)

text \<open>Another channel of a known loop takes nothing from what the threads get.\<close>

lemma fresh_threads_heap:
  assumes "fresh_threads rs w" "chan \<notin> (\<lambda>r. fst (snd (snd r))) ` set rs" "ch_loop ch \<notin> (\<lambda>r. fst (snd r)) ` set rs"
    and "w_heap w' = (w_heap w)(chan \<mapsto> ch)" "w_loops w' = w_loops w" "w_loopInThisThread w' = w_loopInThisThread w"
  shows "fresh_threads rs w'"
proof -
  have "fresh_loop l c (w'\<lparr>w_thread := t\<rparr>)" if r: "(t, l, c, fds) \<in> set rs" for t l c fds
  proof -
    have "c \<noteq> chan" "ch_loop ch \<noteq> l" and f: "fresh_loop l c (w\<lparr>w_thread := t\<rparr>)"
      using assms(1-3) r by (auto simp: fresh_threads_def image_iff)
    then show ?thesis using assms(4-6) by (auto simp: fresh_loop_def)
  qed
  then show ?thesis using assms(1) by (auto simp: fresh_threads_def)
qed

lemma entry_of_unregistered: "c \<notin> registered (p, h) \<Longrightarrow> entry_of (p, h) c = None"
  by (auto simp: entry_of_def split: option.splits)

text \<open>
  C20. The server program comes up: on a new loop, with a pool of any size, the constructors and
  \<open>start()\<close> succeed. Then the listening socket is bound and listens, its channel is registered
  with read interest in the loop of the calling thread, beside the wake-up channel only; the
  pool holds one loop for each thread, in order, and each of them serves its own thread with
  its wake-up channel registered.
\<close>

theorem server_comes_up:
  assumes loop: "fresh_loop l c w" and chan: "w_heap w chan = None" "chan \<noteq> c" "fst fds \<noteq> sock" and idle: "0 \<le> idle"
    and threads: "fresh_threads ((w_thread w, l, c, fds) # rs) w" "chan \<notin> (\<lambda>r. fst (snd (snd r))) ` set rs"
  shows "\<exists>w' sv p. server_setup (server_exec user (Suc n)) l c (Some fds) chan sock idle (int (length rs)) rs serverPort w = Ok w' \<and>
    n_acceptor w' = Some (new_acceptor l chan sock idle True) \<and>
    k_bound w' = k_bound w @ [(sock, InetAddress_any (word_of_int serverPort))] \<and> k_listening w' = k_listening w @ [sock] \<and>
    serving (w_thread w) l p {c, chan} w' \<and>
    entry_of (p, w_heap w') chan = Some \<lparr>pfd_fd = sock, pfd_events = ucast kReadEvent, pfd_revents = 0\<rparr> \<and>
    n_server w' = Some sv \<and> lp_loops (sv_threadPool sv) = map (\<lambda>r. fst (snd r)) rs \<and>
    (\<forall>(t, l, c, fds) \<in> set rs. \<exists>q. serving t l q {c} w')"
proof -
  let ?addr = "InetAddress_any (word_of_int serverPort)"
  obtain ipPort where ip: "InetAddress_toIpPort ?addr = Ok ipPort" by (rule toIpPort_length)
  let ?lp = "EventLoopThreadPool_setThreadNum (int (length rs)) (EventLoopThreadPool_new l)"
  have l: "l \<notin> (\<lambda>r. fst (snd r)) ` set rs" using threads by (simp add: fresh_threads_def)
  show ?thesis
  proof (rule EventLoop_new_serves [OF loop, of fds "Cb_EventLoop_handleRead l"], goal_cases)
    case (1 w1 p1 ch1)
    let ?w2 = "before_start l chan sock idle (int (length rs)) ?addr ipPort w1"
    let ?acc = "accept_channel l sock"
    have acc: "ch_loop ?acc = l" "ch_index ?acc < 0" "ch_fd ?acc = sock" "ch_events ?acc = 0"
      by (simp_all add: accept_channel_def Channel_new_def)
    note w1 = 1(1)
    have ch1: "w_heap w1 c = Some ch1" "ch_loop ch1 = l" using 1(3) unfolding own_channel_def by blast+
    have t1: "w_loopInThisThread w1 = (w_loopInThisThread w)(w_thread w \<mapsto> l)" "w_thread w1 = w_thread w"
      by (subst 1(10), simp)+
    have k1: "k_bound w1 = k_bound w" "k_listening w1 = k_listening w"
      by (subst 1(10), simp)+
    have fresh1: "fresh_threads rs w1"
      by (rule fresh_threads_Cons [OF threads(1)]) (use 1(8,9) ch1 t1 in auto)
    have free: "w_heap w1 chan = None" using 1(8) [of chan] chan by simp
    have sock: "pl_channels p1 (ch_fd ?acc) = None"
    proof (rule ccontr)
      assume "pl_channels p1 (ch_fd ?acc) \<noteq> None"
      then obtain d where d: "pl_channels p1 sock = Some d" using acc(3) by auto
      have "poller_ok (p1, w_heap w1)" using 1(2) by (simp add: serves_def)
      then obtain x where "w_heap w1 d = Some x" "ch_fd x = sock" using poller_okD_reg d by blast
      then have "d \<in> registered (p1, w_heap w1)" using d by auto
      then have "d = c" using 1(4) by (simp del: registered.simps)
      with \<open>w_heap w1 d = Some x\<close> \<open>ch_fd x = sock\<close> ch1 1(5) chan(3) show False by simp
    qed
    note added = serves_new_channel [OF 1(2) free acc(1,2) sock]
    have heap2: "w_heap ?w2 = (w_heap w1)(chan \<mapsto> ?acc)" "w_loops ?w2 = w_loops w1" "w_thread ?w2 = w_thread w"
      "w_loopInThisThread ?w2 = w_loopInThisThread w1"
      using t1 by (simp_all add: before_start_def)
    have fresh2: "fresh_threads rs ?w2"
      by (rule fresh_threads_heap [OF fresh1 threads(2) _ heap2(1,2,4)]) (use l acc(1) in simp)
    have sv2: "serving (w_thread w) l p1 {c} ?w2"
      using added(1,3) 1(4) heap2 t1(2) by (simp add: serving_def serves_def del: registered.simps)
    have loop2: "\<exists>el. w_loops ?w2 l = Some el \<and> el_threadId el = w_thread ?w2"
      using sv2 heap2(3) by (auto simp: serving_def serves_def)
    obtain w3 lts where threads3: "start_threads (\<lambda>l. skip) False rs ?lp ?w2 =
        Ok (?lp\<lparr>lp_loops := map (\<lambda>r. fst (snd r)) rs, lp_threads := lts\<rparr>, w3)"
      and all3: "\<forall>(t, l, c, fds) \<in> set rs. \<exists>p. serving t l p {c} w3"
      and keep3: "\<forall>s k q X. k \<notin> (\<lambda>r. fst (snd r)) ` set rs \<longrightarrow> serving s k q X ?w2 \<longrightarrow> serving s k q X w3"
      and heap3: "\<forall>d. d \<notin> (\<lambda>r. fst (snd (snd r))) ` set rs \<longrightarrow> w_heap w3 d = w_heap ?w2 d"
      and frame3: "w3 = ?w2\<lparr>w_heap := w_heap w3, w_loops := w_loops w3, w_loopInThisThread := w_loopInThisThread w3\<rparr>"
      using start_threads_serving [OF fresh2, of ?lp]
      by (auto simp: EventLoopThreadPool_setThreadNum_def EventLoopThreadPool_new_def)
    have sv3: "serving (w_thread w) l p1 {c} w3" using keep3 l sv2 by blast
    have same3: "w_thread w3 = w_thread w" "n_server w3 = n_server ?w2" "n_acceptor w3 = n_acceptor ?w2"
      "k_bound w3 = k_bound ?w2" "k_listening w3 = k_listening ?w2"
      by (subst frame3, simp add: heap2(3))+
    let ?lp3 = "?lp\<lparr>lp_loops := map (\<lambda>r. fst (snd r)) rs, lp_threads := lts, lp_started := True\<rparr>"
    let ?sv = "new_server l ?addr ipPort ?lp3"
    let ?w4 = "w3\<lparr>n_server := Some ?sv, n_acceptor := Some (new_acceptor l chan sock idle True),
        k_listening := k_listening w3 @ [sock]\<rparr>"
    have chan4: "w_heap ?w4 chan = Some ?acc" using heap3 threads(2) heap2(1) by simp
    have sv4: "serves l ?w4 p1" using sv3 same3(1) by (simp add: serving_def serves_def)
    have own4: "own_channel l ?w4 p1 chan ?acc"
      using chan4 sock acc sv4 by (simp add: own_channel_def serves_def)
    have reg4: "registered (p1, w_heap ?w4) = {c}" using sv3 by (simp add: serving_def del: registered.simps)
    have thread4: "\<exists>el. w_loops w3 l = Some el \<and> el_threadId el = w_thread w3"
      using sv4 by (auto simp: serves_def)
    show ?thesis
    proof (rule change_ok [OF sv4 own4, of "\<lambda>e. e OR kReadEvent"], goal_cases)
      case (1 w5 p5 i)
      have start: "TcpServer_start (server_exec user (Suc n)) (\<lambda>l. skip) rs ?w2 = Ok w5"
        using 1(1) threads3 loop2 thread4 same3
        by (auto simp: TcpServer_start_def pool_start_def server_access EventLoopThreadPool_start_def
            EventLoop_assertInLoopThread_def loop_access check_def skip_def EventLoopThreadPool_setThreadNum_def
            EventLoopThreadPool_new_def acceptor_access assertion_def EventLoop_runInLoop_def EventLoop_isInLoopThread_def
            Acceptor_listen_def Socket_listen_def modify_def Channel_enableReading_def before_start_def
            new_server_def new_acceptor_def)
      have run: "server_setup (server_exec user (Suc n)) l c (Some fds) chan sock idle (int (length rs)) rs serverPort w = Ok w5"
        unfolding construction_block [OF ip idle of_nat_0_le_iff w1 refl] by (rule start)
      have frame5: "n_acceptor w5 = Some (new_acceptor l chan sock idle True)" "n_server w5 = Some ?sv"
        "k_bound w5 = k_bound w @ [(sock, ?addr)]" "k_listening w5 = k_listening w @ [sock]" "w_thread w5 = w_thread w"
        by (subst 1(7), simp add: same3 before_start_def k1)+
      have i5: "\<exists>x. w_heap w5 chan = Some x \<and> ch_loop x = l" using 1(3) acc(1) unfolding own_channel_def by auto
      then obtain x5 where x5: "w_heap w5 = (w_heap w3)(chan \<mapsto> x5)" "ch_loop x5 = l"
        using 1(9) by (auto simp: fun_eq_iff)
      have other: "serving s k q X w5" if "k \<noteq> l" "serving s k q X w3" for s k q X
      proof -
        have q: "poller_ok (q, w_heap w3)" "l \<noteq> pl_ownerLoop q" using that by (auto simp: serving_def serves_def)
        then have "poller_ok (q, w_heap w5)" "registered (q, w_heap w5) = registered (q, w_heap w3)"
          unfolding x5(1) using foreign_channel [of q "w_heap w3" chan x5] chan4 acc(1) x5(2) by auto
        then show ?thesis using that 1(8) by (simp add: serving_def serves_def del: registered.simps)
      qed
      have none: "entry_of (p1, w_heap ?w4) chan = None"
        by (rule entry_of_unregistered) (use reg4 chan(2) in \<open>simp del: registered.simps\<close>)
      have entry: "entry_of (p5, w_heap w5) chan = Some \<lparr>pfd_fd = sock, pfd_events = ucast kReadEvent, pfd_revents = 0\<rparr>"
        unfolding 1(6) [OF none] using acc by (simp add: new_pollfd_def)
      have sv5: "serving (w_thread w) l p5 {c, chan} w5"
        using 1(2,4) reg4 frame5(5) unfolding serving_def by (auto simp: serves_def simp del: registered.simps)
      have others: "\<forall>(t, l, c, fds) \<in> set rs. \<exists>q. serving t l q {c} w5"
      proof (clarify)
        fix t k d fds assume r: "(t, k, d, fds) \<in> set rs"
        then have "k \<noteq> l" using l by force
        then show "\<exists>q. serving t k q {d} w5" using all3 r other by blast
      qed
      show ?case
        using run frame5(1,3,4) sv5 entry frame5(2) others
        by (intro exI [of _ w5] exI [of _ ?sv] exI [of _ p5]) (simp add: new_server_def)
    qed
  qed
qed

text \<open>A process without loops, and the resources of two threads.\<close>

definition empty_server_net :: server_net where
  "empty_server_net = (example_server_net (example_server 4) None)\<lparr>w_heap := Map.empty, w_loops := Map.empty,
     w_loopInThisThread := Map.empty\<rparr>"

definition two_threads :: "thread_resources list" where
  "two_threads = [(2, 5, 11, (21, 22)), (3, 6, 12, (23, 24))]"

lemma empty_server_net_simps [simp]:
  "w_heap empty_server_net = Map.empty" "w_loops empty_server_net = Map.empty" "w_thread empty_server_net = 1"
  "w_loopInThisThread empty_server_net = Map.empty"
  by (simp_all add: empty_server_net_def)

theorem server_comes_up_witness:
  "\<exists>w' sv. server_setup (server_exec (\<lambda>_ _ _. skip) 1) 4 10 (Some (19, 20)) 13 30 31 2 two_threads 9000 empty_server_net = Ok w' \<and>
     n_server w' = Some sv \<and> lp_loops (sv_threadPool sv) = [5, 6]"
proof -
  have "fresh_loop 4 10 empty_server_net" by (simp add: fresh_loop_def)
  moreover have "fresh_threads ((w_thread empty_server_net, 4, 10, (19, 20)) # two_threads) empty_server_net"
    by (simp add: fresh_threads_def two_threads_def fresh_loop_def)
  ultimately show ?thesis
    using server_comes_up [of 4 10 empty_server_net 13 "(19, 20)" 30 31 two_threads "\<lambda>_ _ _. skip" 0 9000]
    by (auto simp: two_threads_def)
qed

end
