(* ===== verification/ServerStop.thy ===== *)
theory ServerStop
  imports ServerStart
begin

text \<open>
  The way down: the destructors of \<open>EventLoopThreadPool\<close> and \<open>TcpServer\<close>, for a server without
  connections. A thread of the pool that has entered \<open>loop()\<close> is woken up, leaves it, destroys its
  loop and is joined; when all are gone, the acceptor unregisters its channel and closes its
  descriptors. A thread that has not entered \<open>loop()\<close> when \<open>quit()\<close> is called clears the flag, and
  the destructor does not come back.
\<close>

section \<open>A loop that waits in \<open>poll\<close>\<close>

definition wake_channel :: "loop_id \<Rightarrow> int \<times> int \<Rightarrow> 'cb \<Rightarrow> 'cb channel" where
  "wake_channel l fds cb = (Channel_new l (fst fds))
     \<lparr>ch_events := kReadEvent, ch_index := 0, ch_readCallback := Some cb, ch_addedToLoop := True\<rparr>"

definition wake_poller :: "loop_id \<Rightarrow> chan_id \<Rightarrow> int \<times> int \<Rightarrow> poller" where
  "wake_poller l c fds = \<lparr>pl_ownerLoop = l,
     pl_pollfds = [\<lparr>pfd_fd = fst fds, pfd_events = ucast kReadEvent, pfd_revents = 0\<rparr>], pl_channels = [fst fds \<mapsto> c]\<rparr>"

definition waiting_loop :: "nat \<Rightarrow> loop_id \<Rightarrow> chan_id \<Rightarrow> int \<times> int \<Rightarrow> 'f eventloop" where
  "waiting_loop t l c fds = \<lparr>el_threadId = t, el_looping = False, el_quit = False,
     el_poller = Some (wake_poller l c fds), el_activeChannels = [], el_callingPendingFunctors = False,
     el_wakeupPipe = fds, el_pipeBytes = 0, el_wakeupChannel = Some c, el_pendingFunctors = []\<rparr>"

definition add_loop :: "thread_resources \<Rightarrow> 'cb \<Rightarrow> ('cb, 'f, 'z) world_scheme \<Rightarrow> ('cb, 'f, 'z) world_scheme" where
  "add_loop r cb w = (case r of (t, l, c, fds) \<Rightarrow>
     w\<lparr>w_heap := (w_heap w)(c \<mapsto> wake_channel l fds cb), w_loops := (w_loops w)(l \<mapsto> waiting_loop t l c fds),
       w_loopInThisThread := (w_loopInThisThread w)(t \<mapsto> l)\<rparr>)"

definition drop_loop :: "thread_resources \<Rightarrow> ('cb, 'f, 'z) world_scheme \<Rightarrow> ('cb, 'f, 'z) world_scheme" where
  "drop_loop r w = (case r of (t, l, c, fds) \<Rightarrow>
     w\<lparr>w_heap := (w_heap w)(c := None), w_loops := (w_loops w)(l := None),
       w_loopInThisThread := (w_loopInThisThread w)(t := None)\<rparr>)"











section \<open>One thread\<close>




section \<open>The pool\<close>

definition loop_of :: "thread_resources \<Rightarrow> loop_id" where "loop_of r = fst (snd r)"
definition channel_of :: "thread_resources \<Rightarrow> chan_id" where "channel_of r = fst (snd (snd r))"



definition add_wake_loop :: "thread_resources \<Rightarrow> 'z net_scheme \<Rightarrow> 'z net_scheme" where
  "add_wake_loop r = add_loop r (Cb_EventLoop_handleRead (loop_of r))"

lemmas thread_parts = loop_of_def channel_of_def

lemma fold_drop_loop_fields:
  "w_heap (fold drop_loop rs w) d = (if d \<in> channel_of ` set rs then None else w_heap w d)"
  "w_loops (fold drop_loop rs w) k = (if k \<in> loop_of ` set rs then None else w_loops w k)"
  "w_loopInThisThread (fold drop_loop rs w) t = (if t \<in> fst ` set rs then None else w_loopInThisThread w t)"
  by (induction rs arbitrary: w) (auto simp: drop_loop_def thread_parts split: prod.splits)

lemma fold_drop_loop_frame:
  "fold drop_loop rs w = w\<lparr>w_heap := w_heap (fold drop_loop rs w), w_loops := w_loops (fold drop_loop rs w),
     w_loopInThisThread := w_loopInThisThread (fold drop_loop rs w)\<rparr>"
proof (induction rs arbitrary: w)
  case Nil
  then show ?case by simp
next
  case (Cons r rs)
  show ?case
    by (subst (1) fold_simps(2), subst Cons.IH) (simp add: drop_loop_def split: prod.splits)
qed














lemma add_wake_loop_fields:
  "w_heap (add_wake_loop r w) d = (if d = channel_of r then Some (wake_channel (loop_of r) (snd (snd (snd r))) (Cb_EventLoop_handleRead (loop_of r))) else w_heap w d)"
  "w_loops (add_wake_loop r w) k = (if k = loop_of r then Some (waiting_loop (fst r) k (channel_of r) (snd (snd (snd r)))) else w_loops w k)"
  "w_loopInThisThread (add_wake_loop r w) = (w_loopInThisThread w)(fst r \<mapsto> loop_of r)"
  "w_thread (add_wake_loop r w) = w_thread w"
  by (auto simp: add_wake_loop_def add_loop_def thread_parts split: prod.splits)



lemma fold_add_wake_loop_fields:
  "d \<notin> channel_of ` set rs \<Longrightarrow> w_heap (fold add_wake_loop rs w) d = w_heap w d"
  "k \<notin> loop_of ` set rs \<Longrightarrow> w_loops (fold add_wake_loop rs w) k = w_loops w k"
  "t \<notin> fst ` set rs \<Longrightarrow> w_loopInThisThread (fold add_wake_loop rs w) t = w_loopInThisThread w t"
  "w_thread (fold add_wake_loop rs w) = w_thread w"
  by (induction rs arbitrary: w) (auto simp: add_wake_loop_fields)

lemma fold_add_wake_loop_frame:
  "fold add_wake_loop rs w = w\<lparr>w_heap := w_heap (fold add_wake_loop rs w), w_loops := w_loops (fold add_wake_loop rs w),
     w_loopInThisThread := w_loopInThisThread (fold add_wake_loop rs w)\<rparr>"
proof (induction rs arbitrary: w)
  case Nil
  then show ?case by simp
next
  case (Cons r rs)
  show ?case
    by (subst (1) fold_simps(2), subst Cons.IH) (simp add: add_wake_loop_def add_loop_def split: prod.splits)
qed

lemma drop_added_loops:
  assumes "fresh_threads rs w"
  shows "fold drop_loop rs (fold add_wake_loop rs w) = w"
proof -
  let ?v = "fold add_wake_loop rs w"
  have none: "w_heap w d = None" if "d \<in> channel_of ` set rs" for d
    using assms that by (auto simp: fresh_threads_def fresh_loop_def channel_of_def)
  have noloop: "w_loops w k = None" if "k \<in> loop_of ` set rs" for k
    using assms that by (auto simp: fresh_threads_def fresh_loop_def loop_of_def)
  have nothread: "w_loopInThisThread w t = None" if "t \<in> fst ` set rs" for t
    using assms that by (auto simp: fresh_threads_def fresh_loop_def)
  have "w_heap (fold drop_loop rs ?v) = w_heap w" "w_loops (fold drop_loop rs ?v) = w_loops w"
    "w_loopInThisThread (fold drop_loop rs ?v) = w_loopInThisThread w"
    by (auto simp: fun_eq_iff fold_drop_loop_fields fold_add_wake_loop_fields none noloop nothread)
  then show ?thesis
    by (subst fold_drop_loop_frame) (subst (2) fold_add_wake_loop_frame, simp)
qed

section \<open>The server\<close>











end
