(* ===== verification/RefCounts.thy ===== *)
theory RefCounts
  imports TcpLifecycle
begin

text \<open>
  The use counts of the connections' shared pointers. Every reference is somewhere: in an
  object that owns connections, in a functor bound to a connection in the queue of a loop, or in
  the hands of a running statement. The counts are right if they are the number of these
  places. What owns connections besides the queues is left open by the locale \<open>ownership\<close>,
  which the servers interpret.
\<close>

section \<open>Where references are\<close>

definition refs :: "'z net_scheme \<Rightarrow> conn_id \<Rightarrow> nat" where
  "refs w c = (case n_conns w c of None \<Rightarrow> 0 | Some k \<Rightarrow> tc_refs k)"

definition bound_to :: "loop_functor list \<Rightarrow> conn_id \<Rightarrow> nat" where
  "bound_to fs c = length (filter (\<lambda>f. functor_conn f = Some c) fs)"

definition queued :: "'z net_scheme \<Rightarrow> conn_id \<Rightarrow> nat" where
  "queued w c = (\<Sum>l \<in> dom (w_loops w). bound_to (el_pendingFunctors (the (w_loops w l))) c)"

text \<open>
  \<open>own w c\<close>: how many references to \<open>c\<close> the owners of \<open>w\<close> hold; \<open>h c\<close>: how many the running
  statement holds. A live connection has a reference.
\<close>

definition counts :: "('z net_scheme \<Rightarrow> conn_id \<Rightarrow> nat) \<Rightarrow> ('z net_scheme \<Rightarrow> bool) \<Rightarrow> (conn_id \<Rightarrow> nat) \<Rightarrow>
    'z net_scheme \<Rightarrow> bool" where
  "counts own extra h w \<longleftrightarrow> finite (dom (w_loops w)) \<and> (\<forall>c. refs w c = own w c + queued w c + h c) \<and>
     (\<forall>c. n_conns w c \<noteq> None \<longrightarrow> 0 < refs w c) \<and> extra w"

lemma countsI:
  assumes "finite (dom (w_loops w))" "\<And>c. refs w c = own w c + queued w c + h c"
    "\<And>c. n_conns w c \<noteq> None \<Longrightarrow> 0 < refs w c" "extra w"
  shows "counts own extra h w"
  using assms by (simp add: counts_def)

lemma countsD:
  assumes "counts own extra h w"
  shows "finite (dom (w_loops w))" "refs w c = own w c + queued w c + h c"
    "n_conns w c \<noteq> None \<Longrightarrow> 0 < refs w c" "extra w"
  using assms unfolding counts_def by blast+

text \<open>One more reference in hand.\<close>

definition holding :: "conn_id \<Rightarrow> (conn_id \<Rightarrow> nat) \<Rightarrow> conn_id \<Rightarrow> nat" where
  "holding c h d = (if d = c then Suc (h d) else h d)"

lemma bound_to_simps [simp]:
  "bound_to [] c = 0" "bound_to (f # fs) c = (if functor_conn f = Some c then 1 else 0) + bound_to fs c"
  "bound_to (fs @ gs) c = bound_to fs c + bound_to gs c"
  by (simp_all add: bound_to_def)

lemma queued_upd:
  assumes "finite (dom (w_loops w))" "w_loops w l = Some el" "w_loops w' = (w_loops w)(l \<mapsto> el')"
  shows "queued w' c + bound_to (el_pendingFunctors el) c = queued w c + bound_to (el_pendingFunctors el') c"
proof -
  have l: "l \<in> dom (w_loops w)" and dom: "dom (w_loops w') = dom (w_loops w)" using assms(2,3) by auto
  let ?q = "\<lambda>w l. bound_to (el_pendingFunctors (the (w_loops w l))) c"
  have "queued w c = ?q w l + (\<Sum>l \<in> dom (w_loops w) - {l}. ?q w l)"
    "queued w' c = ?q w' l + (\<Sum>l \<in> dom (w_loops w) - {l}. ?q w' l)"
    unfolding queued_def dom using assms(1) l by (rule sum.remove)+
  moreover have "(\<Sum>l \<in> dom (w_loops w) - {l}. ?q w' l) = (\<Sum>l \<in> dom (w_loops w) - {l}. ?q w l)"
    using assms(3) by (intro sum.cong) auto
  ultimately show ?thesis using assms(2,3) by simp
qed

section \<open>Statements that keep the counts\<close>

text \<open>\<open>counted I s\<close>: with any references in hand, \<open>s\<close> keeps the counts.\<close>

definition counted :: "('h \<Rightarrow> 'w \<Rightarrow> bool) \<Rightarrow> 'w stmt \<Rightarrow> bool" where
  "counted I s \<longleftrightarrow> (\<forall>h. keeps (I h) s)"

lemma countedI: "(\<And>h w w'. I h w \<Longrightarrow> s w = Ok w' \<Longrightarrow> I h w') \<Longrightarrow> counted I s"
  by (auto simp: counted_def intro: keepsI)

lemma countedD: "counted I s \<Longrightarrow> I h w \<Longrightarrow> s w = Ok w' \<Longrightarrow> I h w'"
  by (auto simp: counted_def dest: keepsD)

named_theorems counted_intros "statements that keep the counts"

lemma counted_block [counted_intros]:
  "counted I (block [])"
  "counted I s \<Longrightarrow> counted I (block ss) \<Longrightarrow> counted I (block (s # ss))"
  by (auto simp: counted_def intro: keeps_block_Nil keeps_block_Cons)

lemma counted_map [counted_intros]: "(\<And>x. x \<in> set xs \<Longrightarrow> counted I (s x)) \<Longrightarrow> counted I (block (map s xs))"
  by (induction xs) (auto intro: counted_block)

lemma counted_control [counted_intros]:
  "(\<And>k. counted I (f k)) \<Longrightarrow> counted I (with_conn c f)"
  "counted I skip" "counted I (check b e)" "counted I (assertion b)" "counted I (\<lambda>w. Fault e)"
  "counted I s \<Longrightarrow> counted I (if_then b s)"
  "counted I s \<Longrightarrow> counted I t \<Longrightarrow> counted I (if x then s else t)"
  "counted I s \<Longrightarrow> counted I t \<Longrightarrow> counted I (\<lambda>w. if b w then s w else t w)"
  by (auto simp: counted_def intro: keeps_with_conn keeps_skip keeps_check keeps_assertion keeps_fault
      keeps_if_then keeps_cond_state)

lemma counted_chan [counted_intros]: "(\<And>ch. counted I (g ch)) \<Longrightarrow> counted I (with_chan d g)"
  by (auto simp: counted_def intro: keeps_with_chan)

lemma counted_loop: "(\<And>el. counted I (g el)) \<Longrightarrow> counted I (with_loop l g)"
  by (rule countedI) (auto simp: with_loop_def dest: countedD split: option.splits)

section \<open>Statements that do not touch references\<close>

definition same_refs :: "'z net_scheme \<Rightarrow> 'z net_scheme \<Rightarrow> bool" where
  "same_refs w w' \<longleftrightarrow> net.more w' = net.more w \<and>
     (\<forall>l. map_option el_pendingFunctors (w_loops w' l) = map_option el_pendingFunctors (w_loops w l)) \<and>
     (\<forall>c. map_option tc_refs (n_conns w' c) = map_option tc_refs (n_conns w c))"

definition neutral :: "'z net_stmt \<Rightarrow> bool" where
  "neutral s \<longleftrightarrow> (\<forall>w w'. s w = Ok w' \<longrightarrow> same_refs w w')"

lemma neutralI: "(\<And>w w'. s w = Ok w' \<Longrightarrow> same_refs w w') \<Longrightarrow> neutral s"
  by (simp add: neutral_def)

lemma neutralD: "neutral s \<Longrightarrow> s w = Ok w' \<Longrightarrow> same_refs w w'"
  by (simp add: neutral_def)

lemma same_refs_trans: "same_refs w w' \<Longrightarrow> same_refs w' w'' \<Longrightarrow> same_refs w w''"
  by (simp add: same_refs_def)

lemma same_refs_refl: "same_refs w w"
  by (simp add: same_refs_def)

lemma same_refsD:
  assumes "same_refs w w'"
  shows "dom (w_loops w') = dom (w_loops w)" "refs w' c = refs w c" "queued w' c = queued w c"
    "n_conns w' c = None \<longleftrightarrow> n_conns w c = None"
proof -
  have conns: "map_option tc_refs (n_conns w' c) = map_option tc_refs (n_conns w c)" for c
    using assms by (simp add: same_refs_def)
  have loops: "map_option el_pendingFunctors (w_loops w' l) = map_option el_pendingFunctors (w_loops w l)" for l
    using assms by (simp add: same_refs_def)
  show dom: "dom (w_loops w') = dom (w_loops w)"
  proof -
    have "w_loops w' l = None \<longleftrightarrow> w_loops w l = None" for l using loops [of l] by (cases "w_loops w l") auto
    then show ?thesis by (auto simp: dom_def)
  qed
  show "refs w' c = refs w c" using conns [of c] by (cases "n_conns w c"; cases "n_conns w' c") (auto simp: refs_def)
  show "n_conns w' c = None \<longleftrightarrow> n_conns w c = None" using conns [of c] by (cases "n_conns w c") auto
  have "el_pendingFunctors (the (w_loops w' l)) = el_pendingFunctors (the (w_loops w l))" if "l \<in> dom (w_loops w)" for l
    using loops [of l] that by auto
  then show "queued w' c = queued w c" unfolding queued_def dom by (intro sum.cong) auto
qed

named_theorems neutral_intros "statements that do not touch references"

lemma neutral_block [neutral_intros]:
  "neutral (block [])"
  "neutral s \<Longrightarrow> neutral (block ss) \<Longrightarrow> neutral (block (s # ss))"
proof -
  show "neutral (block [])" by (simp add: neutral_def same_refs_refl)
  show "neutral (block (s # ss))" if "neutral s" "neutral (block ss)"
  proof (rule neutralI)
    fix w w'' assume "block (s # ss) w = Ok w''"
    then obtain w' where "s w = Ok w'" "block ss w' = Ok w''" by (auto split: sum.splits)
    with that show "same_refs w w''" by (blast dest: neutralD intro: same_refs_trans)
  qed
qed

lemma neutral_modify [neutral_intros]:
  "(\<And>w. net.more (f w) = net.more w \<and> w_loops (f w) = w_loops w \<and> n_conns (f w) = n_conns w) \<Longrightarrow> neutral (modify f)"
  by (auto simp: neutral_def modify_def same_refs_def)

lemma neutral_control [neutral_intros]:
  "(\<And>el. neutral (s el)) \<Longrightarrow> neutral (with_loop l s)"
  "(\<And>el. el_pendingFunctors (g el) = el_pendingFunctors el) \<Longrightarrow> neutral (upd_loop l g)"
  "(\<And>ch. neutral (t ch)) \<Longrightarrow> neutral (with_chan d t)"
  "neutral (upd_chan d h)"
  "(\<And>k. neutral (u k)) \<Longrightarrow> neutral (with_conn c u)"
  "(\<And>k. tc_refs (v k) = tc_refs k) \<Longrightarrow> neutral (upd_conn c v)"
  "neutral skip" "neutral (check b e)" "neutral (assertion b)" "neutral (\<lambda>w. Fault e')"
  by (auto simp: neutral_def same_refs_def loop_access conn_access skip_def check_def assertion_def
      split: option.splits if_splits)

lemma neutral_if [neutral_intros]:
  "neutral s \<Longrightarrow> neutral (if_then b s)"
  "neutral s \<Longrightarrow> neutral t \<Longrightarrow> neutral (if x then s else t)"
  "neutral s \<Longrightarrow> neutral t \<Longrightarrow> neutral (\<lambda>w. if b w then s w else t w)"
  by (auto simp: neutral_def if_then_def same_refs_refl split: if_splits)

lemma neutral_on_poller [neutral_intros]: "neutral (on_poller l op)"
  by (auto simp: neutral_def same_refs_def on_poller_def loop_access split: option.splits sum.splits)

lemma neutral_channel [neutral_intros]:
  "neutral (Channel_change d g)" "neutral (Channel_remove d)" "neutral (Channel_destroy d)"
  "neutral (Channel_enableReading d)" "neutral (Channel_enableWriting d)"
  "neutral (Channel_disableWriting d)" "neutral (Channel_disableAll d)"
  unfolding Channel_change_def Channel_remove_def Channel_destroy_def Channel_enableReading_def
    Channel_enableWriting_def Channel_disableWriting_def Channel_disableAll_def set_interest_def
    Channel_update_def EventLoop_updateChannel_def EventLoop_assertInLoopThread_def EventLoop_removeChannel_def
  by (intro neutral_intros; simp)+

lemma neutral_assertInLoop [neutral_intros]:
  "neutral (EventLoop_assertInLoopThread l)" "neutral (conn_assertInLoopThread c)"
  unfolding EventLoop_assertInLoopThread_def conn_assertInLoopThread_def by (intro neutral_intros)+

lemma neutral_loop [neutral_intros]: "neutral (EventLoop_wakeup l)" "neutral (EventLoop_handleRead l)"
  unfolding EventLoop_wakeup_def EventLoop_handleRead_def by (intro neutral_intros; simp)+

lemma neutral_poll [neutral_intros]: "neutral (EventLoop_poll l k)"
  by (auto simp: EventLoop_poll_def neutral_def same_refs_def loop_access split: option.splits sum.splits)

lemma neutral_socket [neutral_intros]:
  "neutral (Socket_shutdownWrite fd)" "neutral (TcpConnection_setTcpNoDelay c on)" "neutral (TcpConnection_setTcpKeepAlive c on)"
  unfolding Socket_shutdownWrite_def TcpConnection_setTcpNoDelay_def TcpConnection_setTcpKeepAlive_def
  by (intro neutral_control(5) neutral_modify; simp)+

lemma neutral_conn [neutral_intros]:
  "neutral (TcpConnection_setState c st)" "neutral (TcpConnection_handleError c)" "neutral (TcpConnection_shutdownInLoop c)"
  "neutral (queue_rest c rest)"
  unfolding TcpConnection_setState_def TcpConnection_handleError_def TcpConnection_shutdownInLoop_def queue_rest_def
  by (intro neutral_intros; simp)+


section \<open>Owners of connections\<close>

text \<open>
  What the owners hold, and what else is to be kept, is a matter of the part of the world that
  extends the connections' one; \<open>extra\<close> may also rely on connections not being there.
\<close>

locale ownership =
  fixes own :: "'z net_scheme \<Rightarrow> conn_id \<Rightarrow> nat"
    and extra :: "'z net_scheme \<Rightarrow> bool"
  assumes own_frame: "net.more w' = net.more w \<Longrightarrow> own w' = own w"
    and extra_frame: "net.more w' = net.more w \<Longrightarrow> dom (n_conns w') \<subseteq> dom (n_conns w) \<Longrightarrow> extra w \<Longrightarrow> extra w'"
begin

lemma counts_step:
  "counted (counts own extra) s \<Longrightarrow> counts own extra h w \<Longrightarrow> s w = Ok w' \<Longrightarrow> counts own extra h w'"
  by (rule countedD [where I = "counts own extra"])

lemma same_refs_counts:
  assumes "same_refs w w'" "counts own extra h w"
  shows "counts own extra h w'"
proof -
  have more: "net.more w' = net.more w" using assms(1) by (simp add: same_refs_def)
  note d = countsD [OF assms(2)] and s = same_refsD [OF assms(1)]
  have "dom (n_conns w') \<subseteq> dom (n_conns w)" using s(4) by (auto simp: dom_def)
  with more have "extra w'" using d(4) by (rule extra_frame)
  then show ?thesis
    using d(1-3) own_frame [OF more] by (intro countsI) (simp_all only: s)
qed

lemma counted_neutral: "neutral s \<Longrightarrow> counted (counts own extra) s"
  by (rule countedI) (blast dest: neutralD intro: same_refs_counts)

lemma ref_counts:
  assumes "counts own extra h w" "conn_ref c w = Ok w'"
  shows "counts own extra (holding c h) w'"
proof -
  obtain k where k: "n_conns w c = Some k" and w': "w' = w\<lparr>n_conns := (n_conns w)(c \<mapsto> k\<lparr>tc_refs := Suc (tc_refs k)\<rparr>)\<rparr>"
    using assms(2) by (auto simp: conn_ref_def conn_access split: option.splits)
  note d = countsD [OF assms(1)]
  have more: "own w' = own w" "extra w'"
    using own_frame [of w' w] extra_frame [of w' w] d(4) k by (auto simp: w')
  have "refs w' b = own w' b + queued w' b + holding c h b" for b
    using d(2) [of b] k unfolding more(1) by (cases "b = c") (simp_all add: w' refs_def queued_def holding_def)
  moreover have "0 < refs w' b" if "n_conns w' b \<noteq> None" for b
    using d(3) [of b] that by (cases "b = c") (auto simp: w' refs_def)
  ultimately show ?thesis using d(1) more(2) by (intro countsI) (simp_all add: w')
qed

lemma unref_counts:
  assumes "counts own extra (holding c h) w" "conn_unref c w = Ok w'"
  shows "counts own extra h w'"
proof -
  obtain k where k: "n_conns w c = Some k" using assms(2) by (auto simp: conn_unref_def conn_access split: option.splits)
  let ?k = "k\<lparr>tc_refs := tc_refs k - 1\<rparr>"
  let ?w1 = "w\<lparr>n_conns := (n_conns w)(c \<mapsto> ?k)\<rparr>"
  have rest: "(if tc_refs ?k = 0 then TcpConnection_destroy c else skip) ?w1 = Ok w'"
    using assms(2) k by (auto simp: conn_unref_def conn_access split: sum.splits if_splits)
  note d = countsD [OF assms(1)]
  have more: "own ?w1 = own w" "extra ?w1" using own_frame [of ?w1 w] extra_frame [of ?w1 w] d(4) k by auto
  have sum: "tc_refs ?k = own w c + queued w c + h c" using d(2) [of c] k by (simp add: refs_def holding_def)
  have others: "refs w b = own w b + queued w b + h b" if "b \<noteq> c" for b using d(2) [of b] that by (simp add: holding_def)
  show ?thesis
  proof (cases "tc_refs ?k = 0")
    case False
    with rest have w': "w' = ?w1" by (simp add: skip_def)
    have "refs ?w1 b = own ?w1 b + queued ?w1 b + h b" for b
      unfolding more(1) using sum others [of b] by (cases "b = c") (simp_all add: refs_def queued_def)
    moreover have "0 < refs ?w1 b" if "n_conns ?w1 b \<noteq> None" for b
      using d(3) [of b] False that by (cases "b = c") (auto simp: refs_def)
    ultimately show ?thesis unfolding w' using d(1) more(2) by (intro countsI) simp_all
  next
    case True
    with rest have run: "TcpConnection_destroy c ?w1 = Ok w'" by simp
    then obtain hp cl where w': "w' = ?w1\<lparr>w_heap := hp, k_closed := cl, n_conns := (n_conns ?w1)(c := None)\<rparr>"
      by (auto simp: TcpConnection_destroy_def Channel_destroy_def Socket_destroy_def modify_def conn_access loop_access
          assertion_def check_def split: option.splits sum.splits if_splits)
    have own': "own w' = own w" using own_frame [of w' w] by (simp add: w')
    have "extra w'" using extra_frame [of w' w] d(4) by (auto simp: w')
    moreover have "refs w' b = own w' b + queued w' b + h b" for b
      unfolding own' using sum True others [of b] by (cases "b = c") (simp_all add: w' refs_def queued_def)
    moreover have "0 < refs w' b" if "n_conns w' b \<noteq> None" for b
      using d(3) [of b] that by (cases "b = c") (auto simp: w' refs_def)
    ultimately show ?thesis using d(1) by (intro countsI) (simp_all add: w')
  qed
qed

lemma counted_pinned:
  assumes "counted (counts own extra) s"
  shows "counted (counts own extra) (pinned c s)"
proof (rule countedI)
  fix h w w'
  assume w: "counts own extra h w" and "pinned c s w = Ok w'"
  then obtain w1 w2 where 1: "conn_ref c w = Ok w1" "s w1 = Ok w2" "conn_unref c w2 = Ok w'"
    by (auto simp: pinned_def split: sum.splits)
  from counts_step [OF assms ref_counts [OF w 1(1)] 1(2)] 1(3) show "counts own extra h w'" by (rule unref_counts)
qed

lemma counted_run_bound:
  assumes exec: "counted (counts own extra) (exec f)" and f: "functor_conn f = Some c"
  shows "counted (counts own extra) (run_bound exec l c f)"
proof (rule countedI)
  fix h w w'
  assume w: "counts own extra h w" and run: "run_bound exec l c f w = Ok w'"
  show "counts own extra h w'"
  proof (cases "EventLoop_isInLoopThread l w")
    case True
    with run have "pinned c (exec f) w = Ok w'" by (simp add: run_bound_def)
    with counted_pinned [OF exec] w show ?thesis by (rule counts_step)
  next
    case False
    with run obtain w1 where w1: "conn_ref c w = Ok w1" "EventLoop_runInLoop exec l f w1 = Ok w'"
      by (auto simp: run_bound_def split: sum.splits)
    note d = countsD [OF ref_counts [OF w w1(1)]]
    from w1(1) False have loop: "\<not> EventLoop_isInLoopThread l w1"
      by (auto simp: conn_ref_def conn_access EventLoop_isInLoopThread_def split: option.splits)
    obtain el where el: "w_loops w1 l = Some el" "el_threadId el \<noteq> w_thread w1"
      using w1(2) loop by (auto simp: EventLoop_runInLoop_def EventLoop_isInLoopThread_def loop_access split: option.splits)
    let ?el = "el\<lparr>el_pendingFunctors := el_pendingFunctors el @ [f], el_pipeBytes := Suc (el_pipeBytes el)\<rparr>"
    have w': "w' = w1\<lparr>w_loops := (w_loops w1)(l \<mapsto> ?el)\<rparr>"
      using w1(2) runInLoop_foreign [OF el, of exec f] by simp
    have "queued w' b + bound_to (el_pendingFunctors el) b = queued w1 b + bound_to (el_pendingFunctors ?el) b" for b
      by (rule queued_upd [OF d(1) el(1)]) (simp add: w')
    then have q: "queued w' b + h b = queued w1 b + holding c h b" for b
      using f by (auto simp: holding_def)
    have "own w' = own w1" "extra w'" using own_frame [of w' w1] extra_frame [of w' w1] d(4) by (auto simp: w')
    moreover have "finite (dom (w_loops w'))" using d(1) by (simp add: w')
    moreover have "refs w' b = refs w1 b" for b by (simp add: w' refs_def)
    moreover have "n_conns w' = n_conns w1" by (simp add: w')
    ultimately show ?thesis
      using d(2,3) q by (intro countsI) (simp_all add: add.assoc)
  qed
qed

end


section \<open>The queue of a loop\<close>

context ownership
begin

lemma release_counts:
  assumes "counts own extra (\<lambda>c. h c + bound_to [f] c) w" "release_functor f w = Ok w'"
  shows "counts own extra h w'"
proof (cases "functor_conn f")
  case None
  with assms show ?thesis by (simp add: release_functor_def skip_def)
next
  case (Some c)
  then have "(\<lambda>c. h c + bound_to [f] c) = holding c h" by (auto simp: holding_def)
  with assms Some show ?thesis by (simp add: release_functor_def unref_counts)
qed

lemma release_batch:
  assumes "counts own extra (\<lambda>c. h c + bound_to fs c) w" "block (map release_functor fs) w = Ok w'"
  shows "counts own extra h w'"
  using assms
proof (induction fs arbitrary: w)
  case Nil
  then show ?case by simp
next
  case (Cons f fs)
  then obtain w1 where w1: "release_functor f w = Ok w1" "block (map release_functor fs) w1 = Ok w'"
    by (auto split: sum.splits)
  have "(\<lambda>c. h c + bound_to (f # fs) c) = (\<lambda>c. (h c + bound_to fs c) + bound_to [f] c)" by auto
  with Cons.prems(1) have "counts own extra (\<lambda>c. (h c + bound_to fs c) + bound_to [f] c) w" by simp
  from release_counts [OF this w1(1)] w1(2) show ?case by (rule Cons.IH)
qed

text \<open>The batch that \<open>doPendingFunctors\<close> swaps out is in hand while it runs, and then released.\<close>

lemma counted_doPendingFunctors:
  assumes "\<And>f. counted (counts own extra) (exec f)"
  shows "counted (counts own extra) (EventLoop_doPendingFunctors exec release_functor l)"
proof (rule countedI)
  fix h w w'
  assume w: "counts own extra h w" and run: "EventLoop_doPendingFunctors exec release_functor l w = Ok w'"
  then obtain el where el: "w_loops w l = Some el"
    by (auto simp: EventLoop_doPendingFunctors_def loop_access split: option.splits)
  let ?fs = "el_pendingFunctors el"
  let ?w1 = "w\<lparr>w_loops := (w_loops w)(l \<mapsto> el\<lparr>el_callingPendingFunctors := True, el_pendingFunctors := []\<rparr>)\<rparr>"
  let ?h = "\<lambda>c. h c + bound_to ?fs c"
  obtain w2 w3 where w2: "block (map exec ?fs) ?w1 = Ok w2"
    and w3: "upd_loop l (\<lambda>el. el\<lparr>el_callingPendingFunctors := False\<rparr>) w2 = Ok w3"
    and last: "block (map release_functor ?fs) w3 = Ok w'"
    using run unfolding doPendingFunctors_eq [OF el] by (auto simp: block_append split: sum.splits)
  note d = countsD [OF w]
  have q: "queued ?w1 c + bound_to ?fs c = queued w c" for c
    using queued_upd [OF d(1) el, of ?w1 "el\<lparr>el_callingPendingFunctors := True, el_pendingFunctors := []\<rparr>" c] by simp
  have "own ?w1 = own w" "extra ?w1" using own_frame [of ?w1 w] extra_frame [of ?w1 w] d(4) by auto
  moreover have "refs ?w1 c = refs w c" for c by (simp add: refs_def)
  ultimately have "counts own extra ?h ?w1"
    using d(1-3) q by (intro countsI) (simp_all add: add.assoc add.commute [of "h _"])
  moreover have "counted (counts own extra) (block (map exec ?fs))" by (intro counted_map assms)
  ultimately have "counts own extra ?h w2" using w2 by (blast intro: counts_step)
  moreover have "counted (counts own extra) (upd_loop l (\<lambda>el. el\<lparr>el_callingPendingFunctors := False\<rparr>))"
    by (intro counted_neutral neutral_intros) simp
  ultimately have "counts own extra ?h w3" using w3 by (blast intro: counts_step)
  then show "counts own extra h w'" using last by (rule release_batch)
qed

end


section \<open>The operations of a connection\<close>

context ownership
begin

lemma counted_sys_write:
  assumes "\<And>n. counted (counts own extra) (f n)"
  shows "counted (counts own extra) (sys_write fd bs f)"
proof (rule countedI)
  fix h w w'
  assume w: "counts own extra h w" and run: "sys_write fd bs f w = Ok w'"
  have "same_refs w (after_write fd bs w)" by (simp add: same_refs_def)
  then have "counts own extra h (after_write fd bs w)" using w by (rule same_refs_counts)
  with assms show "counts own extra h w'" by (rule counts_step) (use run in \<open>simp add: sys_write_eq\<close>)
qed

lemma counted_sys_read:
  assumes "\<And>r. counted (counts own extra) (f r)"
  shows "counted (counts own extra) (sys_read fd n f)"
proof (rule countedI)
  fix h w w'
  assume w: "counts own extra h w" and run: "sys_read fd n f w = Ok w'"
  have "same_refs w (w\<lparr>k_reads := stl (k_reads w)\<rparr>)" by (simp add: same_refs_def)
  then have "counts own extra h (w\<lparr>k_reads := stl (k_reads w)\<rparr>)" using w by (rule same_refs_counts)
  with assms show "counts own extra h w'" by (rule counts_step) (use run in \<open>simp add: sys_read_def\<close>)
qed

lemma counted_try_write:
  "(\<And>n. counted (counts own extra) (f n)) \<Longrightarrow> counted (counts own extra) (try_write c p len f)"
  unfolding try_write_def by (intro counted_intros counted_sys_write)

lemma counted_call_opt:
  "(\<And>cb buf. counted (counts own extra) (call cb c buf)) \<Longrightarrow> counted (counts own extra) (call_opt call cb c buf)"
  by (simp add: call_opt_def counted_control(5) split: option.split)

lemma counted_sends:
  "counted (counts own extra) (TcpConnection_sendInLoop c m)"
  "counted (counts own extra) (TcpConnection_sendInLoopChar c m len)"
proof -
  show "counted (counts own extra) (TcpConnection_sendInLoop c m)"
    unfolding TcpConnection_sendInLoop_def
    by (intro counted_intros counted_try_write counted_neutral [OF neutral_conn(4)] counted_neutral [OF neutral_assertInLoop(2)])
  have "counted (counts own extra) (case c_string m of None \<Rightarrow> (\<lambda>w. Fault UndefinedBehaviour)
     | Some new_message \<Rightarrow> if n \<le> length new_message then queue_rest c (drop n new_message)
               else (\<lambda>w. Fault UndefinedBehaviour))" for n
    by (auto intro: counted_intros counted_neutral [OF neutral_conn(4)] split: option.split)
  then show "counted (counts own extra) (TcpConnection_sendInLoopChar c m len)"
    unfolding TcpConnection_sendInLoopChar_def
    by (intro counted_intros counted_try_write counted_neutral [OF neutral_assertInLoop(2)])
qed

lemma counted_handleWrite: "counted (counts own extra) (TcpConnection_handleWrite c)"
  unfolding TcpConnection_handleWrite_def
  by (intro counted_intros counted_sys_write counted_neutral neutral_conn(3) neutral_channel(6) neutral_assertInLoop(2)
      neutral_control(6)) simp

text \<open>\<open>call\<close>: what the callbacks do, which the owners install.\<close>

lemma counted_handleClose:
  assumes call: "\<And>cb buf. counted (counts own extra) (call cb c buf)"
  shows "counted (counts own extra) (TcpConnection_handleClose call c)"
  unfolding TcpConnection_handleClose_def
  by (intro counted_intros counted_pinned counted_call_opt call counted_neutral neutral_assertInLoop(2) neutral_conn(1)
      neutral_channel(7))

lemma counted_handleRead:
  assumes call: "\<And>cb buf. counted (counts own extra) (call cb c buf)"
  shows "counted (counts own extra) (TcpConnection_handleRead call c)"
proof -
  have "counted (counts own extra) (case r of
      Some buf \<Rightarrow> if buf \<noteq> [] then
          (case tc_messageCallback k of None \<Rightarrow> skip | Some cb \<Rightarrow> pinned c (call cb c buf))
        else TcpConnection_handleClose call c
    | None \<Rightarrow> TcpConnection_handleError c)" for r k
    using counted_handleClose [of call c, OF call] counted_pinned [OF call]
    by (auto intro: counted_intros counted_neutral [OF neutral_conn(2)] split: option.split)
  then show ?thesis
    unfolding TcpConnection_handleRead_def by (intro counted_intros counted_sys_read)
qed

lemma counted_connectEstablished:
  assumes call: "\<And>cb buf. counted (counts own extra) (call cb c buf)"
  shows "counted (counts own extra) (TcpConnection_connectEstablished call c)"
  unfolding TcpConnection_connectEstablished_def
  by (intro counted_intros counted_pinned counted_call_opt call counted_neutral neutral_assertInLoop(2) neutral_conn(1)
      neutral_channel(4))

lemma counted_connectDestroyed:
  assumes call: "\<And>cb buf. counted (counts own extra) (call cb c buf)"
  shows "counted (counts own extra) (TcpConnection_connectDestroyed call c)"
  unfolding TcpConnection_connectDestroyed_def
  by (intro counted_intros counted_pinned counted_call_opt call counted_neutral neutral_assertInLoop(2) neutral_conn(1)
      neutral_channel(2,7))

lemma counted_shutdown:
  assumes exec: "\<And>f. counted (counts own extra) (exec f)"
  shows "counted (counts own extra) (TcpConnection_shutdown exec c)"
  unfolding TcpConnection_shutdown_def
  by (intro counted_intros counted_run_bound exec counted_neutral neutral_conn(1)) (simp add: functor_conn_def)

lemma counted_send:
  assumes exec: "\<And>f. counted (counts own extra) (exec f)"
  shows "counted (counts own extra) (TcpConnection_send exec c m)"
    "counted (counts own extra) (TcpConnection_sendChar exec c m len)"
  unfolding TcpConnection_send_def TcpConnection_sendChar_def
  by (intro counted_intros counted_sends counted_run_bound exec; simp add: functor_conn_def)+

section \<open>The loop\<close>

lemma counted_handleEvent:
  assumes fire: "\<And>cb. counted (counts own extra) (fire cb)"
  shows "counted (counts own extra) (Channel_handleEvent fire d)"
proof -
  have slot: "counted (counts own extra) (fire_slot fire d slot)" for slot
    unfolding fire_slot_def by (intro counted_chan) (auto intro: fire counted_intros split: option.split)
  show ?thesis
    unfolding Channel_handleEvent_def chan_if_def
    by (intro counted_intros slot counted_neutral [OF neutral_control(4)])
qed

lemma counted_turn:
  assumes fire: "\<And>cb. counted (counts own extra) (fire cb)" and exec: "\<And>f. counted (counts own extra) (exec f)"
  shows "counted (counts own extra) (EventLoop_turn fire exec release_functor l k)"
proof -
  have upd: "counted (counts own extra) (upd_loop l (\<lambda>el. el\<lparr>el_activeChannels := []\<rparr>))"
    by (intro counted_neutral neutral_control(2)) simp
  show ?thesis
    unfolding EventLoop_turn_def
    by (intro counted_block upd counted_neutral [OF neutral_poll] counted_loop counted_map counted_handleEvent fire
        counted_doPendingFunctors exec)
qed

lemma counted_while:
  assumes fire: "\<And>cb. counted (counts own extra) (fire cb)" and exec: "\<And>f. counted (counts own extra) (exec f)"
  shows "counted (counts own extra) (EventLoop_while fire exec release_functor l ks)"
proof (induction ks)
  case Nil
  then show ?case by (rule countedI) simp
next
  case (Cons k ks)
  have "EventLoop_while fire exec release_functor l (k # ks) = with_loop l (\<lambda>el.
     if el_quit el then skip
     else block [EventLoop_turn fire exec release_functor l k, EventLoop_while fire exec release_functor l ks])"
    by (rule ext) simp
  then show ?case by (simp only:) (intro counted_loop counted_intros counted_turn fire exec Cons.IH)
qed

lemma counted_loop_run:
  assumes fire: "\<And>cb. counted (counts own extra) (fire cb)" and exec: "\<And>f. counted (counts own extra) (exec f)"
  shows "counted (counts own extra) (EventLoop_loop fire exec release_functor l ks)"
proof -
  have "counted (counts own extra) (upd_loop l (\<lambda>el. el\<lparr>el_looping := True, el_quit := False\<rparr>))"
    "counted (counts own extra) (upd_loop l (\<lambda>el. el\<lparr>el_looping := False\<rparr>))"
    by (intro counted_neutral neutral_control(2); simp)+
  then show ?thesis
    unfolding EventLoop_loop_def EventLoop_enter_def
    by (intro counted_intros counted_loop counted_while fire exec counted_neutral [OF neutral_assertInLoop(1)])
qed

end

end
