(* ===== verification/ServerRefs.thy ===== *)
theory ServerRefs
  imports RefCounts TcpServer
begin

text \<open>
  The reference counts of a server's connections: its map owns one reference for each entry,
  and what a program built on the server owns is a parameter again. All operations of the
  server, and whole runs of its loops, keep the counts exact.
\<close>

section \<open>What the server owns\<close>

definition server_own :: "'z server_net_scheme \<Rightarrow> conn_id \<Rightarrow> nat" where
  "server_own w c = (case n_server w of None \<Rightarrow> 0 | Some sv \<Rightarrow> count_list (map snd (sv_connections sv)) c)"

text \<open>The addresses that \<open>new\<close> is going to return are those of no live connection.\<close>

definition fresh_alloc :: "'z server_net_scheme \<Rightarrow> bool" where
  "fresh_alloc w \<longleftrightarrow> (\<forall>i. n_conns w (fst (n_alloc w !! i)) = None) \<and>
     (\<forall>i j. i \<noteq> j \<longrightarrow> fst (n_alloc w !! i) \<noteq> fst (n_alloc w !! j))"

definition server_extra :: "'z server_net_scheme \<Rightarrow> bool" where
  "server_extra w \<longleftrightarrow> fresh_alloc w \<and> (\<forall>sv. n_server w = Some sv \<longrightarrow> distinct (map fst (sv_connections sv)))"

definition server_counts :: "('z server_net_scheme \<Rightarrow> conn_id \<Rightarrow> nat) \<Rightarrow> ('z server_net_scheme \<Rightarrow> bool) \<Rightarrow>
    (conn_id \<Rightarrow> nat) \<Rightarrow> 'z server_net_scheme \<Rightarrow> bool" where
  "server_counts other kept = counts (\<lambda>w c. server_own w c + other w c) (\<lambda>w. server_extra w \<and> kept w)"

lemma more_server:
  fixes w :: "'z server_net_scheme"
  assumes "net.more w' = net.more w"
  shows "n_server w' = n_server w" "n_alloc w' = n_alloc w" "server_net.more w' = server_net.more w"
  using assms by (cases w; cases w'; simp)+

lemma fresh_alloc_frame:
  assumes "n_alloc w' = n_alloc w" "dom (n_conns w') \<subseteq> dom (n_conns w)" "fresh_alloc w"
  shows "fresh_alloc w'"
  using assms by (auto simp: fresh_alloc_def)

locale server_ownership =
  fixes other :: "'z server_net_scheme \<Rightarrow> conn_id \<Rightarrow> nat"
    and kept :: "'z server_net_scheme \<Rightarrow> bool"
  assumes other_frame: "server_net.more w' = server_net.more w \<Longrightarrow> other w' = other w"
    and kept_frame: "server_net.more w' = server_net.more w \<Longrightarrow> kept w \<Longrightarrow> kept w'"

sublocale server_ownership \<subseteq> ownership "\<lambda>w c. server_own w c + other w c" "\<lambda>w. server_extra w \<and> kept w"
proof
  fix w w' :: "'z server_net_scheme"
  assume more: "net.more w' = net.more w"
  note same = more_server [OF more]
  show "(\<lambda>c. server_own w' c + other w' c) = (\<lambda>c. server_own w c + other w c)"
    using same other_frame [OF same(3)] by (simp add: server_own_def fun_eq_iff)
  show "server_extra w' \<and> kept w'" if "dom (n_conns w') \<subseteq> dom (n_conns w)" "server_extra w \<and> kept w"
    using that same(1) fresh_alloc_frame [OF same(2) that(1)] kept_frame [OF same(3)] by (simp add: server_extra_def)
qed

section \<open>The map of connections\<close>

lemma count_update:
  assumes "distinct (map fst kvs)"
  shows "count_list (map snd (AList.update k v kvs)) c + (if map_of kvs k = Some c then 1 else 0) =
    count_list (map snd kvs) c + (if v = c then 1 else 0)"
  using assms by (induction kvs) (auto simp: weak_map_of_SomeI)

lemma count_delete:
  assumes "distinct (map fst kvs)"
  shows "count_list (map snd (AList.delete k kvs)) c + (if map_of kvs k = Some c then 1 else 0) = count_list (map snd kvs) c"
  using assms
proof (induction kvs)
  case (Cons kv kvs)
  then show ?case
  proof (cases "fst kv = k")
    case True
    with Cons.prems have "filter (\<lambda>(k', _). k \<noteq> k') kvs = kvs"
      by (auto simp: filter_id_conv image_iff split_beta)
    with True show ?thesis by (cases kv) (auto simp: AList.delete_eq)
  qed (cases kv; auto simp: AList.delete_eq)
qed (simp add: AList.delete_eq)


section \<open>The operations of the server\<close>

context server_ownership
begin

lemmas step = counts_step [folded server_counts_def]
lemmas neutral = counted_neutral [folded server_counts_def]
lemmas ref = ref_counts [folded server_counts_def]
lemmas unref = unref_counts [folded server_counts_def]
lemmas run_functor = counted_run_bound [folded server_counts_def]

text \<open>What does not touch loops, connections, the map and the addresses to come.\<close>

lemma same_owners:
  assumes "server_counts other kept h w" "w_loops w' = w_loops w" "n_conns w' = n_conns w" "n_alloc w' = n_alloc w"
    and "server_net.more w' = server_net.more w"
    and "map_option sv_connections (n_server w') = map_option sv_connections (n_server w)"
  shows "server_counts other kept h w'"
proof -
  note d = countsD [OF assms(1) [unfolded server_counts_def]]
  have "server_own w' = server_own w"
    using assms(6) by (cases "n_server w"; cases "n_server w'") (auto simp: server_own_def fun_eq_iff)
  moreover have "server_extra w'"
    using d(4) assms(2-4,6) by (cases "n_server w"; cases "n_server w'") (auto simp: server_extra_def fresh_alloc_def)
  ultimately show ?thesis
    unfolding server_counts_def
    using d(1,2) d(3) d(4) assms(2,3) other_frame [OF assms(5)] kept_frame [OF assms(5)]
    by (intro countsI) (simp_all add: refs_def queued_def)
qed

lemma counted_server [counted_intros]:
  "(\<And>sv. counted (server_counts other kept) (f sv)) \<Longrightarrow> counted (server_counts other kept) (with_server f)"
  "(\<And>sv. sv_connections (g sv) = sv_connections sv) \<Longrightarrow> counted (server_counts other kept) (upd_server g)"
  "(\<And>a. counted (server_counts other kept) (u a)) \<Longrightarrow> counted (server_counts other kept) (with_acceptor u)"
  "counted (server_counts other kept) (upd_acceptor v)"
proof -
  show "counted (server_counts other kept) (with_server f)" if "\<And>sv. counted (server_counts other kept) (f sv)"
    by (rule countedI) (auto simp: with_server_def intro: step [OF that] split: option.splits)
  show "counted (server_counts other kept) (with_acceptor u)" if "\<And>a. counted (server_counts other kept) (u a)"
    by (rule countedI) (auto simp: with_acceptor_def intro: step [OF that] split: option.splits)
  show "counted (server_counts other kept) (upd_server g)" if "\<And>sv. sv_connections (g sv) = sv_connections sv"
    by (rule countedI) (auto simp: server_access that elim!: same_owners split: option.splits)
  show "counted (server_counts other kept) (upd_acceptor v)"
    by (rule countedI) (auto simp: acceptor_access elim!: same_owners split: option.splits)
qed

lemma counted_kernel:
  assumes "\<And>w. w_loops (f w) = w_loops w \<and> n_conns (f w) = n_conns w \<and> n_alloc (f w) = n_alloc w \<and>
    server_net.more (f w) = server_net.more w \<and> n_server (f w) = n_server w"
  shows "counted (server_counts other kept) (modify f)"
proof (rule countedI)
  fix h w w'
  assume "server_counts other kept h w" "modify f w = Ok w'"
  then show "server_counts other kept h w'" using assms [of w] by (auto simp: modify_def elim!: same_owners)
qed

lemma counted_listen: "counted (server_counts other kept) Acceptor_listen"
  unfolding Acceptor_listen_def Socket_listen_def
  by (intro counted_server counted_block counted_kernel neutral neutral_assertInLoop(1) neutral_channel(4)) simp

lemma counted_insert: "counted (server_counts other kept) (insert_connection name c)"
proof (rule countedI)
  fix h w w'
  assume w: "server_counts other kept h w" and "insert_connection name c w = Ok w'"
  then obtain sv w1 w2 where sv: "n_server w = Some sv" and w1: "conn_ref c w = Ok w1"
    and w2: "upd_server (\<lambda>sv. sv\<lparr>sv_connections := AList.update name c (sv_connections sv)\<rparr>) w1 = Ok w2"
    and last: "(case map_of (sv_connections sv) name of None \<Rightarrow> skip | Some old \<Rightarrow> conn_unref old) w2 = Ok w'"
    by (auto simp: insert_connection_def with_server_def split: option.splits sum.splits)
  let ?sv = "sv\<lparr>sv_connections := AList.update name c (sv_connections sv)\<rparr>"
  have sv1: "n_server w1 = Some sv" using w1 sv by (auto simp: conn_ref_def conn_access split: option.splits)
  have w2: "w2 = w1\<lparr>n_server := Some ?sv\<rparr>" using w2 sv1 by (simp add: server_access)
  note d = countsD [OF ref [OF w w1, unfolded server_counts_def]]
  have keys: "distinct (map fst (sv_connections sv))" using d(4) sv1 by (simp add: server_extra_def)
  let ?old = "\<lambda>b. if map_of (sv_connections sv) name = Some b then 1 else 0"
  let ?h = "\<lambda>b. h b + ?old b"
  have own: "server_own w2 b + ?old b = server_own w1 b + (if c = b then 1 else 0)" for b
    using count_update [OF keys, of name c b] sv1 by (simp add: server_own_def w2)
  have frame: "other w2 = other w1" "kept w2" using other_frame [of w2 w1] kept_frame [of w2 w1] d(4) by (auto simp: w2)
  have "refs w2 b = (server_own w2 b + other w2 b) + queued w2 b + ?h b" for b
    using own [of b] d(2) [of b] unfolding frame(1)
    by (cases "b = c") (simp_all add: w2 refs_def queued_def holding_def)
  moreover have "server_extra w2"
    using d(4) keys by (auto simp: server_extra_def w2 fresh_alloc_def distinct_update)
  ultimately have "server_counts other kept ?h w2"
    unfolding server_counts_def using d(1) d(3) frame(2) by (intro countsI) (simp_all add: w2 refs_def)
  then show "server_counts other kept h w'"
  proof (cases "map_of (sv_connections sv) name")
    case None
    with \<open>server_counts other kept ?h w2\<close> last show ?thesis by (simp add: skip_def)
  next
    case (Some old)
    then have "?h = holding old h" by (auto simp: holding_def fun_eq_iff)
    with \<open>server_counts other kept ?h w2\<close> last Some show ?thesis by (simp add: unref)
  qed
qed

end


context server_ownership
begin

lemma counted_removeConnection:
  assumes "\<And>f. counted (server_counts other kept) (exec f)"
  shows "counted (server_counts other kept) (TcpServer_removeConnection exec c)"
  unfolding TcpServer_removeConnection_def
  by (intro counted_server run_functor assms) (simp add: functor_conn_def)

lemma counted_removeConnectionInLoop:
  assumes exec: "\<And>f. counted (server_counts other kept) (exec f)"
  shows "counted (server_counts other kept) (TcpServer_removeConnectionInLoop exec c)"
proof (rule countedI)
  fix h w w'
  assume w: "server_counts other kept h w" and run: "TcpServer_removeConnectionInLoop exec c w = Ok w'"
  have same: "w1 = w" if "EventLoop_assertInLoopThread l w = Ok w1" for l w1
    using that by (auto simp: EventLoop_assertInLoopThread_def loop_access check_def split: option.splits if_splits)
  obtain sv k old w2 w3 where sv: "n_server w = Some sv" and k: "n_conns w c = Some k"
    and old: "map_of (sv_connections sv) (tc_name k) = Some old"
    and w2: "upd_server (\<lambda>sv. sv\<lparr>sv_connections := AList.delete (tc_name k) (sv_connections sv)\<rparr>) w = Ok w2"
    and w3: "conn_unref old w2 = Ok w3" "run_bound exec (tc_loop k) c (Fn_connectDestroyed c) w3 = Ok w'"
    using run
    by (auto simp: TcpServer_removeConnectionInLoop_def with_server_def with_conn_def dest!: same
        split: option.splits sum.splits)
  let ?sv = "sv\<lparr>sv_connections := AList.delete (tc_name k) (sv_connections sv)\<rparr>"
  have w2: "w2 = w\<lparr>n_server := Some ?sv\<rparr>" using w2 sv by (simp add: server_access)
  note d = countsD [OF w [unfolded server_counts_def]]
  have keys: "distinct (map fst (sv_connections sv))" using d(4) sv by (simp add: server_extra_def)
  have own: "server_own w2 b + (if old = b then 1 else 0) = server_own w b" for b
    using count_delete [OF keys, of "tc_name k" b] sv old by (simp add: server_own_def w2)
  have frame: "other w2 = other w" "kept w2" using other_frame [of w2 w] kept_frame [of w2 w] d(4) by (auto simp: w2)
  have "refs w2 b = (server_own w2 b + other w2 b) + queued w2 b + holding old h b" for b
    using own [of b] d(2) [of b] unfolding frame(1)
    by (cases "b = old") (simp_all add: w2 refs_def queued_def holding_def)
  moreover have "server_extra w2"
    using d(4) keys by (auto simp: server_extra_def w2 fresh_alloc_def distinct_delete)
  ultimately have "server_counts other kept (holding old h) w2"
    unfolding server_counts_def using d(1) d(3) frame(2) by (intro countsI) (simp_all add: w2 refs_def)
  from unref [OF this w3(1)] have "server_counts other kept h w3" .
  moreover have "counted (server_counts other kept) (run_bound exec (tc_loop k) c (Fn_connectDestroyed c))"
    by (intro run_functor exec) (simp add: functor_conn_def)
  ultimately show "server_counts other kept h w'" using w3(2) by (blast intro: step)
qed

text \<open>A new connection, at an address where none was; its creator holds the first reference.\<close>

lemma create_counts:
  assumes w: "server_counts other kept h w" and alloc: "shd (n_alloc w) = (c, chan)"
    and new: "TcpConnection_new c chan l fd la pa name
      (w\<lparr>n_alloc := stl (n_alloc w), n_server := Some sv'\<rparr>) = Ok w'"
    and sv: "n_server w = Some sv" "sv_connections sv' = sv_connections sv"
  shows "server_counts other kept (holding c h) w'"
proof -
  note d = countsD [OF w [unfolded server_counts_def]]
  have fresh: "n_conns w (fst (n_alloc w !! i)) = None" "i \<noteq> j \<Longrightarrow> fst (n_alloc w !! i) \<noteq> fst (n_alloc w !! j)" for i j
    using d(4) by (simp_all add: server_extra_def fresh_alloc_def)
  have c: "c = fst (n_alloc w !! 0)" using alloc by simp
  have none: "n_conns w c = None" unfolding c by (rule fresh(1))
  obtain k hp where w': "w' = w\<lparr>n_alloc := stl (n_alloc w), n_server := Some sv', w_heap := hp, n_conns := (n_conns w)(c \<mapsto> k)\<rparr>"
    and k: "tc_refs k = 1"
    using new by (auto simp: TcpConnection_new_def modify_def)
  have frame: "other w' = other w" "kept w'" using other_frame [of w' w] kept_frame [of w' w] d(4) by (auto simp: w')
  have own: "server_own w' b = server_own w b" for b using sv by (simp add: server_own_def w')
  have "refs w' b = (server_own w' b + other w' b) + queued w' b + holding c h b" for b
    using d(2) [of b] none k unfolding own frame(1)
    by (cases "b = c") (simp_all add: w' refs_def queued_def holding_def)
  moreover have tail: "fst (stl (n_alloc w) !! i) \<noteq> c" "n_conns w (fst (stl (n_alloc w) !! i)) = None"
    "i \<noteq> j \<Longrightarrow> fst (stl (n_alloc w) !! i) \<noteq> fst (stl (n_alloc w) !! j)" for i j
    using fresh(2) [of "Suc i" 0] fresh(1) [of "Suc i"] fresh(2) [of "Suc i" "Suc j"] c by simp_all
  have "server_extra w'"
    using d(4) sv tail by (auto simp: server_extra_def fresh_alloc_def w')
  moreover have "0 < refs w' b" if "n_conns w' b \<noteq> None" for b
    using d(3) [of b] k that by (cases "b = c") (auto simp: w' refs_def)
  ultimately show ?thesis
    unfolding server_counts_def using d(1) frame(2) by (intro countsI) (simp_all add: w')
qed

end


context server_ownership
begin

lemma counted_newConnection:
  assumes exec: "\<And>f. counted (server_counts other kept) (exec f)"
  shows "counted (server_counts other kept) (TcpServer_newConnection exec fd peer)"
proof (rule countedI)
  fix h w w'
  assume w: "server_counts other kept h w" and run: "TcpServer_newConnection exec fd peer w = Ok w'"
  have same: "w1 = w" if "EventLoop_assertInLoopThread l w = Ok w1" for l w1
    using that by (auto simp: EventLoop_assertInLoopThread_def loop_access check_def split: option.splits if_splits)
  obtain sv lp l c chan w1 w2 w3 w4 where sv: "n_server w = Some sv" and alloc: "shd (n_alloc w) = (c, chan)"
    and new: "TcpConnection_new c chan l fd (sv_listenAddr sv) peer (conn_name sv) (w\<lparr>n_alloc := stl (n_alloc w),
        n_server := Some (sv\<lparr>sv_threadPool := lp, sv_nextConnId := Suc (sv_nextConnId sv)\<rparr>)\<rparr>) = Ok w1"
    and middle: "insert_connection (conn_name sv) c w1 = Ok w2"
      "upd_conn c (\<lambda>k. TcpConnection_setCloseCallback Cb_TcpServer_removeConnection
         (TcpConnection_setMessageCallback (sv_messageCallback sv)
           (TcpConnection_setConnectionCallback (sv_connectionCallback sv) k))) w2 = Ok w3"
      "run_bound exec l c (Fn_connectEstablished c) w3 = Ok w4"
    and last: "conn_unref c w4 = Ok w'"
    using run
    by (auto simp: TcpServer_newConnection_def get_next_loop_def server_access modify_def dest!: same
        split: option.splits sum.splits prod.splits)
  have "server_counts other kept (holding c h) w1" by (rule create_counts [OF w alloc new sv]) simp
  from step [OF counted_insert this middle(1)] have "server_counts other kept (holding c h) w2" .
  from step [OF neutral [OF neutral_control(6)] this middle(2)] have "server_counts other kept (holding c h) w3" by simp
  from step [OF run_functor [of exec, OF exec] this middle(3)] have "server_counts other kept (holding c h) w4"
    by (simp add: functor_conn_def)
  then show "server_counts other kept h w'" using last by (rule unref)
qed

lemma counted_accept:
  assumes "\<And>fd peer. counted (server_counts other kept) (newConnection fd peer)"
  shows "counted (server_counts other kept) (Acceptor_handleRead newConnection)"
proof -
  have "counted (server_counts other kept) (Socket_accept s a (\<lambda>connfd peerAddr.
      if 0 \<le> connfd then (if b then newConnection connfd peerAddr else close_fd connfd) else skip))" for s a b
  proof (rule countedI)
    fix h w w'
    let ?k = "\<lambda>connfd peerAddr. if 0 \<le> connfd then (if b then newConnection connfd peerAddr else close_fd connfd) else skip"
    assume w: "server_counts other kept h w" and run: "Socket_accept s a ?k w = Ok w'"
    have k: "counted (server_counts other kept) (?k connfd peer)" for connfd peer
      unfolding close_fd_def by (intro counted_intros assms counted_kernel) simp
    from Socket_accept_result [OF run] obtain connfd peer w1 where w': "?k connfd peer w1 = Ok w'"
      and same: "w_loops w1 = w_loops w" "n_conns w1 = n_conns w" "acceptor_net.more w1 = acceptor_net.more w" by blast
    have "server_counts other kept h w1"
      by (rule same_owners [OF w]) (use same(1,2) same(3) in \<open>cases w1; cases w; simp\<close>)+
    from step [OF k this w'] show "server_counts other kept h w'" .
  qed
  then show ?thesis
    unfolding Acceptor_handleRead_def by (intro counted_server counted_block neutral [OF neutral_assertInLoop(1)])
qed

text \<open>Functors, callbacks and events, for any depth, and with them whole runs.\<close>

lemma counted_exec_call:
  assumes user: "\<And>cb c buf. counted (server_counts other kept) (user cb c buf)"
  shows "(\<forall>f. counted (server_counts other kept) (server_exec user n f)) \<and>
    (\<forall>cb c buf. counted (server_counts other kept) (server_call user n cb c buf))"
proof (induction n)
  case 0
  then show ?case by (simp add: counted_control(5))
next
  case (Suc n)
  then have exec: "counted (server_counts other kept) (server_exec user n f)"
    and call: "counted (server_counts other kept) (server_call user n cb c buf)" for f cb c buf
    by blast+
  show ?case
  proof (intro conjI allI)
    fix f
    show "counted (server_counts other kept) (server_exec user (Suc n) f)"
      using counted_connectEstablished [folded server_counts_def, of "server_call user n", OF call]
        counted_connectDestroyed [folded server_counts_def, of "server_call user n", OF call]
        neutral [OF neutral_conn(3)] counted_sends [folded server_counts_def]
        counted_removeConnectionInLoop [of "server_exec user n", OF exec] counted_listen
      by (cases f) (simp_all add: counted_control(5))
    fix cb c buf
    show "counted (server_counts other kept) (server_call user (Suc n) cb c buf)"
      using counted_removeConnection [of "server_exec user n", OF exec] user counted_control(2)
      by (cases cb) (simp_all add: skip_def [abs_def] counted_control(2))
  qed
qed

lemma counted_fire:
  assumes user: "\<And>cb c buf. counted (server_counts other kept) (user cb c buf)"
  shows "counted (server_counts other kept) (server_fire user n cb)"
proof -
  have exec: "counted (server_counts other kept) (server_exec user n f)"
    and call: "counted (server_counts other kept) (server_call user n cb c buf)" for f cb c buf
    using counted_exec_call [of user, OF user] by blast+
  show ?thesis
    unfolding server_fire_def
    using neutral [OF neutral_loop(2)] counted_handleRead [folded server_counts_def, of "server_call user n", OF call]
      counted_handleWrite [folded server_counts_def] counted_handleClose [folded server_counts_def, of "server_call user n", OF call]
      neutral [OF neutral_conn(2)] counted_accept [OF counted_newConnection [of "server_exec user n", OF exec]]
    by (cases cb) (simp_all add: counted_control(5))
qed

lemma counted_server_loop:
  assumes user: "\<And>cb c buf. counted (server_counts other kept) (user cb c buf)"
  shows "counted (server_counts other kept) (EventLoop_loop (server_fire user n) (server_exec user m) release_functor l ks)"
  by (rule counted_loop_run [folded server_counts_def])
    (use counted_fire [of user, OF user] counted_exec_call [of user, OF user] in blast)+

end


section \<open>Schedules\<close>

text \<open>
  What the threads of a server program do, at the granularity of turns: a loop runs a turn, or
  a thread calls an operation of a connection that its users may call.
\<close>

datatype server_op =
    Srv_turn loop_id "int \<times> 16 word list"
  | Srv_send conn_id "byte list"
  | Srv_sendChar conn_id char_ptr nat
  | Srv_shutdown conn_id

fun run_server_op :: "'z server_call \<Rightarrow> nat \<Rightarrow> nat \<times> server_op \<Rightarrow> 'z server_net_scheme stmt" where
  "run_server_op user n (t, Srv_turn l k) =
     on_thread t (EventLoop_turn (server_fire user n) (server_exec user n) release_functor l k)"
| "run_server_op user n (t, Srv_send c m) = on_thread t (TcpConnection_send (server_exec user n) c m)"
| "run_server_op user n (t, Srv_sendChar c p len) = on_thread t (TcpConnection_sendChar (server_exec user n) c p len)"
| "run_server_op user n (t, Srv_shutdown c) = on_thread t (TcpConnection_shutdown (server_exec user n) c)"

context server_ownership
begin

lemma counted_on_thread:
  assumes "counted (server_counts other kept) s"
  shows "counted (server_counts other kept) (on_thread t s)"
proof (rule countedI)
  fix h w w'
  assume w: "server_counts other kept h w" and "on_thread t s w = Ok w'"
  then obtain w1 where w1: "s (w\<lparr>w_thread := t\<rparr>) = Ok w1" and w': "w' = w1\<lparr>w_thread := w_thread w\<rparr>"
    by (auto simp: on_thread_def split: sum.splits)
  have "server_counts other kept h (w\<lparr>w_thread := t\<rparr>)" by (rule same_owners [OF w]) simp_all
  from step [OF assms this w1] have "server_counts other kept h w1" .
  then show "server_counts other kept h w'" unfolding w' by (rule same_owners) simp_all
qed

lemma counted_schedule:
  assumes user: "\<And>cb c buf. counted (server_counts other kept) (user cb c buf)"
  shows "counted (server_counts other kept) (block (map (run_server_op user n) ops))"
proof (rule counted_map)
  fix x assume "x \<in> set ops"
  have exec: "counted (server_counts other kept) (server_exec user n f)" for f
    using counted_exec_call [of user, OF user] by blast
  have "counted (server_counts other kept) (EventLoop_turn (server_fire user n) (server_exec user n) release_functor l k)" for l k
    by (rule counted_turn [folded server_counts_def]) (rule counted_fire [OF user], rule exec)
  then show "counted (server_counts other kept) (run_server_op user n x)"
    using counted_send [folded server_counts_def, of "server_exec user n", OF exec]
      counted_shutdown [folded server_counts_def, of "server_exec user n", OF exec]
    by (cases x; cases "snd x") (auto intro: counted_on_thread)
qed

end

section \<open>Properties\<close>

text \<open>A server on its own: nothing else owns connections.\<close>

abbreviation nothing :: "'w \<Rightarrow> conn_id \<Rightarrow> nat" where
  "nothing \<equiv> \<lambda>w c. 0"

abbreviation anything :: "'w \<Rightarrow> bool" where
  "anything \<equiv> \<lambda>w. True"

interpretation plain_server: server_ownership nothing anything
  by unfold_locales simp_all

text \<open>
  C5. Shared ownership is exact: in every schedule of turns of the server's loops on any
  threads, with sends and shutdowns from any thread in between, the use count of each
  connection is at the end the number of entries of the server's map and of functors in the
  queues that refer to it, and a connection is alive exactly if there are any. No connection
  leaks, and none is destroyed while it is referred to. The callbacks of the program are
  only assumed to keep the counts, and new connections to be put where none is.
\<close>

theorem server_reference_counts_exact:
  assumes start: "server_counts nothing anything (\<lambda>_. 0) w"
    and user: "\<And>cb c buf. counted (server_counts nothing anything) (user cb c buf)"
    and run: "block (map (run_server_op user n) ops) w = Ok w'"
  shows "refs w' c = server_own w' c + queued w' c \<and>
    (n_conns w' c = None \<longleftrightarrow> server_own w' c = 0 \<and> queued w' c = 0)"
proof -
  have "server_counts nothing anything (\<lambda>_. 0) w'"
    by (rule plain_server.step [OF plain_server.counted_schedule [OF user] start run])
  note d = countsD [OF this [unfolded server_counts_def]]
  have "refs w' c = server_own w' c + queued w' c" using d(2) [of c] by simp
  moreover have "n_conns w' c = None \<Longrightarrow> refs w' c = 0" by (simp add: refs_def)
  ultimately show ?thesis using d(3) [of c] by (cases "n_conns w' c") auto
qed

text \<open>The server of the example, with its connection, and fresh addresses.\<close>

definition example_counted_net :: server_net where
  "example_counted_net = (example_server_net (example_server 4) None)\<lparr>n_alloc := smap (\<lambda>i. (Suc i, 100 + i)) nats\<rparr>"

lemma example_counted_simps:
  "n_conns example_counted_net = [0 \<mapsto> example_server_conn]" "n_server example_counted_net = Some (example_server 4)"
  "n_alloc example_counted_net = smap (\<lambda>i. (Suc i, 100 + i)) nats" "w_thread example_counted_net = 1"
  "w_loops example_counted_net = [4 \<mapsto> the (w_loops (example_net kConnected [] (sconst 1)) 4)]"
  "el_pendingFunctors (the (w_loops (example_net kConnected [] (sconst 1)) 4)) = []"
  "el_threadId (the (w_loops (example_net kConnected [] (sconst 1)) 4)) = 1"
  "tc_refs example_server_conn = 1" "tc_loop example_server_conn = 4" "tc_state example_server_conn = kConnected"
  by (simp_all add: example_counted_net_def example_server_conn_def example_conn_def new_connection_def)
    (auto simp: example_net_def fun_eq_iff)

lemma example_counted: "server_counts nothing anything (\<lambda>_. 0) example_counted_net"
proof -
  let ?w = example_counted_net
  have own: "server_own ?w c = (if c = 0 then 1 else 0)" for c by (simp add: server_own_def example_counted_simps)
  have queued: "queued ?w c = 0" for c by (simp add: queued_def example_counted_simps)
  have refs: "refs ?w c = (if c = 0 then 1 else 0)" for c
    by (simp add: refs_def example_counted_simps)
  have "fresh_alloc ?w" by (simp add: fresh_alloc_def example_counted_simps)
  then have "server_extra ?w" by (simp add: server_extra_def example_counted_simps)
  then show ?thesis
    unfolding server_counts_def using own queued refs
    by (intro countsI) (simp_all add: example_counted_simps split: if_splits)
qed

theorem server_reference_counts_exact_witness:
  "\<exists>w'. block (map (run_server_op (\<lambda>_ _ _. skip) 0) [(2, Srv_shutdown 0)]) example_counted_net = Ok w' \<and>
    refs w' 0 = 2 \<and> server_own w' 0 = 1 \<and> queued w' 0 = 1"
proof -
  let ?w = example_counted_net
  let ?el = "the (w_loops (example_net kConnected [] (sconst 1)) 4)"
  let ?k = "example_server_conn\<lparr>tc_state := kDisconnecting, tc_refs := 2\<rparr>"
  let ?w' = "?w\<lparr>n_conns := [0 \<mapsto> ?k], w_loops := [4 \<mapsto> ?el\<lparr>el_pendingFunctors := [Fn_shutdownInLoop 0],
      el_pipeBytes := Suc (el_pipeBytes ?el)\<rparr>]\<rparr>"
  have run: "block (map (run_server_op (\<lambda>_ _ _. skip) 0) [(2, Srv_shutdown 0)]) ?w = Ok ?w'"
    by (simp add: on_thread_def TcpConnection_shutdown_def TcpConnection_setState_def conn_access run_bound_def
        EventLoop_isInLoopThread_def conn_ref_def EventLoop_runInLoop_def EventLoop_wakeup_def if_then_def loop_access
        example_counted_simps numeral_2_eq_2)
  have "refs ?w' 0 = 2" "queued ?w' 0 = 1" by (simp_all add: refs_def queued_def functor_conn_def bound_to_def)
  moreover from server_reference_counts_exact [OF example_counted counted_control(2) run, of 0]
  have "refs ?w' 0 = server_own ?w' 0 + queued ?w' 0" by blast
  ultimately show ?thesis using run by auto
qed

end
