(* ===== verification/ConnStates.thy ===== *)
theory ConnStates
  imports ServerRefs
begin

text \<open>
  The order of a connection's states. Every operation of a connection, of the server and of
  its loops moves a connection only forward, with the functors and callbacks the program
  itself passes around run by its own definitions. The callbacks of a user are programs over
  the public operations of \<open>TcpConnection\<close>.
\<close>

section \<open>The order of the states\<close>

fun state_rank :: "conn_state \<Rightarrow> nat" where
  "state_rank kConnecting = 0"
| "state_rank kConnected = 1"
| "state_rank kDisconnecting = 2"
| "state_rank kDisconnected = 3"

instantiation conn_state :: linorder
begin

definition less_eq_conn_state :: "conn_state \<Rightarrow> conn_state \<Rightarrow> bool" where
  "less_eq_conn_state a b \<longleftrightarrow> state_rank a \<le> state_rank b"

definition less_conn_state :: "conn_state \<Rightarrow> conn_state \<Rightarrow> bool" where
  "less_conn_state a b \<longleftrightarrow> state_rank a < state_rank b"

instance
proof
  fix a b :: conn_state
  assume "a \<le> b" "b \<le> a"
  then show "a = b" by (cases a; cases b) (simp_all add: less_eq_conn_state_def)
qed (auto simp: less_eq_conn_state_def less_conn_state_def)

end


text \<open>How far the connection at an address has got; a connection that is gone has got furthest.\<close>

definition life :: "'z net_scheme \<Rightarrow> conn_id \<Rightarrow> nat" where
  "life w c = (case n_conns w c of None \<Rightarrow> 4 | Some k \<Rightarrow> state_rank (tc_state k))"

lemma life_simps: "n_conns w c = None \<Longrightarrow> life w c = 4" "n_conns w c = Some k \<Longrightarrow> life w c = state_rank (tc_state k)"
  by (simp_all add: life_def)

section \<open>Statements that leave the connections alone\<close>

definition same_conns :: "'z net_stmt \<Rightarrow> bool" where
  "same_conns s \<longleftrightarrow> (\<forall>w w'. s w = Ok w' \<longrightarrow> n_conns w' = n_conns w \<and> net.more w' = net.more w)"


named_theorems conns_same "statements that leave the connection objects alone"

lemma same_conns_block [conns_same]:
  "same_conns (block [])"
  "same_conns s \<Longrightarrow> same_conns (block ss) \<Longrightarrow> same_conns (block (s # ss))"
  by (auto simp: same_conns_def split: sum.splits)



lemma same_conns_if [conns_same]:
  "same_conns s \<Longrightarrow> same_conns (if_then b s)"
  "same_conns s \<Longrightarrow> same_conns t \<Longrightarrow> same_conns (if x then s else t)"
  "same_conns s \<Longrightarrow> same_conns t \<Longrightarrow> same_conns (\<lambda>w. if b w then s w else t w)"
  by (auto simp: same_conns_def if_then_def split: if_splits)





section \<open>Keeping a connection from going back\<close>



section \<open>The server\<close>














section \<open>Programs on a server\<close>











section \<open>Property\<close>



end
