(* ===== verification/Codec.thy ===== *)
theory Codec
  imports InetAddress
begin

text \<open>
  \<open>Codec.h\<close>: the length header of a message, the packing of calls and results into JSON
  and their unpacking. The JSON library is not part of the repository: it is a parameter, the
  record \<open>json_api\<close> of the operations the code calls, with their documented laws in
  \<open>json_laws\<close>. Contents of a \<open>std::string\<close> are byte lists; the fixed keys of the code
  are literals.
\<close>

unbundle bit_operations_syntax

section \<open>The length header\<close>

definition Codec_cal_headers :: "byte list \<Rightarrow> byte list" where
  "Codec_cal_headers s = (let bytes = word_of_nat (length s) :: 32 word in
     [ucast (drop_bit 24 bytes AND 0xFF),
      ucast (drop_bit 16 bytes AND 0xFF),
      ucast (drop_bit 8 bytes AND 0xFF),
      ucast (bytes AND 0xFF)])"

text \<open>
  Reading a header back, as both ends do: a \<open>char\<close> is promoted to \<open>int\<close>, shifted and
  added to an \<open>unsigned int\<close>. Whether \<open>char\<close> is signed is a choice of the platform
  (it is on the usual ones); shifting a negative \<open>int\<close> is the shift of its two's
  complement representation, as compilers do it.
\<close>

definition char_value :: "bool \<Rightarrow> byte \<Rightarrow> 32 word" where
  "char_value char_signed b = (if char_signed then scast b else ucast b)"

definition header_length :: "bool \<Rightarrow> byte list \<Rightarrow> 32 word" where
  "header_length char_signed buf =
     0 + push_bit 24 (char_value char_signed (buf ! 0))
       + push_bit 16 (char_value char_signed (buf ! 1))
       + push_bit 8 (char_value char_signed (buf ! 2))
       + char_value char_signed (buf ! 3)"

lemma length_cal_headers [simp]: "length (Codec_cal_headers s) = 4"
  by (simp add: Codec_cal_headers_def Let_def)

lemma scast_byte: "(scast (b :: byte) :: 32 word) = ucast b - (if bit b 7 then 256 else 0)"
proof -
  have u: "take_bit 8 (uint b) = uint b"
    by (rule take_bit_int_eq_self) (use uint_bounded [of b] in simp_all)
  have "sint b = uint b - 256 * of_bool (bit (uint b) 7)"
    by (simp add: sint_uint signed_take_bit_eq_take_bit_minus u)
  then have s: "sint b = uint b - (if bit b 7 then 256 else 0)" by (simp add: bit_uint_iff)
  have c: "(scast b :: 32 word) = of_int (sint b)" "(ucast b :: 32 word) = of_int (uint b)"
    by (simp_all only: of_int_sint of_int_uint)
  show ?thesis unfolding c s by (cases "bit b 7") (simp_all only: if_True if_False of_int_diff of_int_numeral of_int_0)
qed

lemma byte_nat: "(x :: 32 word) AND 0xFF = word_of_nat (unat x mod 256)"
proof -
  have "x AND 0xFF = take_bit 8 x" by (simp add: take_bit_eq_mask mask_eq_exp_minus_1)
  also have "\<dots> = word_of_nat (unat (take_bit 8 x))" by simp
  also have "unat (take_bit 8 x) = unat x mod 256" by (simp only: unsigned_take_bit_eq) (simp add: take_bit_eq_mod)
  finally show ?thesis .
qed
text \<open>The four bytes, read as unsigned, add up to the number they were taken from.\<close>

lemma bytes_of_word:
  fixes n :: "32 word"
  shows "push_bit 24 (drop_bit 24 n AND 0xFF) + push_bit 16 (drop_bit 16 n AND 0xFF) +
         push_bit 8 (drop_bit 8 n AND 0xFF) + (n AND 0xFF) = n"
proof -
  let ?m = "unat n"
  have lt: "?m < 2 ^ 32" using unsigned_less [of n, where 'a = nat] by simp
  have d: "unat (drop_bit k n) = ?m div 2 ^ k" for k by (simp only: unat_drop_bit_eq) (simp add: drop_bit_eq_div)
  have "?m = (?m div 2 ^ 24 mod 256) * 2 ^ 24 + (?m div 2 ^ 16 mod 256) * 2 ^ 16 + (?m div 2 ^ 8 mod 256) * 2 ^ 8 + ?m mod 256"
  proof -
    have "?m div 2 ^ 24 mod 256 = ?m div 2 ^ 24" using lt by (intro mod_less) (simp add: div_less_iff_less_mult)
    moreover have "?m div 2 ^ 16 = ?m div 2 ^ 24 * 256 + ?m div 2 ^ 16 mod 256"
      using div_mult_mod_eq [of "?m div 2 ^ 16" 256] by (simp add: div_mult2_eq [symmetric])
    moreover have "?m div 2 ^ 8 = ?m div 2 ^ 16 * 256 + ?m div 2 ^ 8 mod 256"
      using div_mult_mod_eq [of "?m div 2 ^ 8" 256] by (simp add: div_mult2_eq [symmetric])
    moreover have "?m = ?m div 2 ^ 8 * 256 + ?m mod 256" using div_mult_mod_eq [of ?m 256] by simp
    moreover have "m = a' * 2 ^ 24 + b * 2 ^ 16 + c * 2 ^ 8 + d"
      if "a' = a" "B = a * 256 + b" "C = B * 256 + c" "m = C * 256 + d" for m a a' b B c C d :: nat
      using that by simp
    ultimately show ?thesis by blast
  qed
  from arg_cong [OF this, of "word_of_nat :: nat \<Rightarrow> 32 word"]
  have "n = word_of_nat (?m div 2 ^ 24 mod 256) * 2 ^ 24 + word_of_nat (?m div 2 ^ 16 mod 256) * 2 ^ 16 + word_of_nat (?m div 2 ^ 8 mod 256) * 2 ^ 8 + word_of_nat (?m mod 256)"
    unfolding of_nat_add of_nat_mult of_nat_power of_nat_numeral by (simp only: of_nat_unat ucast_id)
  then show ?thesis by (simp only: byte_nat d push_bit_eq_mult)
qed

lemma ucast_byte: "(ucast (ucast (x AND 0xFF :: 32 word) :: byte) :: 32 word) = x AND 0xFF"
proof -
  have "x AND 0xFF = take_bit 8 x" by (simp add: take_bit_eq_mask mask_eq_exp_minus_1)
  then show ?thesis by (simp only:) (rule bit_word_eqI, auto simp: bit_simps)
qed

lemma bit_byte: "bit (ucast (drop_bit k (n :: 32 word) AND 0xFF) :: byte) 7 \<longleftrightarrow> bit n (k + 7)"
  by (auto simp: bit_simps)

text \<open>
  What a platform with signed \<open>char\<close> loses: a byte of 128 or more is read 256 too small.
\<close>

definition lost :: "bool \<Rightarrow> 32 word \<Rightarrow> 32 word" where
  "lost char_signed n = (if char_signed then
      (if bit n 23 then 0x1000000 else 0) + (if bit n 15 then 0x10000 else 0) + (if bit n 7 then 0x100 else 0) else 0)"

lemma header_length_append: "header_length cs (Codec_cal_headers m @ t) = header_length cs (Codec_cal_headers m)"
  by (simp add: header_length_def nth_append)

lemma header_length_cal_headers:
  "header_length char_signed (Codec_cal_headers s) =
     word_of_nat (length s) - lost char_signed (word_of_nat (length s))"
proof -
  let ?n = "word_of_nat (length s) :: 32 word"
  have b0: "bit (ucast (?n AND 0xFF) :: byte) 7 \<longleftrightarrow> bit ?n 7" using bit_byte [of 0 ?n] by simp
  have "(4294967296 :: 32 word) = 0" by simp
  then have z: "x - 4294967296 = x" for x :: "32 word" by (simp only:) simp
  show ?thesis
    using bytes_of_word [of ?n]
    by (simp add: z add.assoc header_length_def Codec_cal_headers_def Let_def char_value_def scast_byte lost_def ucast_byte bit_byte b0 push_bit_eq_mult)
qed

lemma lost_0_iff: "lost char_signed n = 0 \<longleftrightarrow> (char_signed \<longrightarrow> \<not> bit n 7 \<and> \<not> bit n 15 \<and> \<not> bit n 23)"
  by (cases "bit n 7"; cases "bit n 15"; cases "bit n 23") (simp_all add: lost_def)

section \<open>Calls and results as JSON\<close>

text \<open>
  The operations of the JSON library that the codec calls. \<open>js_member\<close> is \<open>j[key]\<close> read
  (null when the key is missing; \<open>None\<close>: it throws), \<open>js_put\<close> the assignment
  \<open>j[key] = v\<close>, \<open>js_items\<close> the entries from \<open>begin()\<close> to \<open>end()\<close>, \<open>js_get_string\<close> and \<open>js_get_bool\<close> are \<open>try_get\<close>, \<open>js_parse\<close> throws
  on malformed text.
\<close>

record 'j json_api =
  js_null :: 'j
  js_string :: "byte list \<Rightarrow> 'j"
  js_bool :: "bool \<Rightarrow> 'j"
  js_is_null :: "'j \<Rightarrow> bool"
  js_container :: "'j \<Rightarrow> bool"
  js_get_string :: "'j \<Rightarrow> byte list option"
  js_get_bool :: "'j \<Rightarrow> bool option"
  js_member :: "'j \<Rightarrow> string \<Rightarrow> 'j option"
  js_put :: "'j \<Rightarrow> string \<Rightarrow> 'j \<Rightarrow> 'j"
  js_items :: "'j \<Rightarrow> (string \<times> 'j) list"
  js_dump :: "'j \<Rightarrow> byte list"
  js_parse :: "byte list \<Rightarrow> 'j option"

text \<open>
  The entries of an object are kept in a \<open>std::map\<close>, ordered by key: an assignment
  replaces the value of a present key or inserts the new key at its place.
\<close>

fun key_less :: "string \<Rightarrow> string \<Rightarrow> bool" where
  "key_less [] ys = (ys \<noteq> [])"
| "key_less (x # xs) [] = False"
| "key_less (x # xs) (y # ys) =
     ((of_char x :: nat) < of_char y \<or> x = y \<and> key_less xs ys)"

fun insert_item :: "string \<Rightarrow> 'v \<Rightarrow> (string \<times> 'v) list \<Rightarrow> (string \<times> 'v) list" where
  "insert_item k v [] = [(k, v)]"
| "insert_item k v ((k', v') # kvs) =
     (if k = k' then (k, v) # kvs
      else if key_less k k' then (k, v) # (k', v') # kvs
      else (k', v') # insert_item k v kvs)"

text \<open>
  The documented behaviour: a default-constructed value is null and can be assigned members,
  which are then read back and iterated over in the order of their keys; strings and booleans
  are read back; parsing a dumped object gives the object.
\<close>

definition json_laws :: "'j json_api \<Rightarrow> bool" where
  "json_laws api \<longleftrightarrow>
     js_is_null api (js_null api) \<and> js_container api (js_null api) \<and>
     (\<forall>k. js_member api (js_null api) k = Some (js_null api)) \<and>
     (\<forall>j k v. js_container api j \<longrightarrow> js_container api (js_put api j k v)) \<and>
     (\<forall>j k v k'. js_container api j \<longrightarrow>
        js_member api (js_put api j k v) k' = (if k' = k then Some v else js_member api j k')) \<and>
     (\<forall>s. js_get_string api (js_string api s) = Some s \<and> \<not> js_is_null api (js_string api s)) \<and>
     (\<forall>b. js_get_bool api (js_bool api b) = Some b) \<and>
     js_items api (js_null api) = [] \<and>
     (\<forall>j k v. js_container api j \<longrightarrow> js_items api (js_put api j k v) = insert_item k v (js_items api j)) \<and>
     (\<forall>j. js_container api j \<longrightarrow> js_parse api (js_dump api j) = Some j)"

lemma json_lawsD:
  assumes "json_laws api"
  shows "js_is_null api (js_null api)" "js_container api (js_null api)"
    "js_member api (js_null api) k = Some (js_null api)"
    "js_container api j \<Longrightarrow> js_container api (js_put api j k v)"
    "js_container api j \<Longrightarrow> js_member api (js_put api j k v) k' = (if k' = k then Some v else js_member api j k')"
    "js_get_string api (js_string api s) = Some s" "\<not> js_is_null api (js_string api s)"
    "js_get_bool api (js_bool api b) = Some b"
    "js_container api j \<Longrightarrow> js_parse api (js_dump api j) = Some j"
    "js_items api (js_null api) = []"
    "js_container api j \<Longrightarrow> js_items api (js_put api j k v) = insert_item k v (js_items api j)"
  using assms unfolding json_laws_def by auto

text \<open>The bytes of a string literal of the code.\<close>

definition lit :: "string \<Rightarrow> byte list" where
  "lit s = map of_char s"

record 'j codec =
  cd_j :: 'j
  cd_cur_index :: nat

definition Codec_new :: "'j json_api \<Rightarrow> 'j codec" where
  "Codec_new api = \<lparr>cd_j = js_null api, cd_cur_index = 0\<rparr>"

definition arg_key :: "nat \<Rightarrow> string" where
  "arg_key i = ''arg'' @ show_nat i"

text \<open>An argument is given as the JSON value it converts to when it is assigned.\<close>

definition Codec_pack_single_arg :: "'j json_api \<Rightarrow> 'j \<Rightarrow> 'j codec \<Rightarrow> 'j codec" where
  "Codec_pack_single_arg api arg cd =
     cd\<lparr>cd_j := js_put api (cd_j cd) (arg_key (cd_cur_index cd)) arg, cd_cur_index := Suc (cd_cur_index cd)\<rparr>"

definition Codec_pack_args :: "'j json_api \<Rightarrow> byte list \<Rightarrow> 'j list \<Rightarrow> 'j codec \<Rightarrow> byte list \<times> 'j codec" where
  "Codec_pack_args api funcName args cd =
     (let cd0 = cd\<lparr>cd_j := js_null api, cd_cur_index := 0\<rparr>;
          cd1 = cd0\<lparr>cd_j := js_put api (cd_j cd0) ''function_name'' (js_string api funcName)\<rparr>;
          cd2 = fold (Codec_pack_single_arg api) args cd1
      in (js_dump api (cd_j cd2), cd2))"

definition Codec_pack_result :: "'j json_api \<Rightarrow> 'j \<Rightarrow> bool \<Rightarrow> byte list" where
  "Codec_pack_result api result success =
     (let j1 = js_put api (js_null api) ''result'' result;
          j2 = js_put api j1 ''success'' (js_bool api True)
      in js_dump api j2)"

definition Codec_unpack_func_name :: "'j json_api \<Rightarrow> byte list \<Rightarrow> byte list res" where
  "Codec_unpack_func_name api s =
     (case js_parse api s of
        None \<Rightarrow> Fault UncaughtException
      | Some j \<Rightarrow>
          (case js_member api j ''func_name'' of
             None \<Rightarrow> Fault UncaughtException
           | Some v \<Rightarrow>
               if js_is_null api v then Ok []
               else (case js_get_string api v of
                       None \<Rightarrow> Fault UncaughtException
                     | Some name \<Rightarrow> Ok name)))"

text \<open>
  \<open>unpack_result<T>\<close>: \<open>conv\<close> converts a JSON value to \<open>T\<close> (\<open>None\<close>: it throws),
  \<open>empty_val\<close> is \<open>T()\<close>; the result is the returned pair with the new value of \<open>msg\<close>. When
  \<open>success\<close> is not a boolean the function ends without a \<open>return\<close>.
\<close>

definition Codec_unpack_result :: "'j json_api \<Rightarrow> ('j \<Rightarrow> 't option) \<Rightarrow> 't \<Rightarrow> byte list \<Rightarrow> byte list \<Rightarrow>
    (('t \<times> bool) \<times> byte list) res" where
  "Codec_unpack_result api conv empty_val s msg =
     (case js_parse api s of
        None \<Rightarrow> Fault UncaughtException
      | Some j \<Rightarrow>
          (case js_member api j ''success'' of
             None \<Rightarrow> Fault UncaughtException
           | Some v \<Rightarrow>
               (case js_get_bool api v of
                  None \<Rightarrow> Fault UndefinedBehaviour
                | Some success \<Rightarrow>
                    if success then
                      (case Option.bind (js_member api j ''result'') conv of
                         Some x \<Rightarrow> Ok ((x, True), msg)
                       | None \<Rightarrow> Ok ((empty_val, False), lit ''Error when unpacking''))
                    else
                      (case js_member api j ''result'' of
                         None \<Rightarrow> Fault UncaughtException
                       | Some r \<Rightarrow>
                           (case js_get_string api r of
                              Some m \<Rightarrow> Ok ((empty_val, False), m)
                            | None \<Rightarrow> Ok ((empty_val, False), lit ''No error message''))))))"

lemma arg_key_inj [simp]: "arg_key i = arg_key j \<longleftrightarrow> i = j"
  by (simp add: arg_key_def)

lemma arg_key_neq [simp]: "arg_key i \<noteq> ''function_name''" "arg_key i \<noteq> ''func_name''"
  "''function_name'' \<noteq> arg_key i" "''func_name'' \<noteq> arg_key i"
  by (simp_all add: arg_key_def)

lemma pack_fold:
  assumes "json_laws api" "js_container api (cd_j cd)"
  shows "js_container api (cd_j (fold (Codec_pack_single_arg api) args cd)) \<and>
    cd_cur_index (fold (Codec_pack_single_arg api) args cd) = cd_cur_index cd + length args \<and>
    (\<forall>i < length args. js_member api (cd_j (fold (Codec_pack_single_arg api) args cd))
       (arg_key (cd_cur_index cd + i)) = Some (args ! i)) \<and>
    (\<forall>k. (\<forall>i < length args. k \<noteq> arg_key (cd_cur_index cd + i)) \<longrightarrow>
       js_member api (cd_j (fold (Codec_pack_single_arg api) args cd)) k = js_member api (cd_j cd) k)"
  using assms(2)
proof (induction args arbitrary: cd)
  case Nil
  then show ?case by simp
next
  case (Cons a args)
  let ?cd1 = "Codec_pack_single_arg api a cd"
  have c1: "js_container api (cd_j ?cd1)" "cd_cur_index ?cd1 = Suc (cd_cur_index cd)"
    and m1: "js_member api (cd_j ?cd1) k = (if k = arg_key (cd_cur_index cd) then Some a else js_member api (cd_j cd) k)" for k
    using json_lawsD(4,5) [OF assms(1)] Cons.prems by (simp_all add: Codec_pack_single_arg_def)
  note IH = Cons.IH [OF c1(1), unfolded c1(2)]
  have hd: "js_member api (cd_j (fold (Codec_pack_single_arg api) args ?cd1)) (arg_key (cd_cur_index cd)) = Some a"
    using IH m1 [of "arg_key (cd_cur_index cd)"] by simp
  show ?case
  proof (intro conjI allI impI)
    fix i assume "i < length (a # args)"
    then show "js_member api (cd_j (fold (Codec_pack_single_arg api) (a # args) cd)) (arg_key (cd_cur_index cd + i)) =
        Some ((a # args) ! i)"
      using IH hd by (cases i) auto
  next
    fix k assume k: "\<forall>i < length (a # args). k \<noteq> arg_key (cd_cur_index cd + i)"
    have "k \<noteq> arg_key (cd_cur_index cd)" using k by (metis add_0_right length_greater_0_conv list.distinct(1))
    moreover have "\<forall>i < length args. k \<noteq> arg_key (Suc (cd_cur_index cd) + i)" using k by (auto dest: spec [of _ "Suc _"])
    ultimately show "js_member api (cd_j (fold (Codec_pack_single_arg api) (a # args) cd)) k = js_member api (cd_j cd) k"
      using IH m1 [of k] by simp
  qed (use IH in auto)
qed

text \<open>The object that a call is packed into.\<close>

lemma pack_args_object:
  assumes "json_laws api"
  obtains j where "fst (Codec_pack_args api f args cd) = js_dump api j" "js_parse api (js_dump api j) = Some j"
    "js_member api j ''function_name'' = Some (js_string api f)"
    "\<And>i. js_member api j (arg_key i) = Some (if i < length args then args ! i else js_null api)"
    "js_member api j ''func_name'' = Some (js_null api)"
proof -
  let ?cd = "cd\<lparr>cd_cur_index := 0, cd_j := js_put api (js_null api) ''function_name'' (js_string api f)\<rparr>"
  let ?j = "cd_j (fold (Codec_pack_single_arg api) args ?cd)"
  note law = json_lawsD [OF assms]
  have "js_container api (cd_j ?cd)" by (simp add: law)
  note fold = pack_fold [OF assms this, of args]
  show thesis
  proof (rule that [of ?j])
    show "fst (Codec_pack_args api f args cd) = js_dump api ?j" by (simp add: Codec_pack_args_def Let_def)
    show "js_parse api (js_dump api ?j) = Some ?j" using fold law(9) by blast
    show "js_member api ?j ''function_name'' = Some (js_string api f)"
      "js_member api ?j ''func_name'' = Some (js_null api)"
      using fold by (simp_all add: law)
    show "js_member api ?j (arg_key i) = Some (if i < length args then args ! i else js_null api)" for i
      using fold by (cases "i < length args") (simp_all add: law)
  qed
qed

lemma unpack_pack_result:
  assumes "json_laws api"
  shows "Codec_unpack_result api conv d (Codec_pack_result api r success) msg =
    (case conv r of Some x \<Rightarrow> Ok ((x, True), msg) | None \<Rightarrow> Ok ((d, False), lit ''Error when unpacking''))"
  using json_lawsD [OF assms] by (simp add: Codec_unpack_result_def Codec_pack_result_def Let_def)

end
