(* ===== verification/JsonInstance.thy ===== *)
theory JsonInstance
  imports Codec
begin

text \<open>
  A concrete JSON value type with a text format and its parser, for which the laws assumed of
  the JSON library hold; it is used by the witnesses only. The format is a prefix code:
  a tag, then the contents, with \<open>1\<close> before each element and \<open>0\<close> at the end.
\<close>

datatype json =
    JNull
  | JBool bool
  | JString "byte list"
  | JObject "(string \<times> json) list"

fun put_bytes :: "byte list \<Rightarrow> byte list" where
  "put_bytes [] = [0]"
| "put_bytes (b # s) = 1 # b # put_bytes s"

fun get_bytes :: "byte list \<Rightarrow> (byte list \<times> byte list) option" where
  "get_bytes (t # b # rest) =
     (if t = 0 then Some ([], b # rest)
      else map_option (\<lambda>(s, r). (b # s, r)) (get_bytes rest))"
| "get_bytes [t] = (if t = 0 then Some ([], []) else None)"
| "get_bytes [] = None"

lemma get_put_bytes [simp]: "get_bytes (put_bytes s @ rest) = Some (s, rest)"
  by (induction s) (cases rest; simp)+

lemma length_put_bytes: "length (put_bytes s) = 2 * length s + 1"
  by (induction s) simp_all

definition key_bytes :: "string \<Rightarrow> byte list" where
  "key_bytes k = map of_char k"

definition bytes_key :: "byte list \<Rightarrow> string" where
  "bytes_key s = map (\<lambda>b. char_of (unat b)) s"

lemma unat_of_char: "unat (of_char c :: byte) = of_char c"
proof -
  have "of_char c < (256 :: nat)" by simp
  then have "unat (word_of_nat (of_char c) :: byte) = of_char c"
    by (simp add: unat_of_nat)
  then show ?thesis by (simp add: of_nat_of_char)
qed

lemma bytes_key_bytes [simp]: "bytes_key (key_bytes k) = k"
  by (induction k) (simp_all add: bytes_key_def key_bytes_def unat_of_char)

fun dump :: "json \<Rightarrow> byte list" and dump_fields :: "(string \<times> json) list \<Rightarrow> byte list" where
  "dump JNull = [0]"
| "dump (JBool b) = [1, if b then 1 else 0]"
| "dump (JString s) = 2 # put_bytes s"
| "dump (JObject kvs) = 3 # dump_fields kvs"
| "dump_fields [] = [0]"
| "dump_fields ((k, v) # kvs) = 1 # put_bytes (key_bytes k) @ dump v @ dump_fields kvs"

fun parse :: "nat \<Rightarrow> byte list \<Rightarrow> (json \<times> byte list) option"
  and parse_fields :: "nat \<Rightarrow> byte list \<Rightarrow> ((string \<times> json) list \<times> byte list) option" where
  "parse (Suc n) (t # s) =
     (if t = 0 then Some (JNull, s)
      else if t = 1 then (case s of [] \<Rightarrow> None | b # r \<Rightarrow> Some (JBool (b \<noteq> 0), r))
      else if t = 2 then map_option (\<lambda>(x, r). (JString x, r)) (get_bytes s)
      else map_option (\<lambda>(x, r). (JObject x, r)) (parse_fields n s))"
| "parse (Suc n) [] = None"
| "parse 0 s = None"
| "parse_fields (Suc n) (t # s) =
     (if t = 0 then Some ([], s)
      else (case get_bytes s of
              None \<Rightarrow> None
            | Some (k, r) \<Rightarrow>
                (case parse n r of
                   None \<Rightarrow> None
                 | Some (v, r) \<Rightarrow> map_option (\<lambda>(kvs, r). ((bytes_key k, v) # kvs, r)) (parse_fields n r))))"
| "parse_fields (Suc n) [] = None"
| "parse_fields 0 s = None"

lemma parse_dump:
  "length (dump j) \<le> n \<Longrightarrow> parse n (dump j @ rest) = Some (j, rest)"
  "length (dump_fields kvs) \<le> n \<Longrightarrow> parse_fields n (dump_fields kvs @ rest) = Some (kvs, rest)"
proof (induction j and kvs arbitrary: n rest and n rest rule: dump_dump_fields.induct)
  case (4 kvs)
  then show ?case by (cases n) auto
next
  case (6 k v kvs)
  then show ?case by (cases n) auto
qed (case_tac n; simp)+

text \<open>\<open>j[key]\<close>: on null, and for a missing key, null; on other values it throws.\<close>

fun member_of :: "json \<Rightarrow> string \<Rightarrow> json option" where
  "member_of JNull k = Some JNull"
| "member_of (JObject kvs) k = Some (case map_of kvs k of None \<Rightarrow> JNull | Some v \<Rightarrow> v)"
| "member_of _ k = None"

fun put_member :: "json \<Rightarrow> string \<Rightarrow> json \<Rightarrow> json" where
  "put_member (JObject kvs) k v = JObject ((k, v) # kvs)"
| "put_member _ k v = JObject [(k, v)]"

definition items_of :: "json \<Rightarrow> (string \<times> json) list" where
  "items_of j = (case j of JObject kvs \<Rightarrow> foldr (\<lambda>(k, v). insert_item k v) kvs [] | _ \<Rightarrow> [])"

definition example_json :: "json json_api" where
  "example_json = \<lparr>js_null = JNull, js_string = JString, js_bool = JBool,
     js_is_null = (\<lambda>j. j = JNull),
     js_container = (\<lambda>j. case j of JNull \<Rightarrow> True | JObject _ \<Rightarrow> True | _ \<Rightarrow> False),
     js_get_string = (\<lambda>j. case j of JString s \<Rightarrow> Some s | _ \<Rightarrow> None),
     js_get_bool = (\<lambda>j. case j of JBool b \<Rightarrow> Some b | _ \<Rightarrow> None),
     js_member = member_of, js_put = put_member, js_items = items_of, js_dump = dump,
     js_parse = (\<lambda>s. case parse (length s) s of Some (j, []) \<Rightarrow> Some j | _ \<Rightarrow> None)\<rparr>"

lemma example_json_laws: "json_laws example_json"
proof -
  have "js_parse example_json (js_dump example_json j) = Some j" for j
    using parse_dump(1) [of j "length (dump j)" "[]"] by (simp add: example_json_def)
  moreover have "js_member example_json (js_put example_json j k v) k' =
      (if k' = k then Some v else js_member example_json j k')" if "js_container example_json j" for j k v k'
    using that by (cases j) (auto simp: example_json_def)
  moreover have "js_container example_json (js_put example_json j k v)" for j k v
    by (cases j) (simp_all add: example_json_def)
  moreover have "js_items example_json (js_put example_json j k v) = insert_item k v (js_items example_json j)"
    if "js_container example_json j" for j k v
    using that by (cases j) (simp_all add: example_json_def items_of_def)
  moreover have "js_items example_json (js_null example_json) = []" by (simp add: example_json_def items_of_def)
  ultimately show ?thesis by (simp add: json_laws_def) (simp add: example_json_def)
qed

end
