(* ===== verification/CodecProperties.thy ===== *)
theory CodecProperties
  imports JsonInstance
begin

text \<open>What the codec's headers, calls and results mean to the other end.\<close>

text \<open>
  C26. Decoding the header of a message gives the message's length (modulo \<open>2^32\<close>) exactly
  when \<open>char\<close> is unsigned or the bits 7, 15 and 23 of the length are clear: with signed
  \<open>char\<close> every length from 128 to 255, among others, is misread.
\<close>

theorem header_roundtrip:
  "header_length char_signed (Codec_cal_headers s) = word_of_nat (length s) \<longleftrightarrow>
     (\<not> (char_signed \<and> (bit (word_of_nat (length s) :: 32 word) 7 \<or>
        bit (word_of_nat (length s) :: 32 word) 15 \<or> bit (word_of_nat (length s) :: 32 word) 23)))"
  using lost_0_iff [of char_signed "word_of_nat (length s)"] by (auto simp: header_length_cal_headers)

text \<open>The lengths that the other end reads back, and what follows for the first fragment of a message.\<close>

definition header_readable :: "bool \<Rightarrow> nat \<Rightarrow> bool" where
  "header_readable char_signed n \<longleftrightarrow> n < 2 ^ 32 \<and> (char_signed \<longrightarrow> \<not> bit n 7 \<and> \<not> bit n 15 \<and> \<not> bit n 23)"

lemma short_readable: "n < 128 \<Longrightarrow> header_readable cs n"
  by (simp add: header_readable_def bit_iff_odd)

lemma readable_header:
  assumes "header_readable char_signed (length s)"
  shows "unat (header_length char_signed (Codec_cal_headers s)) = length s"
proof -
  have "lost char_signed (word_of_nat (length s)) = 0"
    using assms by (auto simp: lost_0_iff header_readable_def bit_simps)
  then show ?thesis
    using assms by (simp add: header_length_cal_headers header_readable_def unat_of_nat)
qed

lemma framed_message:
  assumes "header_readable cs (length s)" "first @ concat rest = Codec_cal_headers s @ s" "4 \<le> length first"
  shows "unat (header_length cs first) = length s" "drop 4 first @ concat rest = s"
proof -
  have "drop 4 (first @ concat rest) = s" using assms(2) by simp
  then show "drop 4 first @ concat rest = s" using assms(3) by simp
  have "first ! i = Codec_cal_headers s ! i" if "i < 4" for i
    using arg_cong [OF assms(2), of "\<lambda>xs. xs ! i"] assms(3) that by (simp add: nth_append)
  then have "header_length cs first = header_length cs (Codec_cal_headers s)" by (simp add: header_length_def)
  then show "unat (header_length cs first) = length s" using readable_header [OF assms(1)] by simp
qed

text \<open>
  C27. A packed call can be read back: parsing the text gives an object whose
  \<open>function_name\<close> is the name, whose \<open>arg0\<close>, \<open>arg1\<close>, ... are the arguments in order,
  and which has no further argument, whatever the codec packed before.
\<close>

theorem pack_args_roundtrip:
  assumes "json_laws api"
  shows "\<exists>j. js_parse api (fst (Codec_pack_args api f args cd)) = Some j \<and>
    js_member api j ''function_name'' = Some (js_string api f) \<and>
    (\<forall>i. js_member api j (arg_key i) = Some (if i < length args then args ! i else js_null api))"
  by (rule pack_args_object [OF assms, of f args cd]) auto

theorem pack_args_roundtrip_witness:
  "\<exists>j. js_parse example_json (fst (Codec_pack_args example_json (lit ''add'') [JBool True, JNull] (Codec_new example_json))) =
       Some j \<and> js_member example_json j (arg_key 0) = Some (JBool True)"
  using pack_args_roundtrip [OF example_json_laws, of "lit ''add''" "[JBool True, JNull]" "Codec_new example_json"]
  by auto

text \<open>
  The flag \<open>success\<close> of a reply is lost: whatever \<open>pack_result\<close> is told, unpacking
  its text reports success (or a failed conversion of the result), so an error reply is
  taken for the result of the call.
\<close>

theorem error_results_unpack_as_success:
  assumes "json_laws api"
  shows "Codec_unpack_result api conv d (Codec_pack_result api r success) msg =
    (case conv r of Some x \<Rightarrow> Ok ((x, True), msg) | None \<Rightarrow> Ok ((d, False), lit ''Error when unpacking''))"
  by (rule unpack_pack_result [OF assms])

theorem error_results_unpack_as_success_witness:
  "Codec_unpack_result example_json (\<lambda>j. case j of JString s \<Rightarrow> Some s | _ \<Rightarrow> None) []
     (Codec_pack_result example_json (JString (lit ''Parameter mismatch'')) False) [] =
   Ok ((lit ''Parameter mismatch'', True), [])"
  using error_results_unpack_as_success [OF example_json_laws, of "\<lambda>j. case j of JString s \<Rightarrow> Some s | _ \<Rightarrow> None"]
  by simp

text \<open>
  The server never reads the name a client packs: \<open>unpack_func_name\<close> of a packed
  call is the empty string, for every function name and arguments.
\<close>

theorem packed_function_name_is_not_found:
  assumes "json_laws api"
  shows "Codec_unpack_func_name api (fst (Codec_pack_args api f args cd)) = Ok []"
  by (rule pack_args_object [OF assms, of f args cd])
    (simp add: Codec_unpack_func_name_def json_lawsD [OF assms])

theorem packed_function_name_is_not_found_witness:
  "Codec_unpack_func_name example_json
     (fst (Codec_pack_args example_json (lit ''add'') [JBool True] (Codec_new example_json))) = Ok []"
  by (rule packed_function_name_is_not_found [OF example_json_laws])

end
