(* ===== verification/RPC_Server.thy ===== *)
theory RPC_Server
  imports TcpServer CodecProperties
begin

text \<open>
  \<open>RPC_Server.h\<close>: framing of requests, dispatch to the registered functions and replies. The
  world gets the members of the server object. The two maps are keyed by the shared pointer
  of the connection, so each entry holds a reference. A registered function is an opaque
  \<open>std::function\<close>, given by a number; \<open>handler\<close> says what calling it with a request does
  (\<open>RPC_Dispatch\<close> has the functions that \<open>register_handler\<close> makes).
\<close>

section \<open>State and operations\<close>

record 'j rpc_net = server_net +
  rs_loop :: loop_id
  rs_functions :: "byte list \<rightharpoonup> nat"
  rs_codec :: "'j codec"
  rs_readBuffers :: "conn_id \<rightharpoonup> byte list"
  rs_read_bytes :: "conn_id \<rightharpoonup> 32 word"

type_synonym ('j, 'z) rpc_stmt = "('j, 'z) rpc_net_scheme stmt"
type_synonym ('j, 'z) rpc_exec = "loop_functor \<Rightarrow> ('j, 'z) rpc_stmt"
type_synonym ('j, 'z) rpc_handler = "nat \<Rightarrow> byte list \<Rightarrow> conn_id \<Rightarrow> ('j, 'z) rpc_stmt"

text \<open>
  The constructor, after \<open>new EventLoop\<close> gave the loop \<open>loop\<close>: the server with its message
  callback, the codec and the empty maps.
\<close>

definition RPC_Server_new :: "'j json_api \<Rightarrow> chan_id \<Rightarrow> int \<Rightarrow> int \<Rightarrow> loop_id \<Rightarrow> 16 word \<Rightarrow> int \<Rightarrow> ('j, 'z) rpc_stmt" where
  "RPC_Server_new api chan sock idle loop port thread_num = block
     [TcpServer_new chan sock idle loop (InetAddress_any port) ''RPC_Server'' True,
      modify (\<lambda>w. w\<lparr>rs_loop := loop, rs_functions := Map.empty, rs_codec := Codec_new api,
        rs_readBuffers := Map.empty, rs_read_bytes := Map.empty\<rparr>),
      TcpServer_setThreadNum thread_num,
      TcpServer_setMessageCallback Cb_RPC_Server_onMessage]"

definition RPC_Server_register_handler :: "byte list \<Rightarrow> nat \<Rightarrow> ('j, 'z) rpc_stmt" where
  "RPC_Server_register_handler func_name f =
     modify (\<lambda>w. w\<lparr>rs_functions := (rs_functions w)(func_name \<mapsto> f)\<rparr>)"

text \<open>\<open>operator[]\<close> of the two maps: a missing entry is created, with a copy of the pointer.\<close>

definition entry_readBuffer :: "conn_id \<Rightarrow> ('j, 'z) rpc_stmt" where
  "entry_readBuffer c w =
     (if rs_readBuffers w c = None
      then block [conn_ref c, modify (\<lambda>w. w\<lparr>rs_readBuffers := (rs_readBuffers w)(c \<mapsto> [])\<rparr>)] w
      else Ok w)"

definition entry_read_bytes :: "conn_id \<Rightarrow> ('j, 'z) rpc_stmt" where
  "entry_read_bytes c w =
     (if rs_read_bytes w c = None
      then block [conn_ref c, modify (\<lambda>w. w\<lparr>rs_read_bytes := (rs_read_bytes w)(c \<mapsto> 0)\<rparr>)] w
      else Ok w)"

definition append_readBuffer :: "conn_id \<Rightarrow> byte list \<Rightarrow> ('j, 'z) rpc_stmt" where
  "append_readBuffer c bs = block
     [entry_readBuffer c,
      modify (\<lambda>w. w\<lparr>rs_readBuffers := (rs_readBuffers w)(c \<mapsto> the (rs_readBuffers w c) @ bs)\<rparr>)]"

definition RPC_Server_send_result :: "'j json_api \<Rightarrow> ('j, 'z) rpc_exec \<Rightarrow> conn_id \<Rightarrow> 'j \<Rightarrow> bool \<Rightarrow> ('j, 'z) rpc_stmt" where
  "RPC_Server_send_result api exec c r success =
     (let msg = Codec_pack_result api r success; headers = Codec_cal_headers msg in block
        [TcpConnection_sendChar exec c headers 4,
         TcpConnection_send exec c msg])"

definition unregistered :: "byte list" where
  "unregistered = lit ''Function name unregistered''"

definition RPC_Server_handle_request :: "'j json_api \<Rightarrow> ('j, 'z) rpc_handler \<Rightarrow> ('j, 'z) rpc_exec \<Rightarrow> conn_id \<Rightarrow>
    ('j, 'z) rpc_stmt" where
  "RPC_Server_handle_request api handler exec c = block
     [entry_readBuffer c,
      (\<lambda>w. let buf = the (rs_readBuffers w c) in
        case Codec_unpack_func_name api buf of
          Inl e \<Rightarrow> Fault e
        | Inr func_name \<Rightarrow>
            (case rs_functions w func_name of
               None \<Rightarrow> RPC_Server_send_result api exec c (js_string api unregistered) False w
             | Some f \<Rightarrow> handler f buf c w))]"

text \<open>\<open>onMessage\<close>; \<open>char_signed\<close> is the platform's choice for \<open>char\<close>, \<open>buf\<close> the data read.\<close>

definition RPC_Server_onMessage :: "bool \<Rightarrow> 'j json_api \<Rightarrow> ('j, 'z) rpc_handler \<Rightarrow> ('j, 'z) rpc_exec \<Rightarrow> conn_id \<Rightarrow>
    byte list \<Rightarrow> ('j, 'z) rpc_stmt" where
  "RPC_Server_onMessage char_signed api handler exec c buf = block
     [(\<lambda>w. case rs_readBuffers w c of
        None \<Rightarrow>
          if length buf < 4 then Ok w
          else block
            [entry_read_bytes c,
             modify (\<lambda>w. w\<lparr>rs_read_bytes := (rs_read_bytes w)(c \<mapsto> header_length char_signed buf)\<rparr>),
             append_readBuffer c (drop 4 buf)] w
      | Some _ \<Rightarrow> append_readBuffer c buf w),
      entry_readBuffer c,
      entry_read_bytes c,
      (\<lambda>w. if length (the (rs_readBuffers w c)) = unat (the (rs_read_bytes w c))
           then RPC_Server_handle_request api handler exec c w else Ok w)]"

definition RPC_Server_start :: "('j, 'z) rpc_exec \<Rightarrow> (callback \<Rightarrow> ('j, 'z) rpc_stmt) \<Rightarrow> thread_resources list \<Rightarrow>
    (int \<times> 16 word list) list \<Rightarrow> ('j, 'z) rpc_stmt" where
  "RPC_Server_start exec fire rs polls = block
     [TcpServer_start exec (\<lambda>l. skip) rs,
      (\<lambda>w. EventLoop_loop fire exec release_functor (rs_loop w) polls w)]"

section \<open>Framing\<close>

text \<open>The connection while its first request is being read: what the maps hold.\<close>

definition receiving :: "conn_id \<Rightarrow> byte list \<Rightarrow> 32 word \<Rightarrow> ('j, 'z) rpc_net_scheme \<Rightarrow> bool" where
  "receiving c buf n w \<longleftrightarrow> rs_readBuffers w c = Some buf \<and> rs_read_bytes w c = Some n"

definition store_buffer :: "conn_id \<Rightarrow> byte list \<Rightarrow> ('j, 'z) rpc_net_scheme \<Rightarrow> ('j, 'z) rpc_net_scheme" where
  "store_buffer c buf w = w\<lparr>rs_readBuffers := (rs_readBuffers w)(c \<mapsto> buf)\<rparr>"

lemma store_buffer_simps [simp]:
  "rs_readBuffers (store_buffer c buf w) = (rs_readBuffers w)(c \<mapsto> buf)"
  "rs_read_bytes (store_buffer c buf w) = rs_read_bytes w" "rs_functions (store_buffer c buf w) = rs_functions w"
  "n_conns (store_buffer c buf w) = n_conns w" "k_wire (store_buffer c buf w) = k_wire w"
  "w_thread (store_buffer c buf w) = w_thread w" "w_heap (store_buffer c buf w) = w_heap w"
  "w_loops (store_buffer c buf w) = w_loops w" "k_room (store_buffer c buf w) = k_room w"
  "store_buffer c buf' (store_buffer c buf w) = store_buffer c buf' w"
  by (simp_all add: store_buffer_def)

lemma onMessage_more:
  assumes "receiving c buf n w"
  shows "RPC_Server_onMessage cs api handler exec c bs w =
    (if length (buf @ bs) = unat n then RPC_Server_handle_request api handler exec c (store_buffer c (buf @ bs) w)
     else Ok (store_buffer c (buf @ bs) w))"
  using assms
  by (simp add: RPC_Server_onMessage_def receiving_def append_readBuffer_def entry_readBuffer_def
      entry_read_bytes_def modify_def store_buffer_def split: sum.splits)

text \<open>The first fragment with a header: two references are taken and the body is started.\<close>

definition start_request :: "bool \<Rightarrow> conn_id \<Rightarrow> tcp_connection \<Rightarrow> byte list \<Rightarrow> ('j, 'z) rpc_net_scheme \<Rightarrow>
    ('j, 'z) rpc_net_scheme" where
  "start_request cs c k bs w = w\<lparr>rs_read_bytes := (rs_read_bytes w)(c \<mapsto> header_length cs bs),
     n_conns := (n_conns w)(c \<mapsto> k\<lparr>tc_refs := Suc (Suc (tc_refs k))\<rparr>),
     rs_readBuffers := (rs_readBuffers w)(c \<mapsto> drop 4 bs)\<rparr>"

lemma onMessage_first:
  assumes "n_conns w c = Some k" "rs_readBuffers w c = None" "rs_read_bytes w c = None" "4 \<le> length bs"
  shows "RPC_Server_onMessage cs api handler exec c bs w =
    (if length bs - 4 = unat (header_length cs bs)
     then RPC_Server_handle_request api handler exec c (start_request cs c k bs w)
     else Ok (start_request cs c k bs w))"
  using assms
  by (simp add: RPC_Server_onMessage_def append_readBuffer_def entry_readBuffer_def entry_read_bytes_def
      conn_ref_def conn_access modify_def start_request_def split: sum.splits)

lemma start_request_receiving: "receiving c (drop 4 bs) (header_length cs bs) (start_request cs c k bs w)"
  by (simp add: receiving_def start_request_def)

lemma block_single: "block [s] w = s w"
  by (simp split: sum.splits)

text \<open>The fragments after the first one: the request is handled with the last of them.\<close>

lemma feed_rest:
  assumes "receiving c buf n w" "rest \<noteq> []" "[] \<notin> set rest" "unat n = length (buf @ concat rest)"
  shows "block (map (RPC_Server_onMessage cs api handler exec c) rest) w =
    RPC_Server_handle_request api handler exec c (store_buffer c (buf @ concat rest) w)"
  using assms
proof (induction rest arbitrary: buf w)
  case Nil
  then show ?case by simp
next
  case (Cons b rest)
  note more = onMessage_more [OF Cons.prems(1), of cs api handler exec b]
  show ?case
  proof (cases "rest = []")
    case True
    with more Cons.prems(4) show ?thesis by (simp only: list.map block_single concat.simps append_Nil2) simp
  next
    case False
    then have "length (buf @ b) \<noteq> unat n"
      using Cons.prems(3,4) by (cases rest) auto
    with more have "RPC_Server_onMessage cs api handler exec c b w = Ok (store_buffer c (buf @ b) w)" by simp
    moreover have "receiving c (buf @ b) n (store_buffer c (buf @ b) w)"
      using Cons.prems(1) by (simp add: receiving_def)
    ultimately show ?thesis
      using Cons.IH [of "buf @ b" "store_buffer c (buf @ b) w"] False Cons.prems(3,4) by simp
  qed
qed

text \<open>Once a buffer holds at least what its header announced, nothing more is handled.\<close>

lemma feed_full:
  assumes "receiving c buf n w" "unat n \<le> length buf" "[] \<notin> set segs"
  shows "block (map (RPC_Server_onMessage cs api handler exec c) segs) w = Ok (store_buffer c (buf @ concat segs) w)"
  using assms
proof (induction segs arbitrary: buf w)
  case Nil
  then have "(rs_readBuffers w)(c \<mapsto> buf) = rs_readBuffers w" by (auto simp: receiving_def)
  then show ?case by (simp add: store_buffer_def)
next
  case (Cons b segs)
  then have "length (buf @ b) \<noteq> unat n" by (cases b) auto
  then have "RPC_Server_onMessage cs api handler exec c b w = Ok (store_buffer c (buf @ b) w)"
    using onMessage_more [OF Cons.prems(1), of cs api handler exec b] by simp
  moreover have "receiving c (buf @ b) n (store_buffer c (buf @ b) w)"
    using Cons.prems(1) by (simp add: receiving_def)
  ultimately show ?case
    using Cons.IH [of "buf @ b" "store_buffer c (buf @ b) w"] Cons.prems(2,3) by simp
qed

text \<open>A whole request, in fragments of which the first holds the header.\<close>

lemma feed_request:
  assumes k: "n_conns w c = Some k" "rs_readBuffers w c = None" "rs_read_bytes w c = None"
    and segs: "4 \<le> length first" "[] \<notin> set rest" "drop 4 first @ concat rest = body"
    and header: "unat (header_length cs first) = length body"
  shows "block (map (RPC_Server_onMessage cs api handler exec c) (first # rest)) w =
    RPC_Server_handle_request api handler exec c (store_buffer c body (start_request cs c k first w))"
proof -
  note start = onMessage_first [OF k segs(1), of cs api handler exec]
  have store: "store_buffer c (drop 4 first) (start_request cs c k first w) = start_request cs c k first w"
    by (simp add: store_buffer_def start_request_def)
  show ?thesis
  proof (cases "rest = []")
    case True
    with segs(3) have body: "body = drop 4 first" by simp
    have "RPC_Server_onMessage cs api handler exec c first w =
        RPC_Server_handle_request api handler exec c (start_request cs c k first w)"
      using start header body by simp
    with True body store show ?thesis by (simp only: list.map block_single)
  next
    case False
    then have "0 < length (concat rest)" using segs(2) by (cases rest) auto
    moreover have "length body = (length first - 4) + length (concat rest)"
      unfolding segs(3) [symmetric] by simp
    ultimately have "length first - 4 \<noteq> unat (header_length cs first)"
      using header by linarith
    with start have "RPC_Server_onMessage cs api handler exec c first w = Ok (start_request cs c k first w)" by simp
    moreover have "unat (header_length cs first) = length (drop 4 first @ concat rest)"
      using header segs(3) by simp
    note feed_rest [OF start_request_receiving False segs(2) this, of cs api handler exec]
    ultimately show ?thesis using segs(3) by simp
  qed
qed

section \<open>Replies\<close>

text \<open>An idle connection with room for the header sends header and message in full.\<close>

lemma send_result_ok:
  assumes es: "established c w p k ch" and k: "tc_state k = kConnected" "tc_outputBuffer k = []"
    and room: "4 \<le> shd (k_room w)"
  obtains w' where "RPC_Server_send_result api exec c r success w = Ok w'" "conn_ready c w'"
    "out_stream c w' = out_stream c w @ Codec_cal_headers (Codec_pack_result api r success) @ Codec_pack_result api r success"
proof -
  let ?msg = "Codec_pack_result api r success"
  let ?h = "Codec_cal_headers ?msg"
  have at: "attached c w p k ch" using es by (simp add: established_def)
  let ?w1 = "after_write (tc_socket k) ?h w"
  have fits: "accepted w ?h = length ?h" using room by (simp add: accepted_def)
  have 1: "TcpConnection_sendChar exec c ?h 4 w = Ok ?w1"
    using sendInLoopChar_fits(1) [OF es k(2) fits] attachedD(1) [OF at] k(1) attached_in_loop(1) [OF at]
    by (simp add: TcpConnection_sendChar_def with_conn_def)
  note es1 = sendInLoopChar_fits(2) [OF es k(2) fits] and out = sendInLoopChar_fits(3) [OF es k(2) fits]
  note at1 = es1 [unfolded established_def, THEN conjunct1]
  show thesis
  proof (rule sendInLoop_ok [OF es1, of ?msg], goal_cases)
    case (1 w' p' k' ch')
    have "TcpConnection_send exec c ?msg ?w1 = Ok w'"
      using attachedD(1) [OF at1] k(1) attached_in_loop(1) [OF at1] 1(1)
      by (simp add: TcpConnection_send_def with_conn_def)
    then show thesis
      using \<open>TcpConnection_sendChar exec c ?h 4 w = Ok ?w1\<close> 1(2,3) out
      by (intro that [of w']) (auto simp: RPC_Server_send_result_def Let_def conn_ready_def)
  qed
qed

text \<open>
  A first fragment of less than four bytes terminates the server: the bytes are dropped,
  the two new entries (no data, length 0) compare equal, so a request with no text is
  handled, and parsing the empty text throws an exception that nobody catches.
\<close>

lemma short_first_fragment_kills_server:
  assumes "n_conns w c = Some k" "rs_readBuffers w c = None" "rs_read_bytes w c = None"
    and "length bs < 4" "js_parse api [] = None"
  shows "RPC_Server_onMessage cs api handler exec c bs w = Fault UncaughtException"
  using assms
  by (simp add: RPC_Server_onMessage_def entry_readBuffer_def entry_read_bytes_def conn_ref_def conn_access
      modify_def RPC_Server_handle_request_def Codec_unpack_func_name_def)

text \<open>The server when the last byte of a first request has arrived: two references are taken.\<close>

definition received_request :: "conn_id \<Rightarrow> tcp_connection \<Rightarrow> byte list \<Rightarrow> ('j, 'z) rpc_net_scheme \<Rightarrow>
    ('j, 'z) rpc_net_scheme" where
  "received_request c k body w = w\<lparr>rs_read_bytes := (rs_read_bytes w)(c \<mapsto> word_of_nat (length body)),
     n_conns := (n_conns w)(c \<mapsto> k\<lparr>tc_refs := Suc (Suc (tc_refs k))\<rparr>),
     rs_readBuffers := (rs_readBuffers w)(c \<mapsto> body)\<rparr>"

section \<open>Properties\<close>

text \<open>
  C8. Framing: how the network cuts the first request of a connection, that is a message of the
  codec behind its header, into fragments matters only for the first one. If that has less
  than the four bytes of the header, the server terminates with an exception, the parser's on the
  empty text. Otherwise, if
  the header is one that is read back right, the effect of all the fragments is that of
  handling the whole body once, with the last of them, and does not depend on the cut.
\<close>

theorem first_request_any_segmentation:
  assumes k: "n_conns w c = Some k" "rs_readBuffers w c = None" "rs_read_bytes w c = None"
    and request: "first @ concat rest = Codec_cal_headers body @ body" "[] \<notin> set rest" "header_readable cs (length body)"
    and empty_text: "js_parse api [] = None"
  shows "block (map (RPC_Server_onMessage cs api handler exec c) (first # rest)) w =
    (if length first < 4 then Fault UncaughtException
     else RPC_Server_handle_request api handler exec c (received_request c k body w))"
proof (cases "length first < 4")
  case True
  with short_first_fragment_kills_server [OF k True empty_text] show ?thesis by simp
next
  case False
  then have "4 \<le> length first" by simp
  note message = framed_message [OF request(3,1) this]
  have "header_length cs first = word_of_nat (length body)" using message(1) by (metis of_nat_unat ucast_id)
  then have "store_buffer c body (start_request cs c k first w) = received_request c k body w"
    by (simp add: store_buffer_def start_request_def received_request_def)
  with feed_request [OF k \<open>4 \<le> length first\<close> request(2) message(2,1), of api handler exec] False show ?thesis by simp
qed

text \<open>A server with one connected client, its loop and an idle connection.\<close>

definition example_rpc_net :: "int stream \<Rightarrow> json rpc_net" where
  "example_rpc_net room = server_net.extend (acceptor_net.extend (net.extend (example_net kConnected [] room)
       (acceptor_net.fields None [] [] (sconst (7, InetAddress_any 90))))
     (server_net.fields (Some (example_server 4)) (sconst (1, 8))))
     (rpc_net.fields 4 Map.empty (Codec_new example_json) Map.empty Map.empty)"

lemma example_rpc_net_simps [simp]:
  "w_thread (example_rpc_net room) = 1" "w_heap (example_rpc_net room) = [3 \<mapsto> example_channel []]"
  "n_conns (example_rpc_net room) = [0 \<mapsto> example_conn kConnected []]"
  "w_loops (example_rpc_net room) = w_loops (example_net kConnected [] room)"
  "k_room (example_rpc_net room) = room" "k_wire (example_rpc_net room) = (\<lambda>_. [])"
  "rs_readBuffers (example_rpc_net room) = Map.empty" "rs_read_bytes (example_rpc_net room) = Map.empty"
  "rs_functions (example_rpc_net room) = Map.empty"
  by (simp_all add: example_rpc_net_def net.defs acceptor_net.defs server_net.defs rpc_net.defs)

lemma example_rpc_established:
  "established 0 (example_rpc_net room) (example_conn_poller []) (example_conn kConnected []) (example_channel [])"
  using example_established [of kConnected "[]" room]
  by (simp add: established_def attached_def serves_def own_channel_def del: registered.simps updatable.simps)

lemma example_rpc_codec: "rs_codec (example_rpc_net room) = Codec_new example_json"
  by (simp add: example_rpc_net_def rpc_net.defs server_net.defs acceptor_net.defs net.defs)

theorem first_request_any_segmentation_witness:
  "block (map (RPC_Server_onMessage True example_json (\<lambda>_ _ _. skip) (\<lambda>_. skip) 0) ([0, 0, 0, 3, 7] # [[8], [9]]))
     (example_rpc_net (sconst 9)) =
   RPC_Server_handle_request example_json (\<lambda>_ _ _. skip) (\<lambda>_. skip) 0
     (received_request 0 (example_conn kConnected []) [7, 8, 9] (example_rpc_net (sconst 9))) \<and>
   block (map (RPC_Server_onMessage True example_json (\<lambda>_ _ _. skip) (\<lambda>_. skip) 0) ([0] # [[0, 0, 3, 7], [8, 9]]))
     (example_rpc_net (sconst 9)) = Fault UncaughtException"
proof -
  have parts: "n_conns (example_rpc_net (sconst 9)) 0 = Some (example_conn kConnected [])"
    "rs_readBuffers (example_rpc_net (sconst 9)) 0 = None" "rs_read_bytes (example_rpc_net (sconst 9)) 0 = None"
    "js_parse example_json [] = None" by (simp_all add: example_json_def)
  have message: "Codec_cal_headers [7, 8, 9] = [0, 0, 0, 3]" "header_readable True (length [7, 8, 9 :: byte])"
    by (simp_all add: Codec_cal_headers_def short_readable)
  note split = first_request_any_segmentation [OF parts(1-3) _ _ message(2) parts(4), of _ _ "\<lambda>_ _ _. skip" "\<lambda>_. skip"]
  show ?thesis by (intro conjI; subst split; simp add: message(1))
qed

text \<open>
  C37. A connection is answered at most once: after a message the server has buffered at
  least as many bytes as the header announced (because the first request is complete, or
  because the client sent more with it), it handles nothing more on this connection.
\<close>

theorem later_requests_are_never_handled:
  assumes "receiving c buf n w" "unat n \<le> length buf" "[] \<notin> set segs"
  shows "\<exists>w'. block (map (RPC_Server_onMessage cs api handler exec c) segs) w = Ok w' \<and>
    w' = w\<lparr>rs_readBuffers := (rs_readBuffers w)(c \<mapsto> buf @ concat segs)\<rparr>"
  using feed_full [OF assms, of cs api handler exec] by (simp add: store_buffer_def)

theorem later_requests_are_never_handled_witness:
  "\<exists>w'. block (map (RPC_Server_onMessage True example_json (\<lambda>_ _ _. skip) (\<lambda>_. skip) 0) [[0, 0, 0, 1, 7], [8]])
     ((example_rpc_net (sconst 9))\<lparr>rs_readBuffers := [0 \<mapsto> [5, 5]], rs_read_bytes := [0 \<mapsto> 2]\<rparr>) = Ok w' \<and>
    rs_readBuffers w' 0 = Some [5, 5, 0, 0, 0, 1, 7, 8] \<and> k_wire w' = (\<lambda>_. [])"
proof -
  have "receiving 0 [5, 5] 2 ((example_rpc_net (sconst 9))\<lparr>rs_readBuffers := [0 \<mapsto> [5, 5]], rs_read_bytes := [0 \<mapsto> 2]\<rparr>)"
    by (simp add: receiving_def)
  from later_requests_are_never_handled [OF this, of "[[0, 0, 0, 1, 7], [8]]" True example_json "\<lambda>_ _ _. skip" "\<lambda>_. skip"]
  show ?thesis by auto
qed

text \<open>
  A well-framed call that a client packed: its name is read as the empty one, and the function
  registered under that name, if any, is called with the request.
\<close>

lemma feed_call:
  assumes es: "established c w p k ch"
    and fresh: "rs_readBuffers w c = None" "rs_read_bytes w c = None"
    and laws: "json_laws api"
    and call: "call = fst (Codec_pack_args api f args cd)"
    and segs: "first @ concat rest = Codec_cal_headers call @ call" "4 \<le> length first" "[] \<notin> set rest"
    and header: "header_readable cs (length call)"
  obtains w1 k1 where "block (map (RPC_Server_onMessage cs api handler exec c) (first # rest)) w =
      (case rs_functions w [] of
         None \<Rightarrow> RPC_Server_send_result api exec c (js_string api unregistered) False w1
       | Some n \<Rightarrow> handler n call c w1)"
    "established c w1 p k1 ch" "tc_state k1 = tc_state k" "tc_outputBuffer k1 = tc_outputBuffer k"
    "k_room w1 = k_room w" "rs_codec w1 = rs_codec w" "out_stream c w1 = out_stream c w"
proof -
  let ?k = "k\<lparr>tc_refs := Suc (Suc (tc_refs k))\<rparr>"
  let ?w1 = "store_buffer c call (start_request cs c k first w)"
  have at: "attached c w p k ch" using es by (simp add: established_def)
  note d = attachedD [OF at]
  note message = framed_message [OF header segs(1,2)]
  have run: "block (map (RPC_Server_onMessage cs api handler exec c) (first # rest)) w =
      RPC_Server_handle_request api handler exec c ?w1"
    by (rule feed_request [OF d(1) fresh segs(2,3) message(2,1)])
  have "Codec_unpack_func_name api call = Ok []"
    unfolding call
    by (rule pack_args_object [OF laws, of f args cd])
      (simp add: Codec_unpack_func_name_def json_lawsD [OF laws])
  then have handle: "RPC_Server_handle_request api handler exec c ?w1 =
      (case rs_functions w [] of
         None \<Rightarrow> RPC_Server_send_result api exec c (js_string api unregistered) False ?w1
       | Some n \<Rightarrow> handler n call c ?w1)"
    by (simp add: RPC_Server_handle_request_def entry_readBuffer_def start_request_def split: sum.splits option.splits)
  have "attached c (w\<lparr>n_conns := (n_conns w)(c \<mapsto> ?k)\<rparr>) p ?k ch"
    using attached_upd_conn(2) [OF at, of "tc_refs_update (\<lambda>_. Suc (Suc (tc_refs k)))"] by simp
  then have "attached c ?w1 p ?k ch"
    by (rule attached_kernel) (simp_all add: start_request_def)
  then have "established c ?w1 p ?k ch" using es by (simp add: established_def)
  moreover have "out_stream c ?w1 = out_stream c w"
    using d(1) by (simp add: out_stream_def start_request_def)
  ultimately show thesis
    by (intro that [of ?w1 ?k, OF trans [OF run handle]]) (simp_all add: start_request_def store_buffer_def)
qed

text \<open>
  Client and server do not agree on the name of the function: whatever function a client
  calls with \<open>pack_args\<close>, the server answers the well-framed call with the text
  ''Function name unregistered'', unless a function is registered under the empty name.
\<close>

theorem every_call_is_unregistered:
  assumes es: "established c w p k ch" and k: "tc_state k = kConnected" "tc_outputBuffer k = []"
    and room: "4 \<le> shd (k_room w)"
    and fresh: "rs_readBuffers w c = None" "rs_read_bytes w c = None" "rs_functions w [] = None"
    and laws: "json_laws api"
    and call: "call = fst (Codec_pack_args api f args cd)"
    and segs: "first @ concat rest = Codec_cal_headers call @ call" "4 \<le> length first" "[] \<notin> set rest"
    and header: "header_readable cs (length call)"
  shows "\<exists>w' reply. block (map (RPC_Server_onMessage cs api handler exec c) (first # rest)) w = Ok w' \<and>
    reply = Codec_pack_result api (js_string api unregistered) False \<and>
    out_stream c w' = out_stream c w @ Codec_cal_headers reply @ reply"
proof (rule feed_call [OF es fresh(1,2) laws call segs header, of handler exec], goal_cases)
  case (1 w1 k1)
  show ?case
    by (rule send_result_ok [OF 1(2), of api exec "js_string api unregistered" False])
      (use 1 fresh(3) k room in simp_all)
qed

text \<open>A call without name and arguments, and its reply.\<close>

definition example_call :: "byte list" where
  "example_call = fst (Codec_pack_args example_json [] [] (Codec_new example_json))"

definition example_reply :: "byte list" where
  "example_reply = Codec_pack_result example_json (js_string example_json unregistered) False"

lemma length_example_call: "length example_call = 32"
  by (simp add: example_call_def Codec_pack_args_def Let_def example_json_def length_put_bytes key_bytes_def)

lemma length_example_reply: "length example_reply = 88"
  by (simp add: example_reply_def Codec_pack_result_def Let_def example_json_def length_put_bytes key_bytes_def
      unregistered_def lit_def)

theorem every_call_is_unregistered_witness:
  "\<exists>w'. block (map (RPC_Server_onMessage True example_json (\<lambda>_ _ _. skip) (\<lambda>_. skip) 0) [Codec_cal_headers example_call @ example_call])
      (example_rpc_net (sconst 9)) = Ok w' \<and>
    out_stream 0 w' = Codec_cal_headers example_reply @ example_reply"
proof -
  let ?first = "Codec_cal_headers example_call @ example_call"
  have "\<exists>w' reply. block (map (RPC_Server_onMessage True example_json (\<lambda>_ _ _. skip) (\<lambda>_. skip) 0) (?first # []))
      (example_rpc_net (sconst 9)) = Ok w' \<and>
    reply = Codec_pack_result example_json (js_string example_json unregistered) False \<and>
    out_stream 0 w' = out_stream 0 (example_rpc_net (sconst 9)) @ Codec_cal_headers reply @ reply"
    by (rule every_call_is_unregistered [OF example_rpc_established _ _ _ _ _ _ example_json_laws example_call_def])
      (simp_all add: length_example_call short_readable)
  then show ?thesis by (simp only: list.map example_reply_def) (auto simp: out_stream_def)
qed

end
