(* ===== verification/RPC_Dispatch.thy ===== *)
theory RPC_Dispatch
  imports RPC_Server
begin

text \<open>
  How a registered function is called: the traits of \<open>traits.h\<close> that take its signature
  apart, \<open>Codec::unpack\<close> that fills the tuple of its arguments, and \<open>call_proxy\<close>, \<open>call\<close>
  and \<open>register_handler\<close> of \<open>RPC_Server.h\<close>. As written these templates cannot be instantiated:
  \<open>std::get\<close> takes a run-time index, and \<open>unpack\<close> is given the tuple type as its only argument
  type. The model reads the first as the access to the component with this index and the
  second as the list of the tuple's types, which is what the text says; the statements of this
  theory are about that reading.
\<close>

section \<open>Function signatures (\<open>traits.h\<close>)\<close>

datatype cpp_type =
    Basic string
  | Const cpp_type
  | Volatile cpp_type
  | LRef cpp_type
  | RRef cpp_type
  | Pointer cpp_type
  | Function cpp_type "cpp_type list"
  | MemberPointer string cpp_type

fun remove_reference :: "cpp_type \<Rightarrow> cpp_type" where
  "remove_reference (LRef t) = t"
| "remove_reference (RRef t) = t"
| "remove_reference t = t"

fun remove_cv :: "cpp_type \<Rightarrow> cpp_type" where
  "remove_cv (Const t) = remove_cv t"
| "remove_cv (Volatile t) = remove_cv t"
| "remove_cv t = t"

text \<open>The members of \<open>function_traits_impl\<close>; a type without a specialisation is incomplete.\<close>

record signature =
  return_type :: cpp_type
  arg_types :: "cpp_type list"

fun function_traits_impl :: "cpp_type \<Rightarrow> signature option" where
  "function_traits_impl (Function ret as) = Some \<lparr>return_type = ret, arg_types = as\<rparr>"
| "function_traits_impl (Pointer (Function ret as)) = function_traits_impl (Function ret as)"
| "function_traits_impl (MemberPointer cls (Function ret as)) = function_traits_impl (Function ret as)"
| "function_traits_impl _ = None"

definition tuple_type :: "signature \<Rightarrow> cpp_type list" where
  "tuple_type sig = map (\<lambda>t. remove_cv (remove_reference t)) (arg_types sig)"

definition function_traits :: "cpp_type \<Rightarrow> signature option" where
  "function_traits t = function_traits_impl (remove_cv (remove_reference t))"

definition function_traits_args :: "cpp_type \<Rightarrow> cpp_type option" where
  "function_traits_args t =
     (case function_traits t of
        None \<Rightarrow> None
      | Some sig \<Rightarrow> (case tuple_type sig of [] \<Rightarrow> None | a # _ \<Rightarrow> Some a))"

definition type_xx :: "cpp_type \<Rightarrow> cpp_type" where
  "type_xx t = (if t = Basic ''void'' then Basic ''int8_t'' else t)"

text \<open>Types of values: not references and without outer qualifiers, so a tuple can hold them.\<close>

fun value_type :: "cpp_type \<Rightarrow> bool" where
  "value_type (Const _) = False"
| "value_type (Volatile _) = False"
| "value_type (LRef _) = False"
| "value_type (RRef _) = False"
| "value_type _ = True"

fun object_type :: "cpp_type \<Rightarrow> bool" where
  "object_type (Const t) = object_type t"
| "object_type (Volatile t) = object_type t"
| "object_type (LRef _) = False"
| "object_type (RRef _) = False"
| "object_type _ = True"

text \<open>A parameter is an object or a reference to one.\<close>

definition parameter_type :: "cpp_type \<Rightarrow> bool" where
  "parameter_type t = object_type (remove_reference t)"

lemma value_type_remove_cv: "object_type t \<Longrightarrow> value_type (remove_cv t)"
  by (induction t rule: remove_cv.induct) simp_all

lemma tuple_type_values:
  assumes "list_all parameter_type (arg_types sig)"
  shows "list_all value_type (tuple_type sig)"
  using assms by (auto simp: list_all_iff tuple_type_def parameter_type_def intro: value_type_remove_cv)

section \<open>Unpacking the arguments\<close>

text \<open>
  What C++ does with the types of the arguments: the conversion of a JSON value to a type
  (\<open>None\<close>: it throws) and the value of a default-constructed component of a tuple.
\<close>

record ('j, 'v) cpp_values =
  cv_get :: "cpp_type \<Rightarrow> 'j \<Rightarrow> 'v option"
  cv_init :: "cpp_type \<Rightarrow> 'v"

definition arg_tuple :: "('j, 'v) cpp_values \<Rightarrow> cpp_type list \<Rightarrow> 'v list" where
  "arg_tuple cv ts = map (cv_init cv) ts"

text \<open>
  The loop over the entries: \<open>i\<close> is \<open>index\<close>, \<open>tup\<close> the tuple. An exception is caught and ends
  the function with \<open>-1\<close>; a component that the tuple does not have is undefined.
\<close>

fun unpack_items :: "('j, 'v) cpp_values \<Rightarrow> cpp_type list \<Rightarrow> (string \<times> 'j) list \<Rightarrow> nat \<Rightarrow> 'v list \<Rightarrow>
    (int \<times> 'v list) res" where
  "unpack_items cv ts [] i tup = Ok (0, tup)"
| "unpack_items cv ts ((key, v) # kvs) i tup =
     (if key \<noteq> ''function_name'' then
        if i < length ts then
          (case cv_get cv (ts ! i) v of
             None \<Rightarrow> Ok (-1, tup)
           | Some x \<Rightarrow> unpack_items cv ts kvs (Suc i) (tup[i := x]))
        else Fault UndefinedBehaviour
      else unpack_items cv ts kvs i tup)"

text \<open>The text is parsed into \<open>j_\<close>; the loop goes over the member \<open>j\<close>.\<close>

definition Codec_unpack :: "'j json_api \<Rightarrow> ('j, 'v) cpp_values \<Rightarrow> cpp_type list \<Rightarrow> byte list \<Rightarrow> 'j codec \<Rightarrow>
    (int \<times> 'v list) res" where
  "Codec_unpack api cv ts s cd =
     (case js_parse api s of
        None \<Rightarrow> Fault UncaughtException
      | Some _ \<Rightarrow> unpack_items cv ts (js_items api (cd_j cd)) 0 (arg_tuple cv ts))"

section \<open>The call of a registered function\<close>

text \<open>
  A function object: its type and what it does with the values of its arguments, with its
  result as the JSON value that it is stored as.
\<close>

record ('j, 'v, 'w) rpc_function =
  fn_type :: cpp_type
  fn_body :: "'v list \<Rightarrow> 'w \<Rightarrow> ('j \<times> 'w) res"

definition RPC_Server_call :: "('j, 'v, 'w) rpc_function \<Rightarrow> 'v list \<Rightarrow> 'w \<Rightarrow> ('j \<times> 'w) res" where
  "RPC_Server_call f t = fn_body f (map (\<lambda>i. t ! i) [0..<length t])"

definition mismatch :: "byte list" where
  "mismatch = lit ''Parameter mismatch''"

text \<open>
  \<open>call_proxy<F>\<close>, for a function type with traits (for others the template has no instance);
  \<open>std::apply\<close> passes the components of the tuple in order.
\<close>

definition RPC_Server_call_proxy :: "'j json_api \<Rightarrow> ('j, 'v) cpp_values \<Rightarrow> ('j, 'z) rpc_exec \<Rightarrow>
    ('j, 'v, ('j, 'z) rpc_net_scheme) rpc_function \<Rightarrow> byte list \<Rightarrow> conn_id \<Rightarrow> ('j, 'z) rpc_stmt" where
  "RPC_Server_call_proxy api cv exec func args c w =
     (case function_traits (fn_type func) of
        None \<Rightarrow> Fault UndefinedBehaviour
      | Some sig \<Rightarrow>
          (case Codec_unpack api cv (tuple_type sig) args (rs_codec w) of
             Inl e \<Rightarrow> Fault e
           | Inr (res, tup) \<Rightarrow>
               if res = 0 then
                 (case fn_body func tup w of
                    Inl e \<Rightarrow> Fault e
                  | Inr (func_res, w1) \<Rightarrow> RPC_Server_send_result api exec c func_res True w1)
               else RPC_Server_send_result api exec c (js_string api mismatch) False w))"

text \<open>The function objects in \<open>registered_functions\<close>: \<open>call_proxy\<close> with the function bound.\<close>

definition bound_call_proxy :: "'j json_api \<Rightarrow> ('j, 'v) cpp_values \<Rightarrow> ('j, 'z) rpc_exec \<Rightarrow>
    (nat \<Rightarrow> ('j, 'v, ('j, 'z) rpc_net_scheme) rpc_function) \<Rightarrow> ('j, 'z) rpc_handler" where
  "bound_call_proxy api cv exec fns f args c = RPC_Server_call_proxy api cv exec (fns f) args c"

lemma call_is_apply: "RPC_Server_call f t = fn_body f t"
  by (simp add: RPC_Server_call_def map_nth)

section \<open>What unpacking gives\<close>

text \<open>The entries of a packed call, for up to ten arguments: the arguments in order, then the name.\<close>

definition call_items :: "'j list \<Rightarrow> (string \<times> 'j) list" where
  "call_items as = map (\<lambda>n. (arg_key n, as ! n)) [0..<length as]"

lemma key_less_append: "key_less (xs @ ys) (xs @ zs) = key_less ys zs"
  by (induction xs) simp_all

lemma arg_key_less:
  assumes "i < 10" "j < 10"
  shows "key_less (arg_key i) (arg_key j) \<longleftrightarrow> i < j"
  using assms by (simp add: arg_key_def key_less_append show_nat.simps of_char_digit)

lemma arg_key_less_name: "key_less (arg_key i) ''function_name''"
  by (simp add: arg_key_def)

lemma insert_item_skip:
  assumes "\<And>k' v'. (k', v') \<in> set kvs \<Longrightarrow> k' \<noteq> k \<and> \<not> key_less k k'"
  shows "insert_item k v (kvs @ rest) = kvs @ insert_item k v rest"
  using assms by (induction kvs rule: list.induct) (fastforce+)

lemma fold_pack_container:
  assumes "json_laws api" "js_container api (cd_j cd)"
  shows "js_container api (cd_j (fold (Codec_pack_single_arg api) as cd))"
    "cd_cur_index (fold (Codec_pack_single_arg api) as cd) = cd_cur_index cd + length as"
  using pack_fold [OF assms, of as] by simp_all

lemma fold_pack_items:
  assumes "json_laws api" "js_container api (cd_j cd)" "cd_cur_index cd = 0"
    and "js_items api (cd_j cd) = [(''function_name'', f)]" "length as \<le> 10"
  shows "js_items api (cd_j (fold (Codec_pack_single_arg api) as cd)) = call_items as @ [(''function_name'', f)]"
  using assms(5)
proof (induction as rule: rev_induct)
  case Nil
  then show ?case using assms(4) by (simp add: call_items_def)
next
  case (snoc a as)
  let ?cd = "fold (Codec_pack_single_arg api) as cd"
  note c = fold_pack_container [OF assms(1,2), of as]
  have "js_items api (cd_j (Codec_pack_single_arg api a ?cd)) =
      insert_item (arg_key (length as)) a (call_items as @ [(''function_name'', f)])"
    using snoc.IH snoc.prems c assms(3)
    by (subst Codec_pack_single_arg_def) (simp add: json_lawsD(11) [OF assms(1)])
  also have "\<dots> = call_items as @ insert_item (arg_key (length as)) a [(''function_name'', f)]"
    by (rule insert_item_skip) (use snoc.prems in \<open>auto simp: call_items_def arg_key_less\<close>)
  also have "\<dots> = call_items (as @ [a]) @ [(''function_name'', f)]"
    by (simp add: call_items_def arg_key_less_name nth_append)
  finally show ?case by simp
qed

lemma pack_args_items:
  assumes "json_laws api" "length as \<le> 10"
  shows "js_items api (cd_j (snd (Codec_pack_args api f as cd))) =
    call_items as @ [(''function_name'', js_string api f)]"
  by (simp add: Codec_pack_args_def Let_def, rule fold_pack_items)
    (use assms in \<open>simp_all add: json_lawsD\<close>)

text \<open>Entries whose values convert fill the tuple from the current index on.\<close>

lemma unpack_args:
  assumes "\<And>k v. (k, v) \<in> set kvs \<Longrightarrow> k \<noteq> ''function_name''"
    and "length xs = length kvs" "i + length kvs \<le> length ts" "length tup = length ts"
    and "\<And>n. n < length kvs \<Longrightarrow> cv_get cv (ts ! (i + n)) (snd (kvs ! n)) = Some (xs ! n)"
  shows "unpack_items cv ts (kvs @ rest) i tup =
    unpack_items cv ts rest (i + length kvs) (take i tup @ xs @ drop (i + length kvs) tup)"
  using assms
proof (induction kvs arbitrary: i tup xs)
  case Nil
  then show ?case by simp
next
  case (Cons kv kvs)
  obtain k v where kv: "kv = (k, v)" by force
  obtain x xs' where xs: "xs = x # xs'" using Cons.prems(2) by (cases xs) auto
  have k: "k \<noteq> ''function_name''" using Cons.prems(1) kv by auto
  have x: "cv_get cv (ts ! i) v = Some x" using Cons.prems(5) [of 0] kv xs by simp
  have "unpack_items cv ts (kv # kvs @ rest) i tup = unpack_items cv ts (kvs @ rest) (Suc i) (tup[i := x])"
    using k x kv Cons.prems(3) by simp
  also have "\<dots> = unpack_items cv ts rest (Suc i + length kvs)
      (take (Suc i) (tup[i := x]) @ xs' @ drop (Suc i + length kvs) (tup[i := x]))"
  proof (rule Cons.IH)
    show "cv_get cv (ts ! (Suc i + n)) (snd (kvs ! n)) = Some (xs' ! n)" if "n < length kvs" for n
      using Cons.prems(5) [of "Suc n"] that xs by simp
  qed (use Cons.prems kv xs in auto)
  also have "take (Suc i) (tup[i := x]) = take i tup @ [x]"
    using Cons.prems(3,4) by (simp add: take_Suc_conv_app_nth)
  finally show ?case using xs Cons.prems(3,4) by simp
qed

lemma unpack_call_items:
  assumes "length ts = length as" "length xs = length as"
    and "\<And>n. n < length as \<Longrightarrow> cv_get cv (ts ! n) (as ! n) = Some (xs ! n)"
  shows "unpack_items cv ts (call_items as @ [(''function_name'', f)]) 0 (arg_tuple cv ts) = Ok (0, xs)"
proof -
  have "unpack_items cv ts (call_items as @ [(''function_name'', f)]) 0 (arg_tuple cv ts) =
      unpack_items cv ts [(''function_name'', f)] (0 + length (call_items as))
        (take 0 (arg_tuple cv ts) @ xs @ drop (0 + length (call_items as)) (arg_tuple cv ts))"
    by (rule unpack_args) (use assms in \<open>auto simp: call_items_def arg_tuple_def\<close>)
  then show ?thesis using assms by (simp add: arg_tuple_def call_items_def)
qed

text \<open>The eleventh argument has the key \<open>arg10\<close>, which stands between \<open>arg1\<close> and \<open>arg2\<close>.\<close>

lemma insert_item_before:
  assumes "\<And>k' v'. (k', v') \<in> set kvs \<Longrightarrow> k' \<noteq> k \<and> \<not> key_less k k'" "k \<noteq> k'" "key_less k k'"
  shows "insert_item k v (kvs @ (k', v') # rest) = kvs @ (k, v) # (k', v') # rest"
proof -
  have "insert_item k v (kvs @ (k', v') # rest) = kvs @ insert_item k v ((k', v') # rest)"
    by (rule insert_item_skip) (rule assms(1))
  then show ?thesis using assms(2,3) by simp
qed

lemma digit_inj: "i < 10 \<Longrightarrow> j < 10 \<Longrightarrow> digit i = digit j \<longleftrightarrow> i = j"
  by (metis of_char_digit add_left_cancel)

lemma arg10_less:
  assumes "j < 10"
  shows "key_less (arg_key 10) (arg_key j) \<longleftrightarrow> 2 \<le> j"
proof -
  have "arg_key 10 = ''arg'' @ [digit 1, digit 0]" "arg_key j = ''arg'' @ [digit j]"
    using assms by (simp_all add: arg_key_def show_nat.simps)
  then have "key_less (arg_key 10) (arg_key j) \<longleftrightarrow> (of_char (digit 1) :: nat) < of_char (digit j)"
    using key_less_append [of "''arg''" "[digit 1, digit 0]" "[digit j]"] by simp
  then show ?thesis using assms by (simp add: of_char_digit less_eq_Suc_le)
qed

definition misordered :: "'a list \<Rightarrow> 'a list" where
  "misordered as = take 2 as @ as ! 10 # drop 2 (take 10 as)"

lemma pack_eleven_items:
  assumes "json_laws api" "length as = 11"
  shows "\<exists>kvs. js_items api (cd_j (snd (Codec_pack_args api f as cd))) = kvs @ [(''function_name'', js_string api f)] \<and>
    map snd kvs = misordered as \<and> (\<forall>(k, v) \<in> set kvs. k \<noteq> ''function_name'')"
proof -
  let ?b = "take 10 as" and ?n = "(''function_name'', js_string api f)"
  let ?start = "cd\<lparr>cd_cur_index := 0, cd_j := js_put api (js_null api) ''function_name'' (js_string api f)\<rparr>"
  let ?cd = "fold (Codec_pack_single_arg api) ?b ?start"
  have as: "as = ?b @ [as ! 10]" using assms(2) take_Suc_conv_app_nth [of 10 as] by simp
  have c0: "js_container api (cd_j ?start)" "js_items api (cd_j ?start) = [?n]" "cd_cur_index ?start = 0"
    using assms(1) by (simp_all add: json_lawsD)
  note c = fold_pack_container [OF assms(1) c0(1), of ?b]
  have items: "js_items api (cd_j ?cd) = call_items ?b @ [?n]"
    by (rule fold_pack_items [OF assms(1) c0(1,3,2)]) simp
  have split: "call_items ?b = take 2 (call_items ?b) @ (arg_key 2, as ! 2) # drop 3 (call_items ?b)"
    using assms(2) by (subst id_take_nth_drop [of 2]) (simp_all add: call_items_def numeral_eq_Suc)
  have small: "\<exists>j < 2. k = arg_key j" if "(k, v) \<in> set (take 2 (call_items ?b))" for k v
    using that assms(2) by (auto simp: call_items_def take_map)
  have "js_items api (cd_j (Codec_pack_single_arg api (as ! 10) ?cd)) = insert_item (arg_key 10) (as ! 10) (call_items ?b @ [?n])"
    using items c assms(2) c0(3) by (subst Codec_pack_single_arg_def) (simp add: json_lawsD(11) [OF assms(1)])
  also have "\<dots> = take 2 (call_items ?b) @ (arg_key 10, as ! 10) # (arg_key 2, as ! 2) # drop 3 (call_items ?b) @ [?n]"
    unfolding arg_cong [OF split, of "\<lambda>x. insert_item _ _ (x @ _)"] append_assoc append_Cons
    by (rule insert_item_before) (use small arg10_less in \<open>fastforce simp: arg10_less\<close>)+
  also have "\<dots> = (take 2 (call_items ?b) @ (arg_key 10, as ! 10) # drop 2 (call_items ?b)) @ [?n]"
    using assms(2) by (simp add: call_items_def Cons_nth_drop_Suc [symmetric] numeral_eq_Suc)
  finally have "js_items api (cd_j (snd (Codec_pack_args api f as cd))) =
      (take 2 (call_items ?b) @ (arg_key 10, as ! 10) # drop 2 (call_items ?b)) @ [?n]"
    by (subst as) (simp add: Codec_pack_args_def Let_def)
  moreover have "map snd (call_items ?b) = ?b"
    using assms(2) map_nth [of ?b] by (simp add: call_items_def comp_def)
  then have "map snd (take 2 (call_items ?b) @ (arg_key 10, as ! 10) # drop 2 (call_items ?b)) = misordered as"
    by (simp add: misordered_def take_map [symmetric] drop_map [symmetric] take_take)
  moreover have "\<forall>(k, v) \<in> set (take 2 (call_items ?b) @ (arg_key 10, as ! 10) # drop 2 (call_items ?b)). k \<noteq> ''function_name''"
    by (auto simp: call_items_def dest!: in_set_takeD in_set_dropD)
  ultimately show ?thesis by blast
qed

section \<open>Properties\<close>

text \<open>
  Under the reading of \<open>unpack\<close> that the first section states, arguments come back: after
  \<open>pack_args\<close> with at most ten arguments, \<open>unpack\<close> of the same
  codec gives status 0 and each argument, converted to the type of its component, in order.
  The text that \<open>unpack\<close> is given only has to parse: its contents are ignored, because the loop
  goes over what the codec packed last.
\<close>

theorem unpack_gives_last_packed_arguments:
  assumes "json_laws api" "length as \<le> 10" "length ts = length as" "length xs = length as"
    and "\<And>n. n < length as \<Longrightarrow> cv_get cv (ts ! n) (as ! n) = Some (xs ! n)"
    and "js_parse api s \<noteq> None"
  shows "Codec_unpack api cv ts s (snd (Codec_pack_args api f as cd)) = Ok (0, xs)"
  using assms unpack_call_items [of ts as xs cv "js_string api f"]
  by (auto simp: Codec_unpack_def pack_args_items)

text \<open>
  With eleven arguments, here of one type, the order is lost: the entries are visited in the
  order of their keys, and the last argument is stored as the third.
\<close>

lemma unpack_misorders_eleven_arguments:
  assumes "json_laws api" "length as = 11" "length xs = 11"
    and get: "\<And>n. n < 11 \<Longrightarrow> cv_get cv t (as ! n) = Some (xs ! n)" and "js_parse api s \<noteq> None"
  shows "Codec_unpack api cv (replicate 11 t) s (snd (Codec_pack_args api f as cd)) = Ok (0, misordered xs)"
proof -
  obtain kvs where kvs: "js_items api (cd_j (snd (Codec_pack_args api f as cd))) = kvs @ [(''function_name'', js_string api f)]"
    "map snd kvs = misordered as" "\<forall>(k, v) \<in> set kvs. k \<noteq> ''function_name''"
    using pack_eleven_items [OF assms(1,2)] by blast
  have len: "length kvs = 11" using arg_cong [OF kvs(2), of length] assms(2) by (simp add: misordered_def)
  have nth: "misordered ys ! n = ys ! (if n < 2 then n else if n = 2 then 10 else n - 1)"
    if "n < 11" "length ys = 11" for ys :: "'d list" and n
  proof -
    have "Suc (Suc (n - 3)) = n - 1" if "2 \<le> n" "n \<noteq> 2" using that by simp
    then show ?thesis using that by (auto simp: misordered_def nth_append nth_Cons' not_less)
  qed
  have "unpack_items cv (replicate 11 t) (kvs @ [(''function_name'', js_string api f)]) 0 (arg_tuple cv (replicate 11 t)) =
      unpack_items cv (replicate 11 t) [(''function_name'', js_string api f)] (0 + length kvs)
        (take 0 (arg_tuple cv (replicate 11 t)) @ misordered xs @ drop (0 + length kvs) (arg_tuple cv (replicate 11 t)))"
  proof (rule unpack_args)
    fix n assume n: "n < length kvs"
    have "snd (kvs ! n) = misordered as ! n" using n kvs(2) by (metis nth_map)
    then show "cv_get cv (replicate 11 t ! (0 + n)) (snd (kvs ! n)) = Some (misordered xs ! n)"
      using n len assms(2,3) by (simp add: nth get)
  qed (use kvs(3) len assms(3) in \<open>auto simp: misordered_def arg_tuple_def\<close>)
  then show ?thesis using kvs(1) len assms(5) by (auto simp: Codec_unpack_def arg_tuple_def)
qed


text \<open>
  What a registered function is called with: if a function is registered under the empty
  name, the only one that a request can reach, the well-framed call of any function with any
  arguments, cut in any way, runs it once on default-constructed arguments and sends back its
  result. The server's codec has packed nothing, so \<open>unpack\<close> finds no argument in any request.
\<close>

theorem call_runs_function_on_default_arguments:
  assumes es: "established c w p k ch" and k: "tc_state k = kConnected" "tc_outputBuffer k = []"
    and room: "4 \<le> shd (k_room w)"
    and fresh: "rs_readBuffers w c = None" "rs_read_bytes w c = None"
    and reg: "rs_functions w [] = Some n" "function_traits (fn_type (fns n)) = Some sig" "rs_codec w = Codec_new api"
    and body: "\<And>w. fn_body (fns n) (arg_tuple cv (tuple_type sig)) w = Ok (r, w)"
    and laws: "json_laws api"
    and call: "call = fst (Codec_pack_args api f args cd)"
    and segs: "first @ concat rest = Codec_cal_headers call @ call" "4 \<le> length first" "[] \<notin> set rest"
    and header: "header_readable cs (length call)"
  shows "\<exists>w' reply. block (map (RPC_Server_onMessage cs api (bound_call_proxy api cv exec fns) exec c) (first # rest)) w = Ok w' \<and>
    reply = Codec_pack_result api r True \<and>
    out_stream c w' = out_stream c w @ Codec_cal_headers reply @ reply"
proof (rule feed_call [OF es fresh laws call segs header, of "bound_call_proxy api cv exec fns" exec], goal_cases)
  case (1 w1 k1)
  have "js_parse api call \<noteq> None"
    unfolding call by (rule pack_args_object [OF laws, of f args cd]) simp
  then have "Codec_unpack api cv (tuple_type sig) call (rs_codec w1) = Ok (0, arg_tuple cv (tuple_type sig))"
    using reg(3) 1(6) json_lawsD(10) [OF laws] by (auto simp: Codec_unpack_def Codec_new_def)
  then have handle: "bound_call_proxy api cv exec fns n call c w1 = RPC_Server_send_result api exec c r True w1"
    using reg(2) by (simp add: bound_call_proxy_def RPC_Server_call_proxy_def body)
  show ?case
    by (rule send_result_ok [OF 1(2), of api exec r True])
      (use 1 reg(1) k room handle in simp_all)
qed

text \<open>A server with a function of two integers, registered under the empty name.\<close>

definition example_function :: "(json, int, json rpc_net) rpc_function" where
  "example_function = \<lparr>fn_type = Function (Basic ''int'') [Const (Basic ''int''), LRef (Const (Basic ''int''))],
     fn_body = (\<lambda>xs w. Ok (JBool (xs = [0, 0]), w))\<rparr>"

definition example_values :: "(json, int) cpp_values" where
  "example_values = \<lparr>cv_get = (\<lambda>t j. case j of JBool b \<Rightarrow> Some (of_bool b) | _ \<Rightarrow> None), cv_init = (\<lambda>t. 0)\<rparr>"

theorem unpack_gives_last_packed_arguments_witness:
  "Codec_unpack example_json example_values [Basic ''int'', Basic ''int''] (dump JNull)
     (snd (Codec_pack_args example_json (lit ''add'') [JBool True, JBool False] (Codec_new example_json))) = Ok (0, [1, 0])"
  by (rule unpack_gives_last_packed_arguments [OF example_json_laws])
    (auto simp: example_values_def example_json_def nth_Cons' less_Suc_eq numeral_eq_Suc)

lemma example_function_server:
  "established 0 ((example_rpc_net room)\<lparr>rs_functions := [[] \<mapsto> 0]\<rparr>)
     (example_conn_poller []) (example_conn kConnected []) (example_channel [])"
  "rs_codec ((example_rpc_net room)\<lparr>rs_functions := [[] \<mapsto> 0]\<rparr>) = Codec_new example_json"
  "function_traits (fn_type example_function) =
     Some \<lparr>return_type = Basic ''int'', arg_types = [Const (Basic ''int''), LRef (Const (Basic ''int''))]\<rparr>"
  "fn_body example_function (arg_tuple example_values
     (tuple_type \<lparr>return_type = Basic ''int'', arg_types = [Const (Basic ''int''), LRef (Const (Basic ''int''))]\<rparr>)) w =
     Ok (JBool True, w)"
  using example_rpc_established [of room]
  by (simp_all add: established_def attached_def serves_def own_channel_def example_rpc_codec example_function_def
      function_traits_def arg_tuple_def tuple_type_def example_values_def del: registered.simps updatable.simps)

theorem call_runs_function_on_default_arguments_witness:
  "\<exists>w' reply. block (map (RPC_Server_onMessage True example_json
       (bound_call_proxy example_json example_values (\<lambda>_. skip) (\<lambda>_. example_function)) (\<lambda>_. skip) 0)
       [Codec_cal_headers example_call @ example_call])
      ((example_rpc_net (sconst 9))\<lparr>rs_functions := [[] \<mapsto> 0]\<rparr>) = Ok w' \<and>
    reply = Codec_pack_result example_json (JBool True) True \<and>
    out_stream 0 w' = Codec_cal_headers reply @ reply"
proof -
  let ?first = "Codec_cal_headers example_call @ example_call" and ?w = "(example_rpc_net (sconst 9))\<lparr>rs_functions := [[] \<mapsto> 0]\<rparr>"
  have "\<exists>w' reply. block (map (RPC_Server_onMessage True example_json
        (bound_call_proxy example_json example_values (\<lambda>_. skip) (\<lambda>_. example_function)) (\<lambda>_. skip) 0) (?first # [])) ?w = Ok w' \<and>
      reply = Codec_pack_result example_json (JBool True) True \<and>
      out_stream 0 w' = out_stream 0 ?w @ Codec_cal_headers reply @ reply"
    by (rule call_runs_function_on_default_arguments [OF example_function_server(1) _ _ _ _ _ _ example_function_server(3,2,4)
          example_json_laws example_call_def])
      (simp_all add: length_example_call short_readable)
  then show ?thesis by (simp only: list.map) (auto simp: out_stream_def)
qed

end
