(* ===== verification/RPC_Refs.thy ===== *)
theory RPC_Refs
  imports ServerRefs RPC_Dispatch
begin

text \<open>
  The reference counts of an RPC server. Its two maps are keyed by the shared pointers of the
  connections, so every entry is a reference, and no operation removes an entry: a connection
  on which a request has been started is never destroyed.
\<close>

section \<open>What the RPC server owns\<close>

definition rpc_own :: "('j, 'z) rpc_net_scheme \<Rightarrow> conn_id \<Rightarrow> nat" where
  "rpc_own w c = (if rs_readBuffers w c = None then 0 else 1) + (if rs_read_bytes w c = None then 0 else 1)"

text \<open>The connections of \<open>B\<close> have entries in both maps.\<close>

definition has_request :: "conn_id set \<Rightarrow> ('j, 'z) rpc_net_scheme \<Rightarrow> bool" where
  "has_request B w \<longleftrightarrow> B \<subseteq> dom (rs_readBuffers w) \<and> B \<subseteq> dom (rs_read_bytes w)"

lemma more_rpc:
  fixes w :: "('j, 'z) rpc_net_scheme"
  assumes "server_net.more w' = server_net.more w"
  shows "rs_readBuffers w' = rs_readBuffers w" "rs_read_bytes w' = rs_read_bytes w"
  using assms by (cases w; cases w'; simp)+

interpretation rpc: server_ownership rpc_own "has_request B" for B
proof
  fix w w' :: "('j, 'z) rpc_net_scheme"
  assume "server_net.more w' = server_net.more w"
  note same = more_rpc [OF this]
  show "rpc_own w' = rpc_own w" by (simp add: rpc_own_def same fun_eq_iff)
  show "has_request B w \<Longrightarrow> has_request B w'" by (simp add: has_request_def same)
qed

section \<open>The program\<close>

text \<open>
  The callbacks of an RPC server program: messages go to \<open>onMessage\<close>, the registered functions
  are called through \<open>call_proxy\<close>, and both send with the functors of the server.
\<close>

primrec rpc_user :: "bool \<Rightarrow> 'j json_api \<Rightarrow> ('j, 'v) cpp_values \<Rightarrow> (nat \<Rightarrow> ('j, 'v, ('j, 'z) rpc_net_scheme) rpc_function) \<Rightarrow>
    nat \<Rightarrow> conn_callback \<Rightarrow> conn_id \<Rightarrow> byte list \<Rightarrow> ('j, 'z) rpc_stmt" where
  "rpc_user cs api cv fns 0 = (\<lambda>cb c buf w. Fault DepthExceeded)"
| "rpc_user cs api cv fns (Suc n) = (\<lambda>cb c buf.
     (case cb of
        Cb_RPC_Server_onMessage \<Rightarrow>
          (let exec = server_exec (rpc_user cs api cv fns n) n
           in RPC_Server_onMessage cs api (bound_call_proxy api cv exec fns) exec c buf)
      | _ \<Rightarrow> skip))"

section \<open>Its operations keep the counts\<close>

text \<open>A change of the maps, with the references that new entries take over from the statement.\<close>

lemma map_change:
  fixes w w' :: "('j, 'z) rpc_net_scheme"
  assumes "server_counts rpc_own (has_request B) h' w"
    and "w_loops w' = w_loops w" "n_conns w' = n_conns w" "n_alloc w' = n_alloc w" "n_server w' = n_server w"
    and "\<And>b. rpc_own w' b + h b = rpc_own w b + h' b"
    and "dom (rs_readBuffers w) \<subseteq> dom (rs_readBuffers w')" "dom (rs_read_bytes w) \<subseteq> dom (rs_read_bytes w')"
  shows "server_counts rpc_own (has_request B) h w'"
proof -
  note d = countsD [OF assms(1) [unfolded server_counts_def]]
  have own: "server_own w' = server_own w" using assms(5) by (simp add: server_own_def fun_eq_iff)
  have "server_extra w'" using d(4) assms(3,4,5) by (simp add: server_extra_def fresh_alloc_def)
  moreover have "has_request B w'" using d(4) assms(7,8) unfolding has_request_def by blast
  moreover have "refs w' b = (server_own w' b + rpc_own w' b) + queued w' b + h b" for b
    using d(2) [of b] assms(6) [of b] own assms(2,3) by (simp add: refs_def queued_def)
  ultimately show ?thesis
    unfolding server_counts_def using d(1) d(3) assms(2,3) by (intro countsI) (simp_all add: refs_def)
qed

lemma counted_entry:
  "counted (server_counts rpc_own (has_request B)) (entry_readBuffer c :: ('a, 'b) rpc_stmt)"
  "counted (server_counts rpc_own (has_request B)) (entry_read_bytes c :: ('a, 'b) rpc_stmt)"
proof -
  have conn: "rs_readBuffers w1 = rs_readBuffers w \<and> rs_read_bytes w1 = rs_read_bytes w"
    if "conn_ref c w = Ok w1" for w w1 :: "('a, 'b) rpc_net_scheme"
    using that by (auto simp: conn_ref_def conn_access split: option.splits)
  show "counted (server_counts rpc_own (has_request B)) (entry_readBuffer c :: ('a, 'b) rpc_stmt)"
  proof (rule countedI)
    fix h and w w' :: "('a, 'b) rpc_net_scheme"
    assume w: "server_counts rpc_own (has_request B) h w" and run: "entry_readBuffer c w = Ok w'"
    show "server_counts rpc_own (has_request B) h w'"
    proof (cases "rs_readBuffers w c = None")
      case True
      with run obtain w1 where w1: "conn_ref c w = Ok w1" and w': "w' = w1\<lparr>rs_readBuffers := (rs_readBuffers w1)(c \<mapsto> [])\<rparr>"
        by (auto simp: entry_readBuffer_def modify_def split: sum.splits)
      show ?thesis
        by (rule map_change [OF rpc.ref [OF w w1]])
          (use True conn [OF w1] in \<open>auto simp: w' rpc_own_def holding_def\<close>)
    next
      case False
      with w run show ?thesis by (auto simp: entry_readBuffer_def)
    qed
  qed
  show "counted (server_counts rpc_own (has_request B)) (entry_read_bytes c :: ('a, 'b) rpc_stmt)"
  proof (rule countedI)
    fix h and w w' :: "('a, 'b) rpc_net_scheme"
    assume w: "server_counts rpc_own (has_request B) h w" and run: "entry_read_bytes c w = Ok w'"
    show "server_counts rpc_own (has_request B) h w'"
    proof (cases "rs_read_bytes w c = None")
      case True
      with run obtain w1 where w1: "conn_ref c w = Ok w1" and w': "w' = w1\<lparr>rs_read_bytes := (rs_read_bytes w1)(c \<mapsto> 0)\<rparr>"
        by (auto simp: entry_read_bytes_def modify_def split: sum.splits)
      show ?thesis
        by (rule map_change [OF rpc.ref [OF w w1]])
          (use True conn [OF w1] in \<open>auto simp: w' rpc_own_def holding_def\<close>)
    next
      case False
      with w run show ?thesis by (auto simp: entry_read_bytes_def)
    qed
  qed
qed

lemma counted_append:
  "counted (server_counts rpc_own (has_request B)) (append_readBuffer c bs)"
proof (rule countedI)
  fix h and w w' :: "('a, 'b) rpc_net_scheme"
  assume w: "server_counts rpc_own (has_request B) h w" and "append_readBuffer c bs w = Ok w'"
  then obtain w1 where w1: "entry_readBuffer c w = Ok w1"
    and w': "w' = w1\<lparr>rs_readBuffers := (rs_readBuffers w1)(c \<mapsto> the (rs_readBuffers w1 c) @ bs)\<rparr>"
    by (auto simp: append_readBuffer_def modify_def split: sum.splits)
  have "rs_readBuffers w1 c \<noteq> None"
    using w1 by (auto simp: entry_readBuffer_def modify_def split: sum.splits if_splits)
  then show "server_counts rpc_own (has_request B) h w'"
    by (intro map_change [OF rpc.step [OF counted_entry(1) w w1]]) (auto simp: w' rpc_own_def)
qed

lemma counted_send_result:
  assumes exec: "\<And>f. counted (server_counts rpc_own (has_request B)) (exec f)"
  shows "counted (server_counts rpc_own (has_request B)) (RPC_Server_send_result api exec c r success)"
  unfolding RPC_Server_send_result_def Let_def
  by (intro counted_block rpc.counted_send [folded server_counts_def] exec)

text \<open>The functions that are registered keep the counts, as all that uses the server does.\<close>

definition counted_functions :: "conn_id set \<Rightarrow> (nat \<Rightarrow> ('j, 'v, ('j, 'z) rpc_net_scheme) rpc_function) \<Rightarrow> bool" where
  "counted_functions B fns \<longleftrightarrow> (\<forall>f xs h w r w'. server_counts rpc_own (has_request B) h w \<longrightarrow>
     fn_body (fns f) xs w = Ok (r, w') \<longrightarrow> server_counts rpc_own (has_request B) h w')"

lemma counted_call_proxy:
  assumes exec: "\<And>f. counted (server_counts rpc_own (has_request B)) (exec f)" and fns: "counted_functions B fns"
  shows "counted (server_counts rpc_own (has_request B)) (bound_call_proxy api cv exec fns f args c)"
proof (rule countedI)
  fix h w w'
  assume w: "server_counts rpc_own (has_request B) h w" and run: "bound_call_proxy api cv exec fns f args c w = Ok w'"
  note send = rpc.step [OF counted_send_result [of B exec, OF exec]]
  have body: "server_counts rpc_own (has_request B) h w'"
    if "fn_body (fns f) xs w = Ok (r, w1)" "RPC_Server_send_result api exec c r True w1 = Ok w'" for xs r w1
  proof (rule send [OF _ that(2)])
    show "server_counts rpc_own (has_request B) h w1"
      using fns w that(1) unfolding counted_functions_def by blast
  qed
  show "server_counts rpc_own (has_request B) h w'"
    using run w by (auto simp: bound_call_proxy_def RPC_Server_call_proxy_def intro: send body
        split: option.splits sum.splits prod.splits if_splits)
qed

lemma counted_onMessage:
  assumes exec: "\<And>f. counted (server_counts rpc_own (has_request B)) (exec f)"
    and handler: "\<And>f args c. counted (server_counts rpc_own (has_request B)) (handler f args c)"
  shows "counted (server_counts rpc_own (has_request B)) (RPC_Server_onMessage cs api handler exec c buf)"
proof -
  let ?I = "server_counts rpc_own (has_request B)"
  note send = counted_send_result [of B exec, OF exec]
  have request: "counted ?I (RPC_Server_handle_request api handler exec c)"
  proof (rule countedI)
    fix h w w'
    assume w: "?I h w" and "RPC_Server_handle_request api handler exec c w = Ok w'"
    then obtain w1 where w1: "entry_readBuffer c w = Ok w1" and rest:
      "(case Codec_unpack_func_name api (the (rs_readBuffers w1 c)) of
          Inl e \<Rightarrow> Fault e
        | Inr func_name \<Rightarrow>
            (case rs_functions w1 func_name of
               None \<Rightarrow> RPC_Server_send_result api exec c (js_string api unregistered) False w1
             | Some f \<Rightarrow> handler f (the (rs_readBuffers w1 c)) c w1)) = Ok w'"
      by (auto simp: RPC_Server_handle_request_def Let_def split: sum.splits)
    note w1' = rpc.step [OF counted_entry(1) w w1]
    show "?I h w'"
      using rest rpc.step [OF send w1'] rpc.step [OF handler w1'] by (auto split: sum.splits option.splits)
  qed
  have set_length: "counted ?I (block [entry_read_bytes c,
      modify (\<lambda>w. w\<lparr>rs_read_bytes := (rs_read_bytes w)(c \<mapsto> n)\<rparr>), append_readBuffer c bs])" for n bs
  proof (rule countedI)
    fix h w w'
    assume w: "?I h w" and "block [entry_read_bytes c,
      modify (\<lambda>w. w\<lparr>rs_read_bytes := (rs_read_bytes w)(c \<mapsto> n)\<rparr>), append_readBuffer c bs] w = Ok w'"
    then obtain w1 where w1: "entry_read_bytes c w = Ok w1"
      and rest: "append_readBuffer c bs (w1\<lparr>rs_read_bytes := (rs_read_bytes w1)(c \<mapsto> n)\<rparr>) = Ok w'"
      by (auto simp: modify_def split: sum.splits)
    have "rs_read_bytes w1 c \<noteq> None"
      using w1 by (auto simp: entry_read_bytes_def modify_def split: sum.splits if_splits)
    then have "?I h (w1\<lparr>rs_read_bytes := (rs_read_bytes w1)(c \<mapsto> n)\<rparr>)"
      by (intro map_change [OF rpc.step [OF counted_entry(2) w w1]]) (auto simp: rpc_own_def)
    from rpc.step [OF counted_append this rest] show "?I h w'" .
  qed
  have first: "counted ?I (\<lambda>w. case rs_readBuffers w c of
        None \<Rightarrow>
          if length buf < 4 then Ok w
          else block
            [entry_read_bytes c,
             modify (\<lambda>w. w\<lparr>rs_read_bytes := (rs_read_bytes w)(c \<mapsto> header_length cs buf)\<rparr>),
             append_readBuffer c (drop 4 buf)] w
      | Some _ \<Rightarrow> append_readBuffer c buf w)"
  proof (rule countedI)
    fix h w w'
    assume w: "?I h w" and run: "(case rs_readBuffers w c of
        None \<Rightarrow>
          if length buf < 4 then Ok w
          else block
            [entry_read_bytes c,
             modify (\<lambda>w. w\<lparr>rs_read_bytes := (rs_read_bytes w)(c \<mapsto> header_length cs buf)\<rparr>),
             append_readBuffer c (drop 4 buf)] w
      | Some _ \<Rightarrow> append_readBuffer c buf w) = Ok w'"
    show "?I h w'"
    proof (cases "rs_readBuffers w c")
      case None
      with run w rpc.step [OF set_length w] show ?thesis by (cases "length buf < 4") (simp_all del: block.simps)
    next
      case (Some x)
      with run rpc.step [OF counted_append w] show ?thesis by simp
    qed
  qed
  have last: "counted ?I (\<lambda>w. if length (the (rs_readBuffers w c)) = unat (the (rs_read_bytes w c))
           then RPC_Server_handle_request api handler exec c w else Ok w)"
    by (rule countedI) (auto intro: rpc.step [OF request] split: if_splits)
  show ?thesis
    unfolding RPC_Server_onMessage_def by (intro counted_block first last counted_entry)
qed

lemma counted_rpc_user:
  assumes fns: "counted_functions B fns"
  shows "counted (server_counts rpc_own (has_request B)) (rpc_user cs api cv fns n cb c buf)"
proof (induction n arbitrary: cb c buf)
  case 0
  show ?case using counted_control(5) by simp
next
  case (Suc n)
  have exec: "counted (server_counts rpc_own (has_request B)) (server_exec (rpc_user cs api cv fns n) n f)" for f
    using rpc.counted_exec_call [of B "rpc_user cs api cv fns n", OF Suc.IH] by blast
  show ?case
    using counted_onMessage [of B "server_exec (rpc_user cs api cv fns n) n", OF exec
        counted_call_proxy [of B "server_exec (rpc_user cs api cv fns n) n", OF exec fns]]
    by (cases cb) (simp_all add: Let_def counted_control(2))
qed

section \<open>Property\<close>

text \<open>
  C38. A connection on which a request has been started is never released: in every schedule
  of turns of the server's loops, with sends and shutdowns from any thread in between, its
  use count stays two above the number of references from the server's map and the queues,
  so that the object is alive, with its descriptor, also after the connection was removed
  from the server and destroyed there. The entries of \<open>readBuffers_\<close> and \<open>read_bytes\<close> are
  never erased.
\<close>

theorem requested_connection_is_never_released:
  assumes start: "server_counts rpc_own (has_request {c}) (\<lambda>_. 0) w"
    and fns: "counted_functions {c} fns"
    and run: "block (map (run_server_op (rpc_user cs api cv fns m) n) ops) w = Ok w'"
  shows "n_conns w' c \<noteq> None \<and> refs w' c = server_own w' c + queued w' c + 2"
proof -
  have user: "counted (server_counts rpc_own (has_request {c})) (rpc_user cs api cv fns m cb d buf)" for cb d buf
    using fns by (rule counted_rpc_user)
  have "server_counts rpc_own (has_request {c}) (\<lambda>_. 0) w'"
    by (rule rpc.step [OF rpc.counted_schedule [of "{c}" "rpc_user cs api cv fns m", OF user] start run])
  note d = countsD [OF this [unfolded server_counts_def]]
  have "rpc_own w' c = 2" using d(4) by (auto simp: rpc_own_def has_request_def numeral_2_eq_2)
  then have "refs w' c = server_own w' c + queued w' c + 2" using d(2) [of c] by simp
  moreover from this have "n_conns w' c \<noteq> None" by (auto simp: refs_def split: option.splits)
  ultimately show ?thesis by blast
qed

text \<open>A connection that no server has in its map any more, after a request that was answered.\<close>

definition example_answered_net :: "json rpc_net" where
  "example_answered_net = (example_rpc_net (sconst 9))\<lparr>
     n_conns := [0 \<mapsto> (example_conn kConnected [])\<lparr>tc_refs := 2\<rparr>], n_server := None,
     n_alloc := smap (\<lambda>i. (Suc i, 100 + i)) nats, rs_readBuffers := [0 \<mapsto> [5, 5]], rs_read_bytes := [0 \<mapsto> 2]\<rparr>"

lemma example_answered_simps:
  "n_conns example_answered_net = [0 \<mapsto> (example_conn kConnected [])\<lparr>tc_refs := 2\<rparr>]" "n_server example_answered_net = None"
  "n_alloc example_answered_net = smap (\<lambda>i. (Suc i, 100 + i)) nats" "w_thread example_answered_net = 1"
  "rs_readBuffers example_answered_net = [0 \<mapsto> [5, 5]]" "rs_read_bytes example_answered_net = [0 \<mapsto> 2]"
  "w_loops example_answered_net = [4 \<mapsto> the (w_loops (example_net kConnected [] (sconst 1)) 4)]"
  "tc_loop (example_conn kConnected []) = 4" "tc_state (example_conn kConnected []) = kConnected"
  by (simp_all add: example_answered_net_def example_conn_def new_connection_def) (auto simp: example_net_def fun_eq_iff)

lemma example_answered: "server_counts rpc_own (has_request {0}) (\<lambda>_. 0) example_answered_net"
proof -
  let ?w = example_answered_net
  have own: "server_own ?w c = 0" "rpc_own ?w c = (if c = 0 then 2 else 0)" for c
    by (simp_all add: server_own_def rpc_own_def example_answered_simps)
  have queued: "queued ?w c = 0" for c by (simp add: queued_def example_answered_simps example_counted_simps)
  have refs: "refs ?w c = (if c = 0 then 2 else 0)" for c by (simp add: refs_def example_answered_simps)
  have "server_extra ?w" "has_request {0} ?w"
    by (simp_all add: server_extra_def fresh_alloc_def has_request_def example_answered_simps)
  then show ?thesis
    unfolding server_counts_def using own queued refs
    by (intro countsI) (simp_all add: example_answered_simps split: if_splits)
qed

theorem requested_connection_is_never_released_witness:
  "\<exists>w'. block (map (run_server_op (rpc_user True example_json example_values (\<lambda>_. example_function) 3) 3) [(2, Srv_shutdown 0)])
      example_answered_net = Ok w' \<and> refs w' 0 = server_own w' 0 + queued w' 0 + 2"
proof -
  let ?w = example_answered_net
  let ?el = "the (w_loops (example_net kConnected [] (sconst 1)) 4)"
  let ?k = "(example_conn kConnected [])\<lparr>tc_state := kDisconnecting, tc_refs := 3\<rparr>"
  let ?w' = "?w\<lparr>n_conns := [0 \<mapsto> ?k], w_loops := [4 \<mapsto> ?el\<lparr>el_pendingFunctors := [Fn_shutdownInLoop 0],
      el_pipeBytes := Suc (el_pipeBytes ?el)\<rparr>]\<rparr>"
  have run: "block (map (run_server_op (rpc_user True example_json example_values (\<lambda>_. example_function) 3) 3)
      [(2, Srv_shutdown 0)]) ?w = Ok ?w'"
    by (simp add: on_thread_def TcpConnection_shutdown_def TcpConnection_setState_def conn_access run_bound_def
        EventLoop_isInLoopThread_def conn_ref_def EventLoop_runInLoop_def EventLoop_wakeup_def if_then_def loop_access
        example_answered_simps example_counted_simps numeral_3_eq_3)
  have fns: "counted_functions {0} (\<lambda>_. example_function)"
    by (auto simp: counted_functions_def example_function_def)
  from requested_connection_is_never_released [OF example_answered fns run] show ?thesis using run by blast
qed

end
