(* ===== verification/Connector.thy ===== *)
theory Connector
  imports TcpLifecycle
begin

text \<open>
  \<open>Connector.cpp\<close>: establishing an outgoing connection, with retries. The world gets the
  connector object, the results of the successive \<open>socket\<close>/\<open>connect\<close> pairs, the
  addresses that successive \<open>new Channel\<close> give, and a log of the arguments of \<open>sleep\<close>
  (seconds).
\<close>

section \<open>State\<close>

datatype connector_state = Connector_kDisconnected | Connector_kConnecting | Connector_kConnected

record connector =
  cn_loop :: loop_id
  cn_serverAddr :: sockaddr_in
  cn_connect :: bool
  cn_state :: connector_state
  cn_channel :: "chan_id option"
  cn_newConnectionCallback :: bool
  cn_retryDelayMs :: int

text \<open>The outcome of \<open>connect(2)\<close>: success, or the value of \<open>errno\<close>.\<close>

datatype connect_errno =
    E_none | EINPROGRESS | EINTR | EISCONN
  | EAGAIN | EADDRINUSE | EADDRNOTAVAIL | ECONNREFUSED | ENETUNREACH
  | EACCES | EPERM | EAFNOSUPPORT | EALREADY | EBADF | EFAULT | ENOTSOCK
  | E_other int

record connector_net = net +
  n_connector :: "connector option"
  k_connects :: "(int \<times> connect_errno) stream"
  k_channels :: "chan_id stream"
  k_sleeps :: "int list"

type_synonym 'z conn_stmt = "'z connector_net_scheme stmt"
type_synonym 'z conn_exec = "loop_functor \<Rightarrow> 'z conn_stmt"

definition with_connector :: "(connector \<Rightarrow> 'z conn_stmt) \<Rightarrow> 'z conn_stmt" where
  "with_connector s w = (case n_connector w of None \<Rightarrow> Fault UseAfterFree | Some cn \<Rightarrow> s cn w)"

definition upd_connector :: "(connector \<Rightarrow> connector) \<Rightarrow> 'z conn_stmt" where
  "upd_connector g = with_connector (\<lambda>cn w. Ok (w\<lparr>n_connector := Some (g cn)\<rparr>))"

definition kMaxRetryDelayMs :: int where
  "kMaxRetryDelayMs = 30000"

definition kInitRetryDelayMs :: int where
  "kInitRetryDelayMs = 500"

section \<open>Operations\<close>

definition Connector_new :: "loop_id \<Rightarrow> sockaddr_in \<Rightarrow> 'z conn_stmt" where
  "Connector_new loop serverAddr = modify (\<lambda>w. w\<lparr>n_connector := Some
     \<lparr>cn_loop = loop, cn_serverAddr = serverAddr, cn_connect = False, cn_state = Connector_kDisconnected,
      cn_channel = None, cn_newConnectionCallback = False, cn_retryDelayMs = kInitRetryDelayMs\<rparr>\<rparr>)"

definition Connector_setNewConnectionCallback :: "connector \<Rightarrow> connector" where
  [simp]: "Connector_setNewConnectionCallback cn = cn\<lparr>cn_newConnectionCallback := True\<rparr>"

definition Connector_destroy :: "'z conn_stmt" where
  "Connector_destroy = block
     [with_connector (\<lambda>cn. assertion (\<lambda>w. cn_channel cn = None)),
      modify (\<lambda>w. w\<lparr>n_connector := None\<rparr>)]"

definition Connector_setState :: "connector_state \<Rightarrow> 'z conn_stmt" where
  "Connector_setState s = upd_connector (\<lambda>cn. cn\<lparr>cn_state := s\<rparr>)"

definition Connector_assertInLoopThread :: "'z conn_stmt" where
  "Connector_assertInLoopThread = with_connector (\<lambda>cn. EventLoop_assertInLoopThread (cn_loop cn))"

definition sys_close :: "int \<Rightarrow> 'z conn_stmt" where
  "sys_close fd = modify (\<lambda>w. w\<lparr>k_closed := k_closed w @ [fd]\<rparr>)"

definition Connector_connecting :: "int \<Rightarrow> 'z conn_stmt" where
  "Connector_connecting sockfd = block
     [Connector_setState Connector_kConnecting,
      with_connector (\<lambda>cn. assertion (\<lambda>w. cn_channel cn = None)),
      with_connector (\<lambda>cn w. let chan = shd (k_channels w) in block
        [modify (\<lambda>w. w\<lparr>k_channels := stl (k_channels w),
           w_heap := (w_heap w)(chan \<mapsto> 
             Channel_setErrorCallback Cb_Connector_handleError
               (Channel_setWriteCallback Cb_Connector_handleWrite (Channel_new (cn_loop cn) sockfd)))\<rparr>),
         upd_connector (\<lambda>cn. cn\<lparr>cn_channel := Some chan\<rparr>),
         Channel_enableWriting chan] w)]"

definition Connector_retry :: "'z conn_exec \<Rightarrow> int \<Rightarrow> 'z conn_stmt" where
  "Connector_retry exec sockfd = block
     [sys_close sockfd,
      Connector_setState Connector_kDisconnected,
      with_connector (\<lambda>cn.
        if cn_connect cn then block
          [modify (\<lambda>w. w\<lparr>k_sleeps := k_sleeps w @ [cn_retryDelayMs cn * 1000]\<rparr>),
           EventLoop_runInLoop exec (cn_loop cn) Fn_Connector_startInLoop,
           upd_connector (\<lambda>cn. cn\<lparr>cn_retryDelayMs := min (cn_retryDelayMs cn * 2) kMaxRetryDelayMs\<rparr>)]
        else skip)]"

definition Connector_connect :: "'z conn_exec \<Rightarrow> 'z conn_stmt" where
  "Connector_connect exec w = (case shd (k_connects w) of (sockfd, savedErrno) \<Rightarrow>
     (if savedErrno \<in> {E_none, EINPROGRESS, EINTR, EISCONN} then Connector_connecting sockfd
      else if savedErrno \<in> {EAGAIN, EADDRINUSE, EADDRNOTAVAIL, ECONNREFUSED, ENETUNREACH}
      then Connector_retry exec sockfd
      else sys_close sockfd) (w\<lparr>k_socks := sys_socket sockfd (k_socks w), k_connects := stl (k_connects w)\<rparr>))"

definition Connector_startInLoop :: "'z conn_exec \<Rightarrow> 'z conn_stmt" where
  "Connector_startInLoop exec = block
     [Connector_assertInLoopThread,
      with_connector (\<lambda>cn. assertion (\<lambda>w. cn_state cn = Connector_kDisconnected)),
      with_connector (\<lambda>cn. if cn_connect cn then Connector_connect exec else skip)]"

definition Connector_start :: "'z conn_exec \<Rightarrow> 'z conn_stmt" where
  "Connector_start exec = block
     [upd_connector (\<lambda>cn. cn\<lparr>cn_connect := True\<rparr>),
      with_connector (\<lambda>cn. EventLoop_runInLoop exec (cn_loop cn) Fn_Connector_startInLoop)]"

definition Connector_resetChannel :: "'z conn_stmt" where
  "Connector_resetChannel = with_connector (\<lambda>cn. case cn_channel cn of
     None \<Rightarrow> skip
   | Some chan \<Rightarrow> block [upd_connector (\<lambda>cn. cn\<lparr>cn_channel := None\<rparr>), Channel_destroy chan])"

text \<open>The continuation gets the descriptor that \<open>removeAndResetChannel\<close> returns.\<close>

definition Connector_removeAndResetChannel :: "'z conn_exec \<Rightarrow> (int \<Rightarrow> 'z conn_stmt) \<Rightarrow> 'z conn_stmt" where
  "Connector_removeAndResetChannel exec k = with_connector (\<lambda>cn. case cn_channel cn of
     None \<Rightarrow> (\<lambda>w. Fault NullDeref)
   | Some chan \<Rightarrow> block
       [Channel_disableAll chan,
        Channel_remove chan,
        with_chan chan (\<lambda>ch. block
          [EventLoop_runInLoop exec (cn_loop cn) Fn_Connector_resetChannel,
           k (ch_fd ch)])])"

definition Connector_stopInLoop :: "'z conn_exec \<Rightarrow> 'z conn_stmt" where
  "Connector_stopInLoop exec = block
     [Connector_assertInLoopThread,
      with_connector (\<lambda>cn.
        if cn_state cn = Connector_kConnecting then block
          [Connector_setState Connector_kDisconnected,
           Connector_removeAndResetChannel exec (Connector_retry exec)]
        else skip)]"

definition Connector_stop :: "'z conn_exec \<Rightarrow> 'z conn_stmt" where
  "Connector_stop exec = block
     [upd_connector (\<lambda>cn. cn\<lparr>cn_connect := False\<rparr>),
      with_connector (\<lambda>cn. EventLoop_runInLoop exec (cn_loop cn) Fn_Connector_stopInLoop)]"

text \<open>\<open>newConnection\<close> is the callback; calling an empty one throws.\<close>

definition Connector_handleWrite :: "'z conn_exec \<Rightarrow> (int \<Rightarrow> 'z conn_stmt) \<Rightarrow> 'z conn_stmt" where
  "Connector_handleWrite exec newConnection = with_connector (\<lambda>cn.
     if cn_state cn = Connector_kConnecting then
       Connector_removeAndResetChannel exec (\<lambda>sockfd. block
         [Connector_setState Connector_kConnected,
          with_connector (\<lambda>cn.
            if cn_connect cn
            then (if cn_newConnectionCallback cn then newConnection sockfd else (\<lambda>w. Fault UncaughtException))
            else sys_close sockfd)])
     else skip)"

definition Connector_handleError :: "'z conn_exec \<Rightarrow> 'z conn_stmt" where
  "Connector_handleError exec = with_connector (\<lambda>cn.
     if cn_state cn = Connector_kConnecting
     then Connector_removeAndResetChannel exec (Connector_retry exec)
     else skip)"

definition Connector_restart :: "'z conn_exec \<Rightarrow> 'z conn_stmt" where
  "Connector_restart exec = block
     [Connector_assertInLoopThread,
      Connector_setState Connector_kDisconnected,
      upd_connector (\<lambda>cn. cn\<lparr>cn_retryDelayMs := kInitRetryDelayMs\<rparr>),
      upd_connector (\<lambda>cn. cn\<lparr>cn_connect := True\<rparr>),
      Connector_startInLoop exec]"

text \<open>The functors of a connector, with a bound on the nesting of those run in place.\<close>

primrec connector_exec :: "nat \<Rightarrow> 'z conn_exec" where
  "connector_exec 0 = (\<lambda>f w. Fault DepthExceeded)"
| "connector_exec (Suc n) = (\<lambda>f. case f of
     Fn_Connector_startInLoop \<Rightarrow> Connector_startInLoop (connector_exec n)
   | Fn_Connector_stopInLoop \<Rightarrow> Connector_stopInLoop (connector_exec n)
   | Fn_Connector_resetChannel \<Rightarrow> Connector_resetChannel
   | _ \<Rightarrow> (\<lambda>w. Fault UndefinedBehaviour))"

lemmas connector_access = with_connector_def upd_connector_def

section \<open>Retrying\<close>

text \<open>A connector about to connect, in the thread of its loop.\<close>

definition connector_ready :: "'z connector_net_scheme \<Rightarrow> connector \<Rightarrow> bool" where
  "connector_ready w cn \<longleftrightarrow> n_connector w = Some cn \<and> cn_connect cn \<and> cn_state cn = Connector_kDisconnected \<and>
     EventLoop_isInLoopThread (cn_loop cn) w"

definition next_delay :: "int \<Rightarrow> int" where
  "next_delay d = min (d * 2) kMaxRetryDelayMs"

lemma startInLoop_ready:
  assumes "connector_ready w cn"
  shows "Connector_startInLoop exec w = Connector_connect exec w"
proof -
  have "Connector_assertInLoopThread w = Ok w"
    using assms by (auto simp: connector_ready_def Connector_assertInLoopThread_def EventLoop_assertInLoopThread_def
        connector_access loop_access check_def EventLoop_isInLoopThread_def split: option.splits)
  then show ?thesis
    using assms by (simp add: Connector_startInLoop_def connector_ready_def connector_access assertion_def check_def
        split: sum.splits)
qed

text \<open>
  A run of refusals is worked off inside the first attempt: each sleeps with the delay it
  finds, runs the next attempt in place, and doubles the delay only afterwards.
\<close>

lemma connect_refused:
  assumes ready: "connector_ready w cn" and refused: "shd (k_connects w) = (fd, ECONNREFUSED)"
  shows "Connector_connect exec w =
    (case exec Fn_Connector_startInLoop (w\<lparr>k_connects := stl (k_connects w), k_closed := k_closed w @ [fd],
        k_socks := sys_socket fd (k_socks w), k_sleeps := k_sleeps w @ [cn_retryDelayMs cn * 1000]\<rparr>) of
       Inl e \<Rightarrow> Inl e
     | Inr w' \<Rightarrow> upd_connector (\<lambda>cn. cn\<lparr>cn_retryDelayMs := next_delay (cn_retryDelayMs cn)\<rparr>) w')"
proof -
  let ?w1 = "w\<lparr>k_socks := sys_socket fd (k_socks w), k_connects := stl (k_connects w), k_closed := k_closed w @ [fd], n_connector := Some (cn\<lparr>cn_state := Connector_kDisconnected\<rparr>)\<rparr>"
  let ?w2 = "?w1\<lparr>k_sleeps := k_sleeps w @ [cn_retryDelayMs cn * 1000]\<rparr>"
  have cn: "cn\<lparr>cn_state := Connector_kDisconnected\<rparr> = cn" using ready by (simp add: connector_ready_def)
  have eq: "?w2 = w\<lparr>k_connects := stl (k_connects w), k_closed := k_closed w @ [fd], k_socks := sys_socket fd (k_socks w),
        k_sleeps := k_sleeps w @ [cn_retryDelayMs cn * 1000]\<rparr>"
    unfolding cn using ready by (intro connector_net.equality) (simp_all add: connector_ready_def)
  have loop: "EventLoop_isInLoopThread (cn_loop cn) ?w2"
    using ready by (auto simp: connector_ready_def EventLoop_isInLoopThread_def split: option.splits)
  have "Connector_connect exec w =
    (case exec Fn_Connector_startInLoop ?w2 of
       Inl e \<Rightarrow> Inl e
     | Inr w' \<Rightarrow> upd_connector (\<lambda>cn. cn\<lparr>cn_retryDelayMs := next_delay (cn_retryDelayMs cn)\<rparr>) w')"
    using ready refused runInLoop_own [OF loop, of exec Fn_Connector_startInLoop]
    by (simp add: Connector_connect_def Connector_retry_def sys_close_def modify_def Connector_setState_def
        connector_access connector_ready_def next_delay_def split: sum.splits)
  then show ?thesis unfolding eq .
qed

text \<open>A run of \<open>fds\<close> refusals, as one equation: \<open>m\<close> is the depth left at its end.\<close>

definition then_next_delay :: "'z connector_net_scheme res \<Rightarrow> 'z connector_net_scheme res" where
  "then_next_delay r = (case r of Inl e \<Rightarrow> Inl e | Inr w \<Rightarrow>
     upd_connector (\<lambda>cn. cn\<lparr>cn_retryDelayMs := next_delay (cn_retryDelayMs cn)\<rparr>) w)"

lemma then_next_delay_fold:
  "(case r of Inl e \<Rightarrow> Inl e
     | Inr w \<Rightarrow> upd_connector (\<lambda>cn. cn\<lparr>cn_retryDelayMs := next_delay (cn_retryDelayMs cn)\<rparr>) w) = then_next_delay r"
  by (simp add: then_next_delay_def)

lemma connect_refused_many:
  assumes "connector_ready w cn"
    and "\<And>i. i < length fds \<Longrightarrow> k_connects w !! i = (fds ! i, ECONNREFUSED)"
  shows "Connector_connect (connector_exec (length fds + m)) w =
    (then_next_delay ^^ length fds) (Connector_connect (connector_exec m) (w\<lparr>
        k_connects := sdrop (length fds) (k_connects w), k_closed := k_closed w @ fds, k_socks := after_sockets fds (k_socks w),
        k_sleeps := k_sleeps w @ replicate (length fds) (cn_retryDelayMs cn * 1000)\<rparr>))"
  using assms
proof (induction fds arbitrary: w)
  case Nil
  have "w\<lparr>k_connects := k_connects w, k_closed := k_closed w, k_socks := k_socks w, k_sleeps := k_sleeps w\<rparr> = w"
    by (intro connector_net.equality) simp_all
  then show ?case by simp
next
  case (Cons fd fds)
  let ?w = "w\<lparr>k_connects := stl (k_connects w), k_closed := k_closed w @ [fd], k_socks := sys_socket fd (k_socks w),
        k_sleeps := k_sleeps w @ [cn_retryDelayMs cn * 1000]\<rparr>"
  have ready: "connector_ready ?w cn"
    using Cons.prems(1) by (auto simp: connector_ready_def EventLoop_isInLoopThread_def split: option.splits)
  have step: "k_connects ?w !! i = (fds ! i, ECONNREFUSED)" if "i < length fds" for i
    using Cons.prems(2) [of "Suc i"] that by simp
  have first: "shd (k_connects w) = (fd, ECONNREFUSED)" using Cons.prems(2) [of 0] by simp
  have run: "connector_exec (length (fd # fds) + m) Fn_Connector_startInLoop ?w =
      Connector_connect (connector_exec (length fds + m)) ?w"
    using startInLoop_ready [OF ready] by simp
  note ih = Cons.IH [OF ready, rule_format, OF step, simplified]
  show ?case
    unfolding connect_refused [OF Cons.prems(1) first] run
    unfolding then_next_delay_fold
    using ih by simp
qed

lemma delay_updates:
  assumes "n_connector w = Some cn"
  shows "(then_next_delay ^^ n) (Ok w) =
    Ok (w\<lparr>n_connector := Some (cn\<lparr>cn_retryDelayMs := (next_delay ^^ n) (cn_retryDelayMs cn)\<rparr>)\<rparr>)"
  using assms
proof (induction n)
  case 0
  then show ?case by (simp add: connector_net.equality)
next
  case (Suc n)
  then show ?case by (simp add: connector_access then_next_delay_def)
qed

lemma next_delay_many:
  assumes "0 \<le> d" "d \<le> kMaxRetryDelayMs"
  shows "(next_delay ^^ n) d = min (d * 2 ^ n) kMaxRetryDelayMs"
  using assms by (induction n) (auto simp: next_delay_def kMaxRetryDelayMs_def min_def)

text \<open>A connection attempt in progress: the connector's channel is polled for writing only.\<close>

definition connector_channel :: "loop_id \<Rightarrow> int \<Rightarrow> int \<Rightarrow> callback channel" where
  "connector_channel l fd i = (Channel_new l fd)\<lparr>ch_events := kWriteEvent, ch_index := i, ch_addedToLoop := True,
     ch_writeCallback := Some Cb_Connector_handleWrite, ch_errorCallback := Some Cb_Connector_handleError\<rparr>"

lemma connecting_ok:
  assumes cn: "n_connector w = Some cn" "cn_channel cn = None" and sv: "serves (cn_loop cn) w p"
    and room: "w_heap w (shd (k_channels w)) = None" "pl_channels p fd = None"
  obtains w' p' i where "Connector_connecting fd w = Ok w'"
    "n_connector w' = Some (cn\<lparr>cn_state := Connector_kConnecting, cn_channel := Some (shd (k_channels w))\<rparr>)"
    "serves (cn_loop cn) w' p'" "own_channel (cn_loop cn) w' p' (shd (k_channels w)) (connector_channel (cn_loop cn) fd i)"
    "registered (p', w_heap w') = insert (shd (k_channels w)) (registered (p, w_heap w))"
    "k_sleeps w' = k_sleeps w" "k_closed w' = k_closed w" "k_connects w' = k_connects w" "k_socks w' = k_socks w"
proof -
  let ?c = "shd (k_channels w)"
  let ?cn = "cn\<lparr>cn_state := Connector_kConnecting, cn_channel := Some ?c\<rparr>"
  let ?ch = "(Channel_new (cn_loop cn) fd)
      \<lparr>ch_writeCallback := Some Cb_Connector_handleWrite, ch_errorCallback := Some Cb_Connector_handleError\<rparr>"
  let ?v = "w\<lparr>k_channels := stl (k_channels w), n_connector := Some ?cn\<rparr>"
  let ?w = "?v\<lparr>w_heap := (w_heap ?v)(?c \<mapsto> ?ch)\<rparr>"
  have v: "serves (cn_loop cn) ?v p" using sv by (simp add: serves_def)
  have ch: "ch_loop ?ch = cn_loop cn" "ch_index ?ch < 0" "pl_channels p (ch_fd ?ch) = None"
    using room by (simp_all add: Channel_new_def)
  have free: "w_heap ?v ?c = None" using room by simp
  note new = serves_new_channel [OF v free ch]
  have last: "w\<lparr>k_channels := stl (k_channels w), w_heap := (w_heap w)(?c \<mapsto> ?ch), n_connector := Some ?cn\<rparr> = ?w"
    by (rule connector_net.equality) simp_all
  have run: "Connector_connecting fd w = Channel_enableWriting ?c ?w"
    unfolding last [symmetric] using cn
    by (simp add: Connector_connecting_def Connector_setState_def connector_access assertion_def check_def
        modify_def Let_def split: sum.splits)
  show thesis
  proof (rule change_ok [OF new(1,2), of "\<lambda>e. e OR kWriteEvent"], goal_cases)
    case (1 w' p' i)
    have same: "n_connector w' = Some ?cn" "k_sleeps w' = k_sleeps w" "k_closed w' = k_closed w" "k_connects w' = k_connects w" "k_socks w' = k_socks w"
      by (subst 1(7), simp)+
    have chan: "?ch\<lparr>ch_events := ch_events ?ch OR kWriteEvent, ch_index := i, ch_addedToLoop := True\<rparr> =
        connector_channel (cn_loop cn) fd i"
      by (simp add: connector_channel_def Channel_new_def)
    have reg: "registered (p, w_heap ?w) = registered (p, w_heap w)" using new(3) by (simp del: registered.simps)
    show thesis
      by (rule that [of w' p' i])
        (use same run 1(1,2,3,4) in \<open>simp_all only: chan Channel_enableWriting_def reg\<close>)
  qed
qed

section \<open>Leaving the poller\<close>

text \<open>
  \<open>removeAndResetChannel\<close> in the loop's own thread: the channel leaves the poller and is
  destroyed at once, because \<open>runInLoop\<close> runs \<open>resetChannel\<close> in place.
\<close>

lemma removeAndResetChannel_eq:
  assumes cn: "n_connector w = Some cn" "cn_channel cn = Some c" and sv: "serves (cn_loop cn) w p"
    and ch: "w_heap w c = Some ch" "ch_loop ch = cn_loop cn" "pl_channels p (ch_fd ch) = Some c"
    and el: "w_loops w (cn_loop cn) = Some el"
    and exec: "exec Fn_Connector_resetChannel = Connector_resetChannel"
  shows "Connector_removeAndResetChannel exec k w = k (ch_fd ch) (w\<lparr>w_heap := (w_heap w)(c := None),
    w_loops := (w_loops w)(cn_loop cn \<mapsto> el\<lparr>el_poller := Some (without ch p)\<rparr>),
    n_connector := Some (cn\<lparr>cn_channel := None\<rparr>)\<rparr>)"
proof -
  let ?y = "ch\<lparr>ch_events := kNoneEvent, ch_addedToLoop := False, ch_index := -1\<rparr>"
  let ?w1 = "w\<lparr>w_heap := (w_heap w)(c \<mapsto> ?y),
    w_loops := (w_loops w)(cn_loop cn \<mapsto> el\<lparr>el_poller := Some (without ch p)\<rparr>)\<rparr>"
  let ?w2 = "w\<lparr>w_heap := (w_heap w)(c := None),
    w_loops := (w_loops w)(cn_loop cn \<mapsto> el\<lparr>el_poller := Some (without ch p)\<rparr>),
    n_connector := Some (cn\<lparr>cn_channel := None\<rparr>)\<rparr>"
  have gone: "block [Channel_disableAll c, Channel_remove c] w = Ok ?w1"
    by (rule disable_remove_eq [OF sv ch el])
  have loop: "EventLoop_isInLoopThread (cn_loop cn) ?w1"
    using sv el by (auto simp: EventLoop_isInLoopThread_def serves_def)
  have "Connector_resetChannel ?w1 = Ok ?w2"
    using cn by (simp add: Connector_resetChannel_def connector_access Channel_destroy_def loop_access assertion_def
        check_def modify_def)
  then have "EventLoop_runInLoop exec (cn_loop cn) Fn_Connector_resetChannel ?w1 = Ok ?w2"
    using runInLoop_own [OF loop] exec by simp
  then have "block [with_chan c (\<lambda>ch. block
      [EventLoop_runInLoop exec (cn_loop cn) Fn_Connector_resetChannel, k (ch_fd ch)])] ?w1 = k (ch_fd ch) ?w2"
    by (simp add: with_chan_def split: sum.splits)
  moreover have "Connector_removeAndResetChannel exec k w = block ([Channel_disableAll c, Channel_remove c] @
      [with_chan c (\<lambda>ch. block [EventLoop_runInLoop exec (cn_loop cn) Fn_Connector_resetChannel, k (ch_fd ch)])]) w"
    using cn by (simp add: Connector_removeAndResetChannel_def with_connector_def)
  ultimately show ?thesis unfolding block_append gone by simp
qed

lemma Connector_handleWrite_eq:
  assumes cn: "n_connector w = Some cn" "cn_channel cn = Some c" "cn_state cn = Connector_kConnecting"
      "cn_connect cn" "cn_newConnectionCallback cn"
    and sv: "serves (cn_loop cn) w p"
    and ch: "w_heap w c = Some ch" "ch_loop ch = cn_loop cn" "pl_channels p (ch_fd ch) = Some c"
    and el: "w_loops w (cn_loop cn) = Some el"
    and exec: "exec Fn_Connector_resetChannel = Connector_resetChannel"
  shows "Connector_handleWrite exec newConnection w = newConnection (ch_fd ch) (w\<lparr>w_heap := (w_heap w)(c := None),
    w_loops := (w_loops w)(cn_loop cn \<mapsto> el\<lparr>el_poller := Some (without ch p)\<rparr>),
    n_connector := Some (cn\<lparr>cn_channel := None, cn_state := Connector_kConnected\<rparr>)\<rparr>)"
proof -
  let ?k = "\<lambda>sockfd. block [Connector_setState Connector_kConnected, with_connector (\<lambda>cn. if cn_connect cn
      then (if cn_newConnectionCallback cn then newConnection sockfd else (\<lambda>w. Fault UncaughtException))
      else sys_close sockfd)]"
  have "Connector_handleWrite exec newConnection w = Connector_removeAndResetChannel exec ?k w"
    using cn(1,3) by (simp only: Connector_handleWrite_def with_connector_def option.case if_True simp_thms)
  also have "\<dots> = ?k (ch_fd ch) (w\<lparr>w_heap := (w_heap w)(c := None),
    w_loops := (w_loops w)(cn_loop cn \<mapsto> el\<lparr>el_poller := Some (without ch p)\<rparr>),
    n_connector := Some (cn\<lparr>cn_channel := None\<rparr>)\<rparr>)"
    by (rule removeAndResetChannel_eq [where cn = cn and c = c]) (fact cn(1,2) sv ch el exec)+
  finally show ?thesis
    using cn(4,5) by (simp add: Connector_setState_def connector_access split: sum.splits)
qed

text \<open>The callbacks of a connector's channel; \<open>newConnection\<close> is what the owner installed.\<close>

definition connector_fire :: "'z conn_exec \<Rightarrow> (int \<Rightarrow> 'z conn_stmt) \<Rightarrow> callback \<Rightarrow> 'z conn_stmt" where
  "connector_fire exec newConnection cb = (case cb of
     Cb_Connector_handleWrite \<Rightarrow> Connector_handleWrite exec newConnection
   | Cb_Connector_handleError \<Rightarrow> Connector_handleError exec
   | _ \<Rightarrow> (\<lambda>w. Fault UndefinedBehaviour))"

section \<open>Properties\<close>

text \<open>
  C25. Consecutive refusals are retried without back-off: however many attempts of a new
  connector are refused, every wait is the initial one, and it is \<open>500 * 1000\<close> seconds,
  because \<open>sleep\<close> counts seconds; the doubled delay is in place only when the run is over.
  The attempt after the refusals goes through and leaves the connector connecting, on a socket
  that, unlike the server's, was never made non-blocking.
\<close>

theorem retries_sleep_without_backoff:
  fixes w :: "'z connector_net_scheme" and fds :: "int list" and m :: nat
  defines "n \<equiv> length fds" and "c \<equiv> shd (k_channels w)"
  assumes cn: "n_connector w = Some cn" "cn_state cn = Connector_kDisconnected" "cn_channel cn = None"
      "cn_retryDelayMs cn = kInitRetryDelayMs"
    and sv: "serves (cn_loop cn) w p"
    and refused: "\<forall>i < n. k_connects w !! i = (fds ! i, ECONNREFUSED)" and last: "k_connects w !! n = (fd, EINPROGRESS)"
    and room: "w_heap w c = None" "pl_channels p fd = None"
  shows "\<exists>w'. Connector_start (connector_exec (Suc n + m)) w = Ok w' \<and>
    k_sleeps w' = k_sleeps w @ replicate n 500000 \<and> k_closed w' = k_closed w @ fds \<and>
    n_connector w' = Some (cn\<lparr>cn_connect := True, cn_state := Connector_kConnecting, cn_channel := Some c,
      cn_retryDelayMs := min (500 * 2 ^ n) kMaxRetryDelayMs\<rparr>) \<and>
    k_socks w' = after_sockets (fds @ [fd]) (k_socks w) \<and> \<not> nonblocking (k_socks w' fd)"
proof -
  let ?cn = "cn\<lparr>cn_connect := True\<rparr>"
  let ?w = "w\<lparr>n_connector := Some ?cn\<rparr>"
  let ?v = "?w\<lparr>k_connects := sdrop n (k_connects w), k_closed := k_closed w @ fds, k_socks := after_sockets fds (k_socks w),
      k_sleeps := k_sleeps w @ replicate n (kInitRetryDelayMs * 1000)\<rparr>"
  let ?u = "?v\<lparr>k_socks := sys_socket fd (k_socks ?v), k_connects := stl (k_connects ?v)\<rparr>"
  have loop: "EventLoop_isInLoopThread (cn_loop cn) ?w"
    using sv by (auto simp: serves_def EventLoop_isInLoopThread_def)
  have ready: "connector_ready ?w ?cn"
    using cn loop by (simp add: connector_ready_def)
  have refused': "k_connects ?w !! i = (fds ! i, ECONNREFUSED)" if "i < length fds" for i
    using refused that by (simp add: n_def)
  have start: "Connector_start (connector_exec (Suc n + m)) w = Connector_connect (connector_exec (n + m)) ?w"
    using cn(1) runInLoop_own [OF loop] startInLoop_ready [OF ready]
    by (simp add: Connector_start_def connector_access split: sum.splits)
  also have "\<dots> = (then_next_delay ^^ n) (Connector_connect (connector_exec m) ?v)"
    using connect_refused_many [OF ready, of fds m] refused' cn(4) by (simp add: n_def)
  also have "Connector_connect (connector_exec m) ?v = Connector_connecting fd ?u"
    using last by (simp add: Connector_connect_def sdrop_simps)
  finally have run: "Connector_start (connector_exec (Suc n + m)) w =
      (then_next_delay ^^ n) (Connector_connecting fd ?u)" .
  have sv': "serves (cn_loop ?cn) ?u p" using sv by (simp add: serves_def)
  have delay: "(next_delay ^^ n) (cn_retryDelayMs cn) = min (500 * 2 ^ n) kMaxRetryDelayMs"
    using next_delay_many [of 500 n] cn(4) by (simp add: kInitRetryDelayMs_def kMaxRetryDelayMs_def)
  show ?thesis
  proof (rule connecting_ok [of ?u ?cn p fd, OF _ _ sv'], goal_cases)
    case (5 w' p' i)
    with run delay_updates [OF 5(2), of n] delay show ?case
      by (simp add: c_def kInitRetryDelayMs_def) (simp add: after_sockets_def new_socket_blocks)
  qed (use cn room in \<open>simp_all add: c_def\<close>)
qed

text \<open>A connector of loop \<open>4\<close> whose first three attempts are refused.\<close>

definition example_connector :: connector where
  "example_connector = \<lparr>cn_loop = 4, cn_serverAddr = InetAddress_any 90, cn_connect = False,
     cn_state = Connector_kDisconnected, cn_channel = None, cn_newConnectionCallback = True,
     cn_retryDelayMs = kInitRetryDelayMs\<rparr>"

definition connector_world :: "connector \<Rightarrow> net \<Rightarrow> connector_net" where
  "connector_world cn w = net.extend w (connector_net.fields (Some cn)
     ([(20, ECONNREFUSED), (21, ECONNREFUSED), (22, ECONNREFUSED)] @- sconst (23, EINPROGRESS)) (sconst 3) [])"

lemma connector_world_simps [simp]:
  "n_connector (connector_world cn w) = Some cn" "w_heap (connector_world cn w) = w_heap w"
  "w_loops (connector_world cn w) = w_loops w" "w_thread (connector_world cn w) = w_thread w"
  "n_conns (connector_world cn w) = n_conns w" "k_closed (connector_world cn w) = k_closed w"
  "k_channels (connector_world cn w) = sconst 3" "k_sleeps (connector_world cn w) = []"
  "k_connects (connector_world cn w) =
     [(20, ECONNREFUSED), (21, ECONNREFUSED), (22, ECONNREFUSED)] @- sconst (23, EINPROGRESS)"
  by (simp_all add: connector_world_def net.defs connector_net.defs)

lemma empty_room_simps [simp]: "w_heap empty_room = Map.empty" "k_closed empty_room = []" "n_conns empty_room = Map.empty"
  by (simp_all add: empty_room_def)

lemma connector_world_serves: "serves l w p \<Longrightarrow> serves l (connector_world cn w) p"
  by (simp add: serves_def)

theorem retries_sleep_without_backoff_witness:
  "\<exists>w'. Connector_start (connector_exec 4) (connector_world example_connector empty_room) = Ok w' \<and>
    k_sleeps w' = [500000, 500000, 500000] \<and> k_closed w' = [20, 21, 22] \<and>
    (\<exists>cn. n_connector w' = Some cn \<and> cn_state cn = Connector_kConnecting \<and> cn_retryDelayMs cn = 4000) \<and>
    \<not> nonblocking (k_socks w' 23)"
proof -
  let ?w = "connector_world example_connector empty_room"
  have sv: "serves (cn_loop example_connector) ?w (PollPoller_new 4)"
    using empty_room [of 0 0 0] by (simp add: conn_room_def connector_world_serves example_connector_def)
  have refused: "\<forall>i < length [20, 21, 22 :: int]. k_connects ?w !! i = ([20, 21, 22] ! i, ECONNREFUSED)"
    by (simp add: less_Suc_eq numeral_2_eq_2)
  have "\<exists>w'. Connector_start (connector_exec (Suc (length [20, 21, 22 :: int]) + 0)) ?w = Ok w' \<and>
    k_sleeps w' = k_sleeps ?w @ replicate (length [20, 21, 22 :: int]) 500000 \<and> k_closed w' = k_closed ?w @ [20, 21, 22] \<and>
    n_connector w' = Some (example_connector\<lparr>cn_connect := True, cn_state := Connector_kConnecting,
      cn_channel := Some (shd (k_channels ?w)),
      cn_retryDelayMs := min (500 * 2 ^ length [20, 21, 22 :: int]) kMaxRetryDelayMs\<rparr>) \<and>
    k_socks w' = after_sockets ([20, 21, 22] @ [23]) (k_socks ?w) \<and> \<not> nonblocking (k_socks w' 23)"
    by (rule retries_sleep_without_backoff [OF _ _ _ _ sv refused, of 23])
      (simp_all add: example_connector_def PollPoller_new_def eval_nat_numeral)
  then obtain w' where w': "Connector_start (connector_exec (Suc (length [20, 21, 22 :: int]) + 0)) ?w = Ok w'"
    "k_sleeps w' = [500000, 500000, 500000]" "k_closed w' = [20, 21, 22]"
    "n_connector w' = Some (example_connector\<lparr>cn_connect := True, cn_state := Connector_kConnecting,
      cn_channel := Some 3, cn_retryDelayMs := min (500 * 2 ^ 3) kMaxRetryDelayMs\<rparr>)"
    "\<not> nonblocking (k_socks w' 23)"
    by (auto simp: eval_nat_numeral)
  have four: "Suc (length [20, 21, 22 :: int]) + 0 = 4" by simp
  show ?thesis
    by (rule exI [of _ w']) (use w'(1) [unfolded four] w'(2,3,4,5) in \<open>simp del: connector_exec.simps add: kMaxRetryDelayMs_def\<close>)
qed

text \<open>
  A successful connection ends in the freed channel: when the descriptor becomes
  writable, \<open>handleWrite\<close> hands it over, but the channel whose event is being handled is
  destroyed on the way, and \<open>handleEvent\<close> writes to it when the callback returns.
\<close>

theorem connected_event_uses_freed_channel:
  assumes cn: "n_connector w = Some cn" "cn_channel cn = Some c" "cn_state cn = Connector_kConnecting"
      "cn_connect cn" "cn_newConnectionCallback cn"
    and sv: "serves (cn_loop cn) w p" and own: "own_channel (cn_loop cn) w p c ch" "c \<in> registered (p, w_heap w)"
    and ch: "ch_revents ch = POLLOUT" "ch_writeCallback ch = Some Cb_Connector_handleWrite"
    and owner: "\<And>v. w_heap v c = None \<Longrightarrow> n_connector v = Some (cn\<lparr>cn_channel := None, cn_state := Connector_kConnected\<rparr>) \<Longrightarrow>
      \<exists>v'. newConnection (ch_fd ch) v = Ok v' \<and> w_heap v' c = None"
  shows "Channel_handleEvent (connector_fire (connector_exec (Suc n)) newConnection) c w = Fault UseAfterFree"
proof -
  let ?ch = "ch\<lparr>ch_handlingEvent := True\<rparr>"
  let ?w = "w\<lparr>w_heap := (w_heap w)(c \<mapsto> ?ch)\<rparr>"
  have c: "w_heap w c = Some ch" using own(1) by (simp add: own_channel_def)
  have ok: "serves (cn_loop cn) ?w p" "own_channel (cn_loop cn) ?w p c ?ch" "c \<in> registered (p, w_heap ?w)"
    using sv own poller_ok_chan_field [of p "w_heap w" c ch ?ch] updatable_chan_field [of "w_heap w" c ch ?ch p]
      registered_chan_field [of "w_heap w" c ch ?ch p]
    by (simp_all add: serves_def own_channel_def del: registered.simps updatable.simps)
  obtain el where el: "w_loops ?w (cn_loop cn) = Some el" using sv by (auto simp: serves_def)
  let ?v = "?w\<lparr>w_heap := (w_heap ?w)(c := None),
    w_loops := (w_loops ?w)(cn_loop cn \<mapsto> el\<lparr>el_poller := Some (without ?ch p)\<rparr>),
    n_connector := Some (cn\<lparr>cn_channel := None, cn_state := Connector_kConnected\<rparr>)\<rparr>"
  have "Connector_handleWrite (connector_exec (Suc n)) newConnection ?w = newConnection (ch_fd ?ch) ?v"
    by (rule Connector_handleWrite_eq) (use cn ok(1) el own c in \<open>auto simp: own_channel_def\<close>)
  then have v: "Connector_handleWrite (connector_exec (Suc n)) newConnection ?w = newConnection (ch_fd ch) ?v"
    "w_heap ?v c = None" "n_connector ?v = Some (cn\<lparr>cn_channel := None, cn_state := Connector_kConnected\<rparr>)"
    by simp_all
  from owner [OF v(2,3)] obtain v' where "newConnection (ch_fd ch) ?v = Ok v'" "w_heap v' c = None" by blast
  with v(1) show ?thesis
    by (intro handleEvent_write_destroyed [OF c ch, of _ v']) (simp_all add: connector_fire_def)
qed

text \<open>The same loop with the connector's channel \<open>3\<close>, on descriptor \<open>7\<close>, writable.\<close>

definition writable_connector :: connector where
  "writable_connector = example_connector\<lparr>cn_connect := True, cn_state := Connector_kConnecting, cn_channel := Some 3\<rparr>"

definition writable_channel :: "callback channel" where
  "writable_channel = (connector_channel 4 7 0)\<lparr>ch_revents := POLLOUT\<rparr>"

definition writable_net :: net where
  "writable_net = empty_room\<lparr>w_heap := [3 \<mapsto> writable_channel],
     w_loops := [4 \<mapsto> (the (w_loops empty_room 4))\<lparr>el_poller := Some
       ((PollPoller_new 4)\<lparr>pl_pollfds := [new_pollfd writable_channel], pl_channels := [7 \<mapsto> 3]\<rparr>)\<rparr>]\<rparr>"

lemma writable_net_simps [simp]: "w_heap writable_net = [3 \<mapsto> writable_channel]" "n_conns writable_net = Map.empty"
  by (simp_all add: writable_net_def)

lemma writable_net_serves:
  defines "p \<equiv> (PollPoller_new 4)\<lparr>pl_pollfds := [new_pollfd writable_channel], pl_channels := [7 \<mapsto> 3]\<rparr>"
  shows "serves 4 writable_net p" "own_channel 4 writable_net p 3 writable_channel" "3 \<in> registered (p, w_heap writable_net)"
proof -
  have "poller_ok (p, [3 \<mapsto> writable_channel])"
    by (rule poller_okI)
      (auto simp: p_def writable_channel_def connector_channel_def slot_of_def entry_ok_def PollPoller_new_def
        Channel_new_def new_pollfd_def split: if_splits)
  then show "serves 4 writable_net p" "own_channel 4 writable_net p 3 writable_channel" "3 \<in> registered (p, w_heap writable_net)"
    by (simp_all add: serves_def own_channel_def writable_net_def empty_room_def example_net_def p_def PollPoller_new_def
        writable_channel_def connector_channel_def Channel_new_def)
qed

theorem connected_event_uses_freed_channel_witness:
  "Channel_handleEvent (connector_fire (connector_exec 1) (\<lambda>fd. skip)) 3 (connector_world writable_connector writable_net) =
     Fault UseAfterFree"
proof -
  let ?w = "connector_world writable_connector writable_net"
  let ?p = "(PollPoller_new 4)\<lparr>pl_pollfds := [new_pollfd writable_channel], pl_channels := [7 \<mapsto> 3]\<rparr>"
  have sv: "serves (cn_loop writable_connector) ?w ?p" "own_channel (cn_loop writable_connector) ?w ?p 3 writable_channel"
    "3 \<in> registered (?p, w_heap ?w)"
    using writable_net_serves
    by (simp_all add: connector_world_serves writable_connector_def example_connector_def own_channel_def)
  show ?thesis
    unfolding One_nat_def
    by (rule connected_event_uses_freed_channel [OF _ _ _ _ _ sv])
      (simp_all add: writable_connector_def example_connector_def writable_channel_def connector_channel_def skip_def)
qed

end
