(* ===== verification/TcpClient.thy ===== *)
theory TcpClient
  imports Connector
begin

text \<open>
  \<open>TcpClient.cpp\<close>: one outgoing connection, made by a connector and dropped when the
  peer closes it. The world gets the client object, the addresses that successive
  \<open>new TcpConnection\<close> give to the connection and its channel, and the local addresses that
  \<open>getsockname\<close> reports. The client's mutex guards single reads and writes of
  \<open>connection_\<close>, which are atomic steps here.
\<close>

section \<open>State and operations\<close>

record tcp_client =
  cl_loop :: loop_id
  cl_name :: string
  cl_connection :: "conn_id option"
  cl_connectionCallback :: conn_callback
  cl_messageCallback :: conn_callback
  cl_closeCallback :: "conn_callback option"
  cl_retry :: bool
  cl_connect :: bool
  cl_nextConnId :: nat
  cl_serverAddr :: sockaddr_in

record client_net = connector_net +
  n_client :: "tcp_client option"
  n_client_alloc :: "(conn_id \<times> chan_id) stream"
  k_sockname :: "int \<Rightarrow> sockaddr_in option"

type_synonym 'z client_stmt = "'z client_net_scheme stmt"
type_synonym 'z client_exec_fn = "loop_functor \<Rightarrow> 'z client_stmt"
type_synonym 'z client_call_fn = "conn_callback \<Rightarrow> conn_id \<Rightarrow> byte list \<Rightarrow> 'z client_stmt"

definition with_client :: "(tcp_client \<Rightarrow> 'z client_stmt) \<Rightarrow> 'z client_stmt" where
  "with_client s w = (case n_client w of None \<Rightarrow> Fault UseAfterFree | Some cl \<Rightarrow> s cl w)"

definition upd_client :: "(tcp_client \<Rightarrow> tcp_client) \<Rightarrow> 'z client_stmt" where
  "upd_client g = with_client (\<lambda>cl w. Ok (w\<lparr>n_client := Some (g cl)\<rparr>))"

text \<open>The helper function of the file; a failing \<open>getsockname\<close> leaves the zeroed address.\<close>

definition removeConnection :: "'z exec_fn \<Rightarrow> loop_id \<Rightarrow> conn_id \<Rightarrow> 'z net_stmt" where
  "removeConnection exec loop c = run_bound exec loop c (Fn_connectDestroyed c)"

definition getLocalAddr :: "int \<Rightarrow> 'z client_net_scheme \<Rightarrow> sockaddr_in" where
  "getLocalAddr sockfd w = (case k_sockname w sockfd of
     Some addr \<Rightarrow> addr | None \<Rightarrow> \<lparr>sin_family = 0, sin_port = 0, sin_addr = 0\<rparr>)"

definition TcpClient_new :: "loop_id \<Rightarrow> sockaddr_in \<Rightarrow> string \<Rightarrow> 'z client_stmt" where
  "TcpClient_new loop serverAddr nameArg = block
     [Connector_new loop serverAddr,
      modify (\<lambda>w. w\<lparr>n_client := Some
        \<lparr>cl_loop = loop, cl_name = nameArg, cl_connection = None,
         cl_connectionCallback = defaultConnectionCallback, cl_messageCallback = defaultMessageCallback,
         cl_closeCallback = None, cl_retry = False, cl_connect = False, cl_nextConnId = 1,
         cl_serverAddr = serverAddr\<rparr>\<rparr>),
      upd_connector Connector_setNewConnectionCallback]"

definition TcpClient_enableRetry :: "'z client_stmt" where
  "TcpClient_enableRetry = upd_client (\<lambda>cl. cl\<lparr>cl_retry := True\<rparr>)"

definition TcpClient_setConnectionCallback :: "conn_callback \<Rightarrow> 'z client_stmt" where
  "TcpClient_setConnectionCallback cb = upd_client (\<lambda>cl. cl\<lparr>cl_connectionCallback := cb\<rparr>)"

definition TcpClient_setMessageCallback :: "conn_callback \<Rightarrow> 'z client_stmt" where
  "TcpClient_setMessageCallback cb = upd_client (\<lambda>cl. cl\<lparr>cl_messageCallback := cb\<rparr>)"

definition TcpClient_setCloseCallback :: "conn_callback \<Rightarrow> 'z client_stmt" where
  "TcpClient_setCloseCallback cb = upd_client (\<lambda>cl. cl\<lparr>cl_closeCallback := Some cb\<rparr>)"

definition TcpClient_connect :: "'z client_exec_fn \<Rightarrow> 'z client_stmt" where
  "TcpClient_connect exec = block
     [upd_client (\<lambda>cl. cl\<lparr>cl_connect := True\<rparr>),
      Connector_start exec]"

definition TcpClient_disconnect :: "'z client_exec_fn \<Rightarrow> 'z client_stmt" where
  "TcpClient_disconnect exec = block
     [upd_client (\<lambda>cl. cl\<lparr>cl_connect := False\<rparr>),
      with_client (\<lambda>cl. case cl_connection cl of
        None \<Rightarrow> skip
      | Some c \<Rightarrow> TcpConnection_shutdown exec c)]"

definition TcpClient_stop :: "'z client_exec_fn \<Rightarrow> 'z client_stmt" where
  "TcpClient_stop exec = block
     [upd_client (\<lambda>cl. cl\<lparr>cl_connect := False\<rparr>),
      Connector_stop exec]"

text \<open>\<open>snprintf\<close> into \<open>buf[32]\<close>: at most 31 characters are kept.\<close>

definition client_conn_name :: "tcp_client \<Rightarrow> string \<Rightarrow> string" where
  "client_conn_name cl ipPort = cl_name cl @ take 31 ('':'' @ ipPort @ ''#'' @ show_nat (cl_nextConnId cl))"

text \<open>\<open>connection_ = conn\<close>: the pointer that is overwritten releases its connection.\<close>

definition set_connection :: "conn_id \<Rightarrow> 'z client_stmt" where
  "set_connection c = with_client (\<lambda>cl. block
     [conn_ref c,
      upd_client (\<lambda>cl. cl\<lparr>cl_connection := Some c\<rparr>),
      (case cl_connection cl of None \<Rightarrow> skip | Some old \<Rightarrow> conn_unref old)])"

definition TcpClient_newConnection :: "'z client_call_fn \<Rightarrow> int \<Rightarrow> 'z client_stmt" where
  "TcpClient_newConnection call sockfd = with_client (\<lambda>cl. block
     [EventLoop_assertInLoopThread (cl_loop cl),
      (case InetAddress_toIpPort (cl_serverAddr cl) of
         Inl e \<Rightarrow> (\<lambda>w. Fault e)
       | Inr ipPort \<Rightarrow> (\<lambda>w.
           case shd (n_client_alloc w) of (c, chan) \<Rightarrow> block
             [modify (\<lambda>w. w\<lparr>n_client_alloc := stl (n_client_alloc w)\<rparr>),
              upd_client (\<lambda>cl. cl\<lparr>cl_nextConnId := Suc (cl_nextConnId cl)\<rparr>),
              TcpConnection_new c chan (cl_loop cl) sockfd (getLocalAddr sockfd w) (cl_serverAddr cl)
                (client_conn_name cl ipPort),
              upd_conn c (\<lambda>k. TcpConnection_setCloseCallback Cb_TcpClient_removeConnection
                (TcpConnection_setMessageCallback (cl_messageCallback cl)
                  (TcpConnection_setConnectionCallback (cl_connectionCallback cl) k))),
              set_connection c,
              TcpConnection_connectEstablished call c,
              conn_unref c] w))])"

definition TcpClient_removeConnection :: "'z client_exec_fn \<Rightarrow> conn_id \<Rightarrow> 'z client_stmt" where
  "TcpClient_removeConnection exec c = with_client (\<lambda>cl. block
     [EventLoop_assertInLoopThread (cl_loop cl),
      with_conn c (\<lambda>k. assertion (\<lambda>w. cl_loop cl = tc_loop k)),
      with_client (\<lambda>cl. assertion (\<lambda>w. cl_connection cl = Some c)),
      upd_client (\<lambda>cl. cl\<lparr>cl_connection := None\<rparr>),
      conn_unref c,
      run_bound exec (cl_loop cl) c (Fn_connectDestroyed c),
      with_client (\<lambda>cl. if cl_retry cl \<and> cl_connect cl then Connector_restart exec else skip)])"

section \<open>Tying the knot\<close>

text \<open>
  What the functors and callbacks of a client program do; \<open>n\<close> bounds the nesting of those
  that run in place and \<open>user\<close> is the behaviour of the callbacks the program installs.
\<close>

fun client_exec :: "'z client_call_fn \<Rightarrow> nat \<Rightarrow> loop_functor \<Rightarrow> 'z client_stmt"
  and client_call :: "'z client_call_fn \<Rightarrow> nat \<Rightarrow> conn_callback \<Rightarrow> conn_id \<Rightarrow> byte list \<Rightarrow> 'z client_stmt" where
  "client_exec user 0 f = (\<lambda>w. Fault DepthExceeded)"
| "client_exec user (Suc n) f = (case f of
     Fn_connectEstablished c \<Rightarrow> TcpConnection_connectEstablished (client_call user n) c
   | Fn_connectDestroyed c \<Rightarrow> TcpConnection_connectDestroyed (client_call user n) c
   | Fn_shutdownInLoop c \<Rightarrow> TcpConnection_shutdownInLoop c
   | Fn_sendInLoop c m \<Rightarrow> TcpConnection_sendInLoop c m
   | Fn_sendInLoopChar c m len \<Rightarrow> TcpConnection_sendInLoopChar c m len
   | Fn_Connector_startInLoop \<Rightarrow> Connector_startInLoop (client_exec user n)
   | Fn_Connector_stopInLoop \<Rightarrow> Connector_stopInLoop (client_exec user n)
   | Fn_Connector_resetChannel \<Rightarrow> Connector_resetChannel
   | _ \<Rightarrow> (\<lambda>w. Fault UndefinedBehaviour))"
| "client_call user 0 cb c buf = (\<lambda>w. Fault DepthExceeded)"
| "client_call user (Suc n) cb c buf = (case cb of
     defaultConnectionCallback \<Rightarrow> skip
   | defaultMessageCallback \<Rightarrow> skip
   | Cb_TcpClient_removeConnection \<Rightarrow> TcpClient_removeConnection (client_exec user n) c
   | _ \<Rightarrow> user cb c buf)"

definition client_fire :: "'z client_call_fn \<Rightarrow> nat \<Rightarrow> callback \<Rightarrow> 'z client_stmt" where
  "client_fire user n cb = (case cb of
     Cb_EventLoop_handleRead l \<Rightarrow> EventLoop_handleRead l
   | Cb_TcpConnection_handleRead c \<Rightarrow> TcpConnection_handleRead (client_call user n) c
   | Cb_TcpConnection_handleWrite c \<Rightarrow> TcpConnection_handleWrite c
   | Cb_TcpConnection_handleClose c \<Rightarrow> TcpConnection_handleClose (client_call user n) c
   | Cb_TcpConnection_handleError c \<Rightarrow> TcpConnection_handleError c
   | Cb_Connector_handleWrite \<Rightarrow> Connector_handleWrite (client_exec user n) (TcpClient_newConnection (client_call user n))
   | Cb_Connector_handleError \<Rightarrow> Connector_handleError (client_exec user n)
   | _ \<Rightarrow> (\<lambda>w. Fault UndefinedBehaviour))"

lemmas client_access = with_client_def upd_client_def

section \<open>A new connection\<close>

text \<open>The connection object as \<open>newConnection\<close> leaves it.\<close>

definition client_conn :: "tcp_client \<Rightarrow> chan_id \<Rightarrow> int \<Rightarrow> sockaddr_in \<Rightarrow> string \<Rightarrow> tcp_connection" where
  "client_conn cl chan fd la ipPort =
     (new_connection chan (cl_loop cl) fd la (cl_serverAddr cl) (client_conn_name cl ipPort))
       \<lparr>tc_connectionCallback := Some (cl_connectionCallback cl), tc_messageCallback := Some (cl_messageCallback cl),
        tc_closeCallback := Some Cb_TcpClient_removeConnection\<rparr>"

lemma client_conn_simps [simp]:
  "tc_loop (client_conn cl chan fd la ipPort) = cl_loop cl" "tc_state (client_conn cl chan fd la ipPort) = kConnecting"
  "tc_channel (client_conn cl chan fd la ipPort) = chan" "tc_socket (client_conn cl chan fd la ipPort) = fd"
  "tc_outputBuffer (client_conn cl chan fd la ipPort) = []" "tc_refs (client_conn cl chan fd la ipPort) = 1"
  "tc_connectionCallback (client_conn cl chan fd la ipPort) = Some (cl_connectionCallback cl)"
  "tc_messageCallback (client_conn cl chan fd la ipPort) = Some (cl_messageCallback cl)"
  "tc_closeCallback (client_conn cl chan fd la ipPort) = Some Cb_TcpClient_removeConnection"
  "tc_name (client_conn cl chan fd la ipPort) = client_conn_name cl ipPort"
  "tc_localAddr (client_conn cl chan fd la ipPort) = la" "tc_peerAddr (client_conn cl chan fd la ipPort) = cl_serverAddr cl"
  by (simp_all add: client_conn_def new_connection_def)

lemma newConnection_prepares:
  assumes cl: "n_client w = Some cl" "cl_connection cl = None"
    and sv: "serves (cl_loop cl) w p" and alloc: "shd (n_client_alloc w) = (c, chan)"
    and ip: "InetAddress_toIpPort (cl_serverAddr cl) = Ok ipPort"
  shows "TcpClient_newConnection call fd w =
    block [TcpConnection_connectEstablished call c, conn_unref c] (w\<lparr>n_client_alloc := stl (n_client_alloc w),
      w_heap := (w_heap w)(chan \<mapsto> (Channel_new (cl_loop cl) fd)\<lparr>
       ch_readCallback := Some (Cb_TcpConnection_handleRead c),
       ch_closeCallback := Some (Cb_TcpConnection_handleClose c),
       ch_writeCallback := Some (Cb_TcpConnection_handleWrite c),
       ch_errorCallback := Some (Cb_TcpConnection_handleError c)\<rparr>),
      n_conns := (n_conns w)(c \<mapsto> (client_conn cl chan fd (getLocalAddr fd w) ipPort)\<lparr>tc_refs := 2\<rparr>),
      n_client := Some (cl\<lparr>cl_nextConnId := Suc (cl_nextConnId cl), cl_connection := Some c\<rparr>)\<rparr>)"
proof -
  have loop: "EventLoop_assertInLoopThread (cl_loop cl) w = Ok w"
    using sv by (auto simp: EventLoop_assertInLoopThread_def loop_access check_def serves_def)
  show ?thesis
    using cl alloc ip loop
    by (simp add: TcpClient_newConnection_def client_access TcpConnection_new_def modify_def conn_access set_connection_def
        conn_ref_def skip_def client_conn_def new_connection_def numeral_2_eq_2 split: sum.splits)
qed

text \<open>Releasing one of two references keeps a connection established.\<close>

lemma unref_established:
  assumes est: "established c w p k ch" and refs: "tc_refs k = 2"
  shows "conn_unref c w = Ok (w\<lparr>n_conns := (n_conns w)(c \<mapsto> k\<lparr>tc_refs := 1\<rparr>)\<rparr>)"
    "established c (w\<lparr>n_conns := (n_conns w)(c \<mapsto> k\<lparr>tc_refs := 1\<rparr>)\<rparr>) p (k\<lparr>tc_refs := 1\<rparr>) ch"
proof -
  have at: "attached c w p k ch" using est by (simp add: established_def)
  show "conn_unref c w = Ok (w\<lparr>n_conns := (n_conns w)(c \<mapsto> k\<lparr>tc_refs := 1\<rparr>)\<rparr>)"
    using conn_unref_keep [OF attachedD(1) [OF at]] refs by simp
  show "established c (w\<lparr>n_conns := (n_conns w)(c \<mapsto> k\<lparr>tc_refs := 1\<rparr>)\<rparr>) p (k\<lparr>tc_refs := 1\<rparr>) ch"
    using attached_upd_conn(2) [OF at, of "\<lambda>k. k\<lparr>tc_refs := 1\<rparr>"] est by (simp add: established_def)
qed

lemma newConnection_ok:
  assumes cl: "n_client w = Some cl" "cl_connection cl = None"
    and sv: "serves (cl_loop cl) w p" and alloc: "shd (n_client_alloc w) = (c, chan)"
    and room: "w_heap w chan = None" "pl_channels p fd = None"
    and call: "call (cl_connectionCallback cl) c [] = skip"
  obtains w' p' ch ipPort where "InetAddress_toIpPort (cl_serverAddr cl) = Ok ipPort"
    "TcpClient_newConnection call fd w = Ok w'"
    "established c w' p' ((client_conn cl chan fd (getLocalAddr fd w) ipPort)\<lparr>tc_state := kConnected\<rparr>) ch"
    "ch_events ch = kReadEvent" "n_connector w' = n_connector w" "k_wire w' = k_wire w"
    "n_client w' = Some (cl\<lparr>cl_nextConnId := Suc (cl_nextConnId cl), cl_connection := Some c\<rparr>)"
    "registered (p', w_heap w') = insert chan (registered (p, w_heap w))"
proof -
  obtain ipPort where ip: "InetAddress_toIpPort (cl_serverAddr cl) = Ok ipPort" by (rule toIpPort_length)
  let ?k = "(client_conn cl chan fd (getLocalAddr fd w) ipPort)\<lparr>tc_refs := 2\<rparr>"
  let ?ch = "(Channel_new (cl_loop cl) fd)\<lparr>
       ch_readCallback := Some (Cb_TcpConnection_handleRead c),
       ch_closeCallback := Some (Cb_TcpConnection_handleClose c),
       ch_writeCallback := Some (Cb_TcpConnection_handleWrite c),
       ch_errorCallback := Some (Cb_TcpConnection_handleError c)\<rparr>"
  let ?v = "w\<lparr>w_heap := (w_heap w)(chan \<mapsto> ?ch)\<rparr>"
  let ?w = "w\<lparr>n_client_alloc := stl (n_client_alloc w), w_heap := (w_heap w)(chan \<mapsto> ?ch), n_conns := (n_conns w)(c \<mapsto> ?k),
      n_client := Some (cl\<lparr>cl_nextConnId := Suc (cl_nextConnId cl), cl_connection := Some c\<rparr>)\<rparr>"
  have "ch_loop ?ch = cl_loop cl" "ch_index ?ch < 0" "pl_channels p (ch_fd ?ch) = None"
    using room by (simp_all add: Channel_new_def)
  note fresh = serves_new_channel [OF sv room(1) this]
  have sv': "serves (cl_loop cl) ?w p" and own: "own_channel (cl_loop cl) ?w p (tc_channel ?k) ?ch"
    using fresh by (simp_all add: serves_def own_channel_def del: updatable.simps)
  show thesis
  proof (rule connectEstablished_eq [OF sv' _ _ _ _ own, of c call], goal_cases)
    case (7 w1 p1 ch1)
    let ?k1 = "?k\<lparr>tc_state := kConnected\<rparr>"
    let ?k2 = "(client_conn cl chan fd (getLocalAddr fd w) ipPort)\<lparr>tc_state := kConnected\<rparr>"
    let ?w2 = "w1\<lparr>n_conns := (n_conns w1)(c \<mapsto> ?k1\<lparr>tc_refs := 1\<rparr>)\<rparr>"
    have k2: "?k1\<lparr>tc_refs := 1\<rparr> = ?k2" by (simp add: client_conn_def new_connection_def)
    have at: "attached c w1 p1 ?k1 ch1" using 7(2) by (simp add: established_def)
    have "TcpConnection_connectEstablished call c ?w = Ok w1"
      using 7(1) call pinned_skip [OF attachedD(1) [OF at]] by (simp add: call_opt_def)
    then have run: "TcpClient_newConnection call fd w = Ok ?w2"
      unfolding newConnection_prepares [OF cl sv alloc ip] using unref_established(1) [OF 7(2)] by simp
    have refs: "tc_refs ?k1 = 2" by simp
    have est: "established c ?w2 p1 ?k2 ch1" using unref_established(2) [OF 7(2) refs] by (simp only: k2)
    show thesis
    proof (rule that [OF ip run est 7(3)])
      show "n_connector ?w2 = n_connector w" "k_wire ?w2 = k_wire w"
        "n_client ?w2 = Some (cl\<lparr>cl_nextConnId := Suc (cl_nextConnId cl), cl_connection := Some c\<rparr>)"
        by (subst 7(4), simp)+
      show "registered (p1, w_heap ?w2) = insert chan (registered (p, w_heap w))"
        using 7(5) fresh(3) by (simp del: registered.simps)
    qed
  qed (simp_all add: Channel_new_def kNoneEvent_def)
qed

section \<open>Removal\<close>

text \<open>
  The removal of a closed connection in its own loop, up to the test for a retry: the client's
  pointer goes, the channel leaves the poller, and the references of the callers are left.
\<close>

definition after_removal :: "conn_id \<Rightarrow> tcp_connection \<Rightarrow> nat \<Rightarrow> callback channel \<Rightarrow> poller \<Rightarrow> loop_functor eventloop \<Rightarrow>
    tcp_client \<Rightarrow> 'z client_net_scheme \<Rightarrow> 'z client_net_scheme" where
  "after_removal c k r ch p el cl w = w\<lparr>
     w_heap := (w_heap w)(tc_channel k \<mapsto> ch\<lparr>ch_addedToLoop := False, ch_index := -1\<rparr>),
     w_loops := (w_loops w)(tc_loop k \<mapsto> el\<lparr>el_poller := Some (without ch p)\<rparr>),
     n_client := Some (cl\<lparr>cl_connection := None\<rparr>), n_conns := (n_conns w)(c \<mapsto> k\<lparr>tc_refs := r\<rparr>)\<rparr>"

lemma removeConnection_eq:
  assumes at: "attached c w p k ch" and st: "tc_state k = kDisconnected" "ch_events ch = kNoneEvent" "tc_refs k = Suc (Suc r)"
    and cl: "n_client w = Some cl" "cl_loop cl = tc_loop k" "cl_connection cl = Some c"
    and el: "w_loops w (tc_loop k) = Some el"
    and exec: "exec (Fn_connectDestroyed c) = TcpConnection_connectDestroyed call c"
  shows "TcpClient_removeConnection exec c w =
    (if cl_retry cl \<and> cl_connect cl then Connector_restart exec else skip) (after_removal c k (Suc r) ch p el cl w)"
proof -
  note d = attachedD [OF at]
  let ?cl = "cl\<lparr>cl_connection := None\<rparr>"
  let ?k = "\<lambda>r. k\<lparr>tc_refs := r\<rparr>"
  let ?w = "\<lambda>r. w\<lparr>n_client := Some ?cl, n_conns := (n_conns w)(c \<mapsto> ?k r)\<rparr>"
  have thread: "el_threadId el = w_thread w" using d(2) el by (auto simp: serves_def)
  have loop: "EventLoop_isInLoopThread (tc_loop k) v" "EventLoop_assertInLoopThread (tc_loop k) v = Ok v"
    if "w_loops v = w_loops w" "w_thread v = w_thread w" for v :: "'a client_net_scheme"
    using that el thread
    by (simp_all add: EventLoop_isInLoopThread_def EventLoop_assertInLoopThread_def loop_access check_def)
  have "attached c (w\<lparr>n_conns := (n_conns w)(c \<mapsto> ?k (Suc (Suc r)))\<rparr>) p (?k (Suc (Suc r))) ch"
    using attached_upd_conn(2) [OF at, of "tc_refs_update (\<lambda>_. Suc (Suc r))"] by simp
  then have "attached c (?w (Suc (Suc r))) p (?k (Suc (Suc r))) ch" by (rule attached_kernel) simp_all
  from connectDestroyed_closed [OF this, of el call]
  have gone: "TcpConnection_connectDestroyed call c (?w (Suc (Suc r))) = Ok (after_removal c k (Suc (Suc r)) ch p el cl w)"
    using st el by (simp add: after_removal_def without_def)
  have unref: "conn_unref c (after_removal c k (Suc (Suc r)) ch p el cl w) = Ok (after_removal c k (Suc r) ch p el cl w)"
    using conn_unref_keep [of "after_removal c k (Suc (Suc r)) ch p el cl w" c "?k (Suc (Suc r))"]
    by (simp add: after_removal_def)
  have destroyed: "run_bound exec (tc_loop k) c (Fn_connectDestroyed c) (?w (Suc r)) = Ok (after_removal c k (Suc r) ch p el cl w)"
    using loop(1) [of "?w (Suc r)"] pinned_eq [of "?w (Suc r)" c "?k (Suc r)"] gone unref exec
    by (simp add: run_bound_def)
  have first: "conn_unref c (w\<lparr>n_client := Some ?cl\<rparr>) = Ok (?w (Suc r))"
    using conn_unref_keep [of "w\<lparr>n_client := Some ?cl\<rparr>" c k] d(1) st(3) by simp
  have cl': "n_client (after_removal c k (Suc r) ch p el cl w) = Some ?cl" by (simp add: after_removal_def)
  show ?thesis
    using cl d(1) loop(2) [of w] first destroyed cl'
    by (simp add: TcpClient_removeConnection_def client_access with_conn_def assertion_def check_def split: sum.splits)
qed

text \<open>Without a retry, the pinned removal of the last reference destroys the connection.\<close>

lemma removeConnection_destroys:
  assumes at: "attached c w p k ch" and st: "tc_state k = kDisconnected" "ch_events ch = kNoneEvent" "tc_refs k = 1"
    and cl: "n_client w = Some cl" "cl_loop cl = tc_loop k" "cl_connection cl = Some c" "\<not> (cl_retry cl \<and> cl_connect cl)"
    and exec: "exec (Fn_connectDestroyed c) = TcpConnection_connectDestroyed call c"
  shows "\<exists>w'. pinned c (TcpClient_removeConnection exec c) w = Ok w' \<and> n_conns w' c = None \<and>
    w_heap w' (tc_channel k) = None \<and> k_closed w' = k_closed w @ [tc_socket k] \<and>
    n_client w' = Some (cl\<lparr>cl_connection := None\<rparr>)"
proof -
  obtain el where el: "w_loops w (tc_loop k) = Some el" using at by (auto simp: attached_def serves_def)
  let ?k = "k\<lparr>tc_refs := 2\<rparr>"
  let ?w = "w\<lparr>n_conns := (n_conns w)(c \<mapsto> ?k)\<rparr>"
  let ?v = "after_removal c ?k 1 ch p el cl ?w"
  have at2: "attached c ?w p ?k ch"
    using attached_upd_conn(2) [OF at, of "tc_refs_update (\<lambda>_. 2)"] by simp
  have removed: "TcpClient_removeConnection exec c ?w = Ok ?v"
    using removeConnection_eq [OF at2, of 0 cl el exec call] st cl el exec by (simp add: skip_def numeral_2_eq_2)
  have "pinned c (TcpClient_removeConnection exec c) w = conn_unref c ?v"
    using pinned_eq [OF attachedD(1) [OF at]] removed st(3) by (simp add: numeral_2_eq_2)
  also have "\<dots> = Ok (?v\<lparr>w_heap := (w_heap ?v)(tc_channel k := None), n_conns := (n_conns ?v)(c := None),
      k_closed := k_closed ?v @ [tc_socket k]\<rparr>)"
    using conn_unref_last [of ?v c "k\<lparr>tc_refs := 1\<rparr>"] by (simp add: after_removal_def)
  finally show ?thesis by (simp add: after_removal_def)
qed

section \<open>Properties\<close>

text \<open>
  C22. From a writable descriptor to a connection: when the pending connect of a client
  completes, the connector's channel leaves the poller, the connector is connected and
  the client holds the only reference to an established connection on the same descriptor,
  polled for reading. The connection has the client's name, followed by up to 31 characters
  of the colon, the server's address, the number sign and the running number, the local address
  that the system reports, the server's address as its peer, and the client's callbacks. The
  freed channel's address may be used again. The client has had no connection before, and its
  connection callback is the default one.
\<close>

theorem client_connects:
  assumes cn: "n_connector w = Some cn" "cn_channel cn = Some d" "cn_state cn = Connector_kConnecting"
      "cn_connect cn" "cn_newConnectionCallback cn" "cn_loop cn = cl_loop cl"
    and cl: "n_client w = Some cl" "cl_connection cl = None" "cl_connectionCallback cl = defaultConnectionCallback"
    and sv: "serves (cl_loop cl) w p" and ch: "w_heap w d = Some ch" "ch_loop ch = cl_loop cl"
      "pl_channels p (ch_fd ch) = Some d" "ch_index ch = int (length (pl_pollfds p)) - 1"
    and alloc: "shd (n_client_alloc w) = (c, chan)" "w_heap w chan = None \<or> chan = d"
  shows "\<exists>w' p' k ch'. client_fire user (Suc n) Cb_Connector_handleWrite w = Ok w' \<and>
    established c w' p' k ch' \<and> tc_state k = kConnected \<and> tc_socket k = ch_fd ch \<and> tc_refs k = 1 \<and>
    ch_events ch' = kReadEvent \<and>
    (\<exists>ipPort. InetAddress_toIpPort (cl_serverAddr cl) = Ok ipPort \<and>
      tc_name k = cl_name cl @ take 31 ('':'' @ ipPort @ ''#'' @ show_nat (cl_nextConnId cl))) \<and>
    tc_localAddr k = getLocalAddr (ch_fd ch) w \<and> tc_peerAddr k = cl_serverAddr cl \<and>
    tc_connectionCallback k = Some (cl_connectionCallback cl) \<and> tc_messageCallback k = Some (cl_messageCallback cl) \<and>
    tc_closeCallback k = Some Cb_TcpClient_removeConnection \<and>
    n_connector w' = Some (cn\<lparr>cn_channel := None, cn_state := Connector_kConnected\<rparr>) \<and>
    n_client w' = Some (cl\<lparr>cl_nextConnId := Suc (cl_nextConnId cl), cl_connection := Some c\<rparr>) \<and>
    registered (p', w_heap w') = insert chan (registered (p, w_heap w) - {d})"
proof -
  obtain el where el: "w_loops w (cl_loop cl) = Some el" using sv by (auto simp: serves_def)
  let ?u = "w\<lparr>w_heap := (w_heap w)(d := None), w_loops := (w_loops w)(cl_loop cl \<mapsto> el\<lparr>el_poller := Some (without ch p)\<rparr>)\<rparr>"
  let ?v = "?u\<lparr>n_connector := Some (cn\<lparr>cn_channel := None, cn_state := Connector_kConnected\<rparr>)\<rparr>"
  have exec: "client_exec user (Suc n) Fn_Connector_resetChannel = Connector_resetChannel" by simp
  have run: "client_fire user (Suc n) Cb_Connector_handleWrite w =
      TcpClient_newConnection (client_call user (Suc n)) (ch_fd ch) ?v"
    using Connector_handleWrite_eq [where w = w and cn = cn and c = d and p = p and ch = ch and el = el
        and exec = "client_exec user (Suc n)" and newConnection = "TcpClient_newConnection (client_call user (Suc n))"]
      cn sv ch el exec by (simp add: client_fire_def)
  have sv': "serves (cl_loop cl) ?v (without ch p)"
    using serves_without [OF sv ch(1,3,4) el] by (simp add: serves_def)
  have ok: "poller_ok (p, w_heap w)" using sv by (simp add: serves_def)
  have c1: "n_client ?v = Some cl" using cl by simp
  have c2: "shd (n_client_alloc ?v) = (c, chan)" "w_heap ?v chan = None" "pl_channels (without ch p) (ch_fd ch) = None"
    "client_call user (Suc n) (cl_connectionCallback cl) c [] = skip"
    using alloc cl by (auto simp: without_def)
  obtain w' p' ch' ipPort where ip: "InetAddress_toIpPort (cl_serverAddr cl) = Ok ipPort"
    and w': "TcpClient_newConnection (client_call user (Suc n)) (ch_fd ch) ?v = Ok w'"
    "established c w' p' ((client_conn cl chan (ch_fd ch) (getLocalAddr (ch_fd ch) ?v) ipPort)\<lparr>tc_state := kConnected\<rparr>) ch'"
    "ch_events ch' = kReadEvent" "n_connector w' = n_connector ?v"
    "n_client w' = Some (cl\<lparr>cl_nextConnId := Suc (cl_nextConnId cl), cl_connection := Some c\<rparr>)"
    "registered (p', w_heap w') = insert chan (registered (without ch p, w_heap ?v))"
    by (rule newConnection_ok [where w = ?v and call = "client_call user (Suc n)", OF c1 cl(2) sv' c2])
  have "registered (p', w_heap w') = insert chan (registered (p, w_heap w) - {d})"
    using w'(6) registered_without [OF ok ch(1,3)] by (simp del: registered.simps)
  moreover have "getLocalAddr (ch_fd ch) ?v = getLocalAddr (ch_fd ch) w" by (simp add: getLocalAddr_def)
  ultimately show ?thesis
    using run w' ip by (intro exI [of _ w'] exI [of _ p'] exI conjI)
      (auto simp: client_conn_name_def simp del: registered.simps)
qed

text \<open>A client on loop \<open>4\<close>, over the worlds of theory Connector.\<close>

definition example_client :: tcp_client where
  "example_client = \<lparr>cl_loop = 4, cl_name = ''c'', cl_connection = None,
     cl_connectionCallback = defaultConnectionCallback, cl_messageCallback = defaultMessageCallback,
     cl_closeCallback = None, cl_retry = False, cl_connect = True, cl_nextConnId = 1, cl_serverAddr = InetAddress_any 90\<rparr>"

definition client_world :: "tcp_client \<Rightarrow> connector \<Rightarrow> net \<Rightarrow> client_net" where
  "client_world cl cn w = connector_net.extend (connector_world cn w)
     (client_net.fields (Some cl) (sconst (1, 8)) (\<lambda>_. None))"

lemma client_world_simps [simp]:
  "n_client (client_world cl cn w) = Some cl" "n_connector (client_world cl cn w) = Some cn"
  "w_heap (client_world cl cn w) = w_heap w" "w_loops (client_world cl cn w) = w_loops w"
  "w_thread (client_world cl cn w) = w_thread w" "n_conns (client_world cl cn w) = n_conns w"
  "k_reads (client_world cl cn w) = k_reads w" "n_client_alloc (client_world cl cn w) = sconst (1, 8)"
  by (simp_all add: client_world_def connector_world_def net.defs connector_net.defs client_net.defs)

theorem client_connects_witness:
  "\<exists>w' p' k ch'. client_fire (\<lambda>_ _ _. skip) 1 Cb_Connector_handleWrite
      (client_world example_client writable_connector writable_net) = Ok w' \<and>
    established 1 w' p' k ch' \<and> tc_socket k = 7 \<and> tc_peerAddr k = InetAddress_any 90 \<and> (\<exists>cl. n_client w' = Some cl \<and> cl_connection cl = Some 1) \<and>
    registered (p', w_heap w') = {8}"
proof -
  let ?w = "client_world example_client writable_connector writable_net"
  let ?p = "(PollPoller_new 4)\<lparr>pl_pollfds := [new_pollfd writable_channel], pl_channels := [7 \<mapsto> 3]\<rparr>"
  have sv: "serves (cl_loop example_client) ?w ?p"
    using writable_net_serves(1) by (simp add: serves_def example_client_def)
  have reg: "registered (?p, w_heap ?w) - {3} = {}"
    by auto
  have "\<exists>w' p' k ch'. client_fire (\<lambda>_ _ _. skip) (Suc 0) Cb_Connector_handleWrite ?w = Ok w' \<and>
    established 1 w' p' k ch' \<and> tc_state k = kConnected \<and> tc_socket k = ch_fd writable_channel \<and> tc_refs k = 1 \<and>
    ch_events ch' = kReadEvent \<and>
    (\<exists>ipPort. InetAddress_toIpPort (cl_serverAddr example_client) = Ok ipPort \<and>
      tc_name k = cl_name example_client @ take 31 ('':'' @ ipPort @ ''#'' @ show_nat (cl_nextConnId example_client))) \<and>
    tc_localAddr k = getLocalAddr (ch_fd writable_channel) ?w \<and> tc_peerAddr k = cl_serverAddr example_client \<and>
    tc_connectionCallback k = Some (cl_connectionCallback example_client) \<and>
    tc_messageCallback k = Some (cl_messageCallback example_client) \<and>
    tc_closeCallback k = Some Cb_TcpClient_removeConnection \<and>
    n_connector w' = Some (writable_connector\<lparr>cn_channel := None, cn_state := Connector_kConnected\<rparr>) \<and>
    n_client w' = Some (example_client\<lparr>cl_nextConnId := Suc (cl_nextConnId example_client), cl_connection := Some 1\<rparr>) \<and>
    registered (p', w_heap w') = insert 8 (registered (?p, w_heap ?w) - {3})"
    by (rule client_connects [OF _ _ _ _ _ _ _ _ _ sv])
      (simp_all add: example_client_def writable_connector_def example_connector_def writable_channel_def
        connector_channel_def Channel_new_def)
  moreover have "cl_serverAddr example_client = InetAddress_any 90" by (simp add: example_client_def)
  moreover have "ch_fd writable_channel = 7"
    by (simp add: writable_channel_def connector_channel_def Channel_new_def)
  ultimately show ?thesis unfolding reg One_nat_def by fastforce
qed

text \<open>
  C32. A client destroys its connection inside the connection's own event: when the peer
  closes a connection to which only the client's pointer refers, and the client is not to connect
  again, the removal runs to its end in place, the last reference goes with the close
  callback, and \<open>Channel::handleEvent\<close> continues on the destroyed channel.
\<close>

theorem client_close_uses_freed_channel:
  assumes at: "attached c w p k ch" and st: "tc_state k = kConnected \<or> tc_state k = kDisconnecting" "tc_refs k = 1"
    and cl: "n_client w = Some cl" "cl_loop cl = tc_loop k" "cl_connection cl = Some c" "\<not> (cl_retry cl \<and> cl_connect cl)"
    and cb: "tc_closeCallback k = Some Cb_TcpClient_removeConnection"
    and ch: "ch_revents ch = POLLIN" "ch_readCallback ch = Some (Cb_TcpConnection_handleRead c)"
    and eof: "shd (k_reads w) = Some []"
  shows "Channel_handleEvent (client_fire user (Suc (Suc n))) (tc_channel k) w = Fault UseAfterFree"
proof -
  let ?ch1 = "ch\<lparr>ch_handlingEvent := True\<rparr>"
  let ?w1 = "w\<lparr>w_heap := (w_heap w)(tc_channel k \<mapsto> ?ch1)\<rparr>"
  let ?call = "client_call user (Suc (Suc n))"
  have at1: "attached c ?w1 p k ?ch1" by (rule attached_chan_field [OF at]) simp_all
  have eof1: "shd (k_reads ?w1) = Some []" using eof by simp
  obtain w' where w': "TcpConnection_handleRead ?call c ?w1 = Ok w'" "w_heap w' (tc_channel k) = None"
  proof (rule handleRead_eof [OF at1 st(1) eof1, of ?call], goal_cases)
    case (1 w2 p2 i)
    have cl2: "n_client w2 = Some cl" using cl(1) by (subst 1(4)) simp
    obtain w' where "pinned c (TcpClient_removeConnection (client_exec user (Suc n)) c) w2 = Ok w'"
      "w_heap w' (tc_channel k) = None"
      using removeConnection_destroys [OF 1(3), of cl "client_exec user (Suc n)" "client_call user n"] st(2) cl(2,3,4) cl2
      by auto
    with 1(1,2) cb show ?thesis by (simp add: call_opt_def)
  qed
  show ?thesis
    by (rule handleEvent_destroyed [OF attachedD(5) [OF at] _ ch, of _ w'])
      (use ch w' in \<open>simp_all add: client_fire_def has_revents_def poll_flags\<close>)
qed

text \<open>The example connection, held by a client, with its peer gone.\<close>

definition lost_net :: "conn_state \<Rightarrow> 32 word \<Rightarrow> 32 word \<Rightarrow> nat \<Rightarrow> net" where
  "lost_net st events revents refs = (example_net kConnected [] (sconst 1))
     \<lparr>w_heap := [3 \<mapsto> (example_channel [])\<lparr>ch_events := events, ch_revents := revents\<rparr>],
      n_conns := [0 \<mapsto> (example_conn st [])\<lparr>tc_closeCallback := Some Cb_TcpClient_removeConnection, tc_refs := refs\<rparr>],
      k_reads := sconst (Some [])\<rparr>"

lemma lost_net_attached:
  "attached 0 (client_world cl cn (lost_net st events revents refs)) (example_conn_poller [])
     ((example_conn st [])\<lparr>tc_closeCallback := Some Cb_TcpClient_removeConnection, tc_refs := refs\<rparr>)
     ((example_channel [])\<lparr>ch_events := events, ch_revents := revents\<rparr>)"
proof -
  let ?ch = "(example_channel [])\<lparr>ch_events := events, ch_revents := revents\<rparr>"
  let ?w = "example_net kConnected [] (sconst 1)"
  have at: "attached 0 ?w (example_conn_poller []) (example_conn kConnected []) (example_channel [])"
    using example_established unfolding established_def by blast
  have "attached 0 (?w\<lparr>w_heap := (w_heap ?w)(tc_channel (example_conn kConnected []) \<mapsto> ?ch)\<rparr>)
      (example_conn_poller []) (example_conn kConnected []) ?ch"
    by (rule attached_chan_field [OF at]) simp_all
  then show ?thesis
    by (auto simp: attached_def serves_def own_channel_def lost_net_def
        simp del: registered.simps updatable.simps)
qed

theorem client_close_uses_freed_channel_witness:
  "Channel_handleEvent (client_fire (\<lambda>_ _ _. skip) 2) 3
     (client_world (example_client\<lparr>cl_connection := Some 0\<rparr>) example_connector (lost_net kConnected kReadEvent POLLIN 1)) =
   Fault UseAfterFree"
proof -
  let ?k = "(example_conn kConnected [])\<lparr>tc_closeCallback := Some Cb_TcpClient_removeConnection, tc_refs := 1\<rparr>"
  have "Channel_handleEvent (client_fire (\<lambda>_ _ _. skip) (Suc (Suc 0))) (tc_channel ?k)
     (client_world (example_client\<lparr>cl_connection := Some 0\<rparr>) example_connector (lost_net kConnected kReadEvent POLLIN 1)) =
   Fault UseAfterFree"
    by (rule client_close_uses_freed_channel [OF lost_net_attached, where cl = "example_client\<lparr>cl_connection := Some 0\<rparr>"])
      (simp_all add: example_client_def example_channel_def lost_net_def)
  then show ?thesis by (simp add: numeral_2_eq_2)
qed

text \<open>
  C24. A lost connection is replaced: with retrying enabled, the removal of a closed connection, to
  which more than the client's pointer refers and whose channel is the last of the poller's array,
  starts the connector again, with the initial delay; when the new \<open>connect\<close> is in progress, on a
  descriptor that is not polled, the old channel has left the poller and the new attempt's channel is
  polled instead.
\<close>

theorem lost_connection_is_retried:
  assumes at: "attached c w p k ch" and st: "tc_state k = kDisconnected" "ch_events ch = kNoneEvent" "tc_refs k = Suc (Suc r)"
    and cl: "n_client w = Some cl" "cl_loop cl = tc_loop k" "cl_connection cl = Some c" "cl_retry cl" "cl_connect cl"
    and cn: "n_connector w = Some cn" "cn_loop cn = tc_loop k" "cn_channel cn = None"
    and last: "ch_index ch = int (length (pl_pollfds p)) - 1"
    and connect: "shd (k_connects w) = (fd, EINPROGRESS)" "shd (k_channels w) = chan" "w_heap w chan = None"
      "pl_channels p fd = None"
  shows "\<exists>w' p'. TcpClient_removeConnection (client_exec user (Suc n)) c w = Ok w' \<and>
    n_connector w' = Some (cn\<lparr>cn_state := Connector_kConnecting, cn_retryDelayMs := kInitRetryDelayMs,
      cn_connect := True, cn_channel := Some chan\<rparr>) \<and>
    serves (tc_loop k) w' p' \<and> registered (p', w_heap w') = insert chan (registered (p, w_heap w) - {tc_channel k})"
proof -
  note d = attachedD [OF at]
  obtain el where el: "w_loops w (tc_loop k) = Some el" using d(2) by (auto simp: serves_def)
  let ?v = "after_removal c k (Suc r) ch p el cl w"
  let ?cn = "cn\<lparr>cn_state := Connector_kDisconnected, cn_retryDelayMs := kInitRetryDelayMs, cn_connect := True\<rparr>"
  let ?u = "?v\<lparr>n_connector := Some ?cn\<rparr>"
  let ?w = "?u\<lparr>k_socks := sys_socket fd (k_socks ?u), k_connects := stl (k_connects ?u)\<rparr>"
  have fd: "pl_channels p (ch_fd ch) = Some (tc_channel k)" using d(5,6) by auto
  note removed = serves_removed [OF d(2,5) fd last el]
  have sv: "serves (tc_loop k) ?v (without ch p)" using removed(1) by (simp add: after_removal_def serves_def)
  have reg: "registered (without ch p, w_heap ?w) = registered (p, w_heap w) - {tc_channel k}"
    using removed(2) by (simp add: after_removal_def del: registered.simps)
  have loop: "EventLoop_assertInLoopThread (tc_loop k) ?v = Ok ?v" "EventLoop_isInLoopThread (tc_loop k) ?u"
    using sv by (auto simp: EventLoop_assertInLoopThread_def EventLoop_isInLoopThread_def loop_access check_def serves_def)
  have cnv: "n_connector ?v = Some cn" using cn by (simp add: after_removal_def)
  have ready: "connector_ready ?u ?cn" using loop(2) cn(2) by (simp add: connector_ready_def)
  have "TcpClient_removeConnection (client_exec user (Suc n)) c w = Connector_restart (client_exec user (Suc n)) ?v"
    using removeConnection_eq [OF at st cl(1,2,3) el, of "client_exec user (Suc n)" "client_call user n"] cl(4,5) by simp
  also have "\<dots> = Connector_startInLoop (client_exec user (Suc n)) ?u"
    using loop(1) cnv cn(2)
    by (simp add: Connector_restart_def Connector_assertInLoopThread_def Connector_setState_def connector_access split: sum.splits)
  also have "\<dots> = Connector_connecting fd ?w"
    unfolding startInLoop_ready [OF ready] using connect(1) by (simp add: Connector_connect_def after_removal_def)
  finally have run: "TcpClient_removeConnection (client_exec user (Suc n)) c w = Connector_connecting fd ?w" .
  have c1: "n_connector ?w = Some ?cn" "cn_channel ?cn = None" using cn by simp_all
  have c2: "serves (cn_loop ?cn) ?w (without ch p)" using sv cn(2) by (simp add: serves_def)
  have "chan \<noteq> tc_channel k" using connect(3) d(5) by auto
  then have c3: "w_heap ?w (shd (k_channels ?w)) = None" "pl_channels (without ch p) fd = None" "shd (k_channels ?w) = chan"
    using connect by (simp_all add: after_removal_def without_def)
  show ?thesis
  proof (rule connecting_ok [OF c1 c2 c3(1,2)], goal_cases)
    case (1 w' p' i)
    show ?case
      using run 1(1,2,3,5) cn(2) reg c3(3)
      by (intro exI [of _ w'] exI [of _ p']) (simp del: registered.simps)
  qed
qed

theorem lost_connection_is_retried_witness:
  "\<exists>w' p'. TcpClient_removeConnection (client_exec (\<lambda>_ _ _. skip) 1) 0
     ((client_world (example_client\<lparr>cl_connection := Some 0, cl_retry := True\<rparr>) example_connector
        (lost_net kDisconnected kNoneEvent 0 2))\<lparr>k_connects := sconst (30, EINPROGRESS), k_channels := sconst 9\<rparr>) = Ok w' \<and>
    (\<exists>cn. n_connector w' = Some cn \<and> cn_state cn = Connector_kConnecting \<and> cn_channel cn = Some 9) \<and>
    registered (p', w_heap w') = {9}"
proof -
  let ?k = "(example_conn kDisconnected [])\<lparr>tc_closeCallback := Some Cb_TcpClient_removeConnection, tc_refs := 2\<rparr>"
  let ?ch = "(example_channel [])\<lparr>ch_events := kNoneEvent, ch_revents := 0\<rparr>"
  let ?cl = "example_client\<lparr>cl_connection := Some 0, cl_retry := True\<rparr>"
  let ?v = "client_world ?cl example_connector (lost_net kDisconnected kNoneEvent 0 2)"
  let ?w = "?v\<lparr>k_connects := sconst (30, EINPROGRESS), k_channels := sconst 9\<rparr>"
  have at: "attached 0 ?w (example_conn_poller []) ?k ?ch"
    by (rule attached_kernel [OF lost_net_attached]) simp_all
  have reg: "registered (example_conn_poller [], w_heap ?w) - {tc_channel ?k} = {}"
    by (auto simp: lost_net_def)
  have "\<exists>w' p'. TcpClient_removeConnection (client_exec (\<lambda>_ _ _. skip) (Suc 0)) 0 ?w = Ok w' \<and>
    n_connector w' = Some (example_connector\<lparr>cn_state := Connector_kConnecting, cn_retryDelayMs := kInitRetryDelayMs,
      cn_connect := True, cn_channel := Some 9\<rparr>) \<and>
    serves (tc_loop ?k) w' p' \<and>
    registered (p', w_heap w') = insert 9 (registered (example_conn_poller [], w_heap ?w) - {tc_channel ?k})"
    by (rule lost_connection_is_retried [OF at, where r = 0 and fd = 30 and cl = ?cl])
      (simp_all add: example_client_def example_connector_def example_channel_def lost_net_def example_conn_poller_def
        PollPoller_new_def)
  then show ?thesis unfolding reg One_nat_def by fastforce
qed

end
