(* ===== verification/RPC_Client.thy ===== *)
theory RPC_Client
  imports TcpClient EventLoopThreadPool CodecProperties
begin

text \<open>
  \<open>RPC_Client.h\<close>: remote calls over a client connection. A caller's thread sends a packed
  call and waits on a condition variable; the loop's thread collects the response in
  \<open>onMessage\<close>. The world gets the members of the client object and the pending notification
  of the condition variable. While the caller waits, the loop's thread makes the steps of a
  given list; the caller looks at the predicate again after a step that notified it.
\<close>

section \<open>State and operations\<close>

record 'j rpc_client_net = client_net +
  rc_loop :: loop_id
  rc_serverAddr :: sockaddr_in
  rc_codec :: "'j codec"
  rc_conn :: "conn_id option"
  rc_readBuffer :: "byte list"
  rc_read_bytes :: "32 word"
  rc_notified :: bool

type_synonym ('j, 'z) rc_stmt = "('j, 'z) rpc_client_net_scheme stmt"
type_synonym ('j, 'z) rc_exec = "loop_functor \<Rightarrow> ('j, 'z) rc_stmt"

text \<open>
  The constructor, after \<open>new EventLoop\<close> gave the loop. The members are initialised in the
  order of their declarations: \<open>client_\<close> copies \<open>serverAddr_\<close> before that is initialised,
  \<open>memory\<close> is what the object's storage holds there.
\<close>

definition RPC_Client_new :: "'j json_api \<Rightarrow> (string \<Rightarrow> 32 word option) \<Rightarrow> loop_id \<Rightarrow> sockaddr_in \<Rightarrow> string \<Rightarrow> 16 word \<Rightarrow>
    ('j, 'z) rc_stmt" where
  "RPC_Client_new api inet_aton loop memory ip port = block
     [TcpClient_new loop memory ''RPC Client'',
      modify (\<lambda>w. w\<lparr>rc_loop := loop, rc_serverAddr := InetAddress_ip inet_aton ip port,
        rc_codec := Codec_new api, rc_conn := None, rc_readBuffer := [], rc_read_bytes := 0, rc_notified := False\<rparr>),
      TcpClient_setConnectionCallback Cb_RPC_Client_onConnection]"

definition RPC_Client_connect :: "('j, 'z) rc_exec \<Rightarrow> ('j, 'z) rc_stmt" where
  "RPC_Client_connect exec = TcpClient_connect exec"

definition RPC_Client_onConnection :: "conn_id \<Rightarrow> ('j, 'z) rc_stmt" where
  "RPC_Client_onConnection c = (\<lambda>w. block
     [conn_ref c,
      modify (\<lambda>w. w\<lparr>rc_conn := Some c\<rparr>),
      (case rc_conn w of None \<Rightarrow> skip | Some old \<Rightarrow> conn_unref old)] w)"

definition RPC_Client_onMessage :: "bool \<Rightarrow> byte list \<Rightarrow> ('j, 'z) rc_stmt" where
  "RPC_Client_onMessage char_signed buf w =
     (if rc_read_bytes w = 0 then
        (if length buf < 4 then Ok w
         else Ok (w\<lparr>rc_read_bytes := header_length char_signed buf,
                    rc_readBuffer := rc_readBuffer w @ drop 4 buf\<rparr>))
      else block
        [modify (\<lambda>w. w\<lparr>rc_readBuffer := rc_readBuffer w @ buf\<rparr>),
         if_then (\<lambda>w. length (rc_readBuffer w) = unat (rc_read_bytes w)) (modify (\<lambda>w. w\<lparr>rc_notified := True\<rparr>))] w)"

text \<open>The predicate of the wait, and the wait over the steps of the loop's thread.\<close>

definition RPC_Client_ready :: "('j, 'z) rpc_client_net_scheme \<Rightarrow> bool" where
  "RPC_Client_ready w \<longleftrightarrow> rc_read_bytes w \<noteq> 0 \<and> unat (rc_read_bytes w) = length (rc_readBuffer w)"

primrec wait_notified :: "('j, 'z) rc_stmt list \<Rightarrow> ('j, 'z) rc_stmt" where
  "wait_notified [] w = Fault Blocked"
| "wait_notified (e # es) w = (case e (w\<lparr>rc_notified := False\<rparr>) of
     Inl f \<Rightarrow> Inl f
   | Inr w' \<Rightarrow> if rc_notified w' \<and> RPC_Client_ready w' then Ok w' else wait_notified es w')"

definition RPC_Client_wait :: "('j, 'z) rc_stmt list \<Rightarrow> ('j, 'z) rc_stmt" where
  "RPC_Client_wait events w = (if RPC_Client_ready w then Ok w else wait_notified events w)"

definition RPC_Client_send_call :: "'j json_api \<Rightarrow> ('j, 'z) rc_exec \<Rightarrow> byte list \<Rightarrow> 'j list \<Rightarrow> conn_id \<Rightarrow> ('j, 'z) rc_stmt" where
  "RPC_Client_send_call api exec func_name args c w =
     (let (packed_args, cd) = Codec_pack_args api func_name args (rc_codec w); bytes = Codec_cal_headers packed_args in
      block
        [modify (\<lambda>w. w\<lparr>rc_codec := cd\<rparr>),
         TcpConnection_sendChar exec c bytes 4,
         TcpConnection_send exec c packed_args] w)"

text \<open>
  \<open>call<T>\<close>: the returned pair, the new value of \<open>msg\<close> and the world. The loop's thread makes the
  steps \<open>early\<close> after the call is sent and before the caller takes the mutex, and \<open>events\<close> while
  the caller waits.
\<close>

definition RPC_Client_call :: "'j json_api \<Rightarrow> ('j \<Rightarrow> 't option) \<Rightarrow> 't \<Rightarrow> ('j, 'z) rc_exec \<Rightarrow> ('j, 'z) rc_stmt list \<Rightarrow>
    ('j, 'z) rc_stmt list \<Rightarrow> byte list \<Rightarrow> byte list \<Rightarrow> 'j list \<Rightarrow> ('j, 'z) rpc_client_net_scheme \<Rightarrow>
    ((('t \<times> bool) \<times> byte list) \<times> ('j, 'z) rpc_client_net_scheme) res" where
  "RPC_Client_call api conv empty_val exec early events msg func_name args w = (case rc_conn w of
     None \<Rightarrow> Ok (((empty_val, False), lit ''Connection not established''), w)
   | Some c \<Rightarrow>
       (case block [RPC_Client_send_call api exec func_name args c, block early, RPC_Client_wait events] w of
          Inl e \<Rightarrow> Fault e
        | Inr w' \<Rightarrow> (case Codec_unpack_result api conv empty_val (rc_readBuffer w') msg of
            Inl e \<Rightarrow> Fault e
          | Inr r \<Rightarrow> Ok (r, w'))))"

text \<open>What the callbacks of an RPC client do.\<close>

definition rpc_client_user :: "bool \<Rightarrow> conn_callback \<Rightarrow> conn_id \<Rightarrow> byte list \<Rightarrow> ('j, 'z) rc_stmt" where
  "rpc_client_user char_signed cb c buf = (case cb of
     Cb_RPC_Client_onConnection \<Rightarrow> RPC_Client_onConnection c
   | Cb_RPC_Client_onMessage \<Rightarrow> RPC_Client_onMessage char_signed buf
   | _ \<Rightarrow> skip)"

section \<open>Receiving a response\<close>

definition awaiting :: "byte list \<Rightarrow> 32 word \<Rightarrow> ('j, 'z) rpc_client_net_scheme \<Rightarrow> bool" where
  "awaiting buf n w \<longleftrightarrow> rc_readBuffer w = buf \<and> rc_read_bytes w = n"

lemma onMessage_header:
  assumes "rc_read_bytes w = 0" "4 \<le> length bs"
  shows "RPC_Client_onMessage cs bs w =
    Ok (w\<lparr>rc_read_bytes := header_length cs bs, rc_readBuffer := rc_readBuffer w @ drop 4 bs\<rparr>)"
  using assms by (simp add: RPC_Client_onMessage_def)

lemma onMessage_body:
  assumes "awaiting buf n w" "n \<noteq> 0"
  shows "\<exists>w'. RPC_Client_onMessage cs bs w = Ok w' \<and> awaiting (buf @ bs) n w' \<and>
    (rc_notified w' \<longleftrightarrow> rc_notified w \<or> length (buf @ bs) = unat n)"
  using assms by (auto simp: RPC_Client_onMessage_def awaiting_def modify_def if_then_def)

text \<open>The fragments after the first one: the caller returns with the last of them.\<close>

lemma wait_rest:
  assumes "awaiting buf n w" "rest \<noteq> []" "[] \<notin> set rest" "unat n = length (buf @ concat rest)" "n \<noteq> 0"
  shows "\<exists>w'. wait_notified (map (RPC_Client_onMessage cs) rest) w = Ok w' \<and> awaiting (buf @ concat rest) n w'"
  using assms
proof (induction rest arbitrary: buf w)
  case Nil
  then show ?case by simp
next
  case (Cons b rest)
  have "awaiting buf n (w\<lparr>rc_notified := False\<rparr>)" using Cons.prems(1) by (simp add: awaiting_def)
  from onMessage_body [OF this Cons.prems(5), of cs b] obtain w1 where
    w1: "RPC_Client_onMessage cs b (w\<lparr>rc_notified := False\<rparr>) = Ok w1" "awaiting (buf @ b) n w1"
      "rc_notified w1 \<longleftrightarrow> length (buf @ b) = unat n" by auto
  have ready: "rc_notified w1 \<and> RPC_Client_ready w1 \<longleftrightarrow> length (buf @ b) = unat n"
    using w1(2,3) Cons.prems(5) by (auto simp: RPC_Client_ready_def awaiting_def)
  show ?case
  proof (cases "rest = []")
    case True
    then show ?thesis using w1 ready Cons.prems(4) by simp
  next
    case False
    then have "length (buf @ b) \<noteq> unat n" using Cons.prems(3,4) by (cases rest) auto
    then show ?thesis
      using Cons.IH [OF w1(2) False] Cons.prems(3,4,5) w1(1) ready by auto
  qed
qed

text \<open>Fragments that arrive while nobody waits are collected.\<close>

lemma early_rest:
  assumes "awaiting buf n w" "n \<noteq> 0"
  shows "\<exists>w'. block (map (RPC_Client_onMessage cs) xs) w = Ok w' \<and> awaiting (buf @ concat xs) n w'"
  using assms
proof (induction xs arbitrary: buf w)
  case (Cons b xs)
  obtain w1 where "RPC_Client_onMessage cs b w = Ok w1" "awaiting (buf @ b) n w1"
    using onMessage_body [OF Cons.prems, of cs b] by blast
  with Cons.IH [OF this(2) Cons.prems(2)] show ?case by simp
qed (simp add: awaiting_def)

text \<open>
  A whole response, the first \<open>i\<close> fragments before the caller waits and the others while it does:
  the caller goes on with the response in the buffer, unless it waits for a single fragment.
\<close>

lemma response_collected:
  assumes w: "rc_read_bytes w = 0" "rc_readBuffer w = []"
    and segs: "first @ concat rest = Codec_cal_headers body @ body" "4 \<le> length first" "[] \<notin> set rest"
    and body: "header_readable cs (length body)" "body \<noteq> []" and at: "rest \<noteq> [] \<or> 0 < i"
  shows "\<exists>w'. block [block (map (RPC_Client_onMessage cs) (take i (first # rest))),
      RPC_Client_wait (map (RPC_Client_onMessage cs) (drop i (first # rest)))] w = Ok w' \<and> rc_readBuffer w' = body"
proof -
  note message = framed_message [OF body(1) segs(1,2)]
  let ?n = "header_length cs first"
  have n: "?n \<noteq> 0" using message(1) body(2) by auto
  let ?v = "\<lambda>w. w\<lparr>rc_read_bytes := ?n, rc_readBuffer := drop 4 first\<rparr>"
  have first: "RPC_Client_onMessage cs first u = Ok (?v u)" "awaiting (drop 4 first) ?n (?v u)"
    if "rc_read_bytes u = 0" "rc_readBuffer u = []" for u :: "('a, 'b) rpc_client_net_scheme"
    using onMessage_header [of u first cs] that segs(2) by (simp_all add: awaiting_def)
  show ?thesis
  proof (cases i)
    case 0
    let ?u = "w\<lparr>rc_notified := False\<rparr>"
    obtain w' where "wait_notified (map (RPC_Client_onMessage cs) rest) (?v ?u) = Ok w'" "awaiting body ?n w'"
      using wait_rest [OF first(2) [of ?u] _ segs(3) _ n, of cs] w at 0 message by auto
    with w first(1) [of ?u] 0 show ?thesis
      by (intro exI [of _ w']) (simp add: RPC_Client_wait_def RPC_Client_ready_def awaiting_def)
  next
    case (Suc m)
    obtain v where v: "block (map (RPC_Client_onMessage cs) (take m rest)) (?v w) = Ok v"
      "awaiting (drop 4 first @ concat (take m rest)) ?n v"
      using early_rest [OF first(2) [OF w] n] by blast
    let ?buf = "drop 4 first @ concat (take m rest)"
    have cut: "?buf @ concat (drop m rest) = body"
      unfolding append_assoc concat_append [symmetric] append_take_drop_id by (rule message(2))
    have late: "\<exists>w'. RPC_Client_wait (map (RPC_Client_onMessage cs) (drop m rest)) v = Ok w' \<and> rc_readBuffer w' = body"
    proof (cases "drop m rest = []")
      case True
      with cut have "awaiting body ?n v" using v(2) by simp
      with message(1) n have "RPC_Client_ready v" "rc_readBuffer v = body" by (simp_all add: RPC_Client_ready_def awaiting_def)
      then show ?thesis by (simp add: RPC_Client_wait_def)
    next
      case False
      have parts: "[] \<notin> set (drop m rest)" using segs(3) by (auto dest: in_set_dropD)
      with False have "concat (drop m rest) \<noteq> []" by (cases "drop m rest") auto
      with cut have "length ?buf \<noteq> length body" by auto
      then have "\<not> RPC_Client_ready v" using v(2) message(1) by (simp add: RPC_Client_ready_def awaiting_def)
      moreover have "unat ?n = length (?buf @ concat (drop m rest))" unfolding cut by (rule message(1))
      from wait_rest [OF v(2) False parts this n, of cs]
      obtain w' where "wait_notified (map (RPC_Client_onMessage cs) (drop m rest)) v = Ok w'" "awaiting body ?n w'"
        unfolding cut by blast
      ultimately show ?thesis by (simp add: RPC_Client_wait_def awaiting_def)
    qed
    have "block (map (RPC_Client_onMessage cs) (take i (first # rest))) w = Ok v"
      using first(1) [OF w] v(1) unfolding Suc take_Suc_Cons list.map by simp
    with late show ?thesis by (auto simp: Suc)
  qed
qed

text \<open>Once the buffer holds at least what the header announced, no fragment wakes the caller.\<close>

lemma wait_full:
  assumes "awaiting buf n w" "unat n \<le> length buf" "[] \<notin> set segs" "n \<noteq> 0"
  shows "wait_notified (map (RPC_Client_onMessage cs) segs) w = Fault Blocked"
  using assms
proof (induction segs arbitrary: buf w)
  case Nil
  then show ?case by simp
next
  case (Cons b segs)
  have "awaiting buf n (w\<lparr>rc_notified := False\<rparr>)" using Cons.prems(1) by (simp add: awaiting_def)
  from onMessage_body [OF this Cons.prems(4), of cs b] obtain w1 where
    w1: "RPC_Client_onMessage cs b (w\<lparr>rc_notified := False\<rparr>) = Ok w1" "awaiting (buf @ b) n w1"
      "rc_notified w1 \<longleftrightarrow> length (buf @ b) = unat n" by auto
  have "length (buf @ b) \<noteq> unat n" using Cons.prems(2,3) by (cases b) auto
  then show ?case using w1 Cons.IH [OF w1(2)] Cons.prems(2,3,4) by simp
qed

section \<open>Sending a call\<close>

text \<open>From the caller's thread both parts of a call are posted to the loop of the connection.\<close>

definition posted_call :: "'j json_api \<Rightarrow> byte list \<Rightarrow> 'j list \<Rightarrow> conn_id \<Rightarrow> 'j codec \<Rightarrow> loop_functor list" where
  "posted_call api f args c cd = (let packed = fst (Codec_pack_args api f args cd) in
     [Fn_sendInLoopChar c (Codec_cal_headers packed) 4, Fn_sendInLoop c packed])"

lemma send_call_foreign:
  assumes k: "n_conns w c = Some k" "tc_state k = kConnected"
    and el: "w_loops w (tc_loop k) = Some el" "el_threadId el \<noteq> w_thread w"
  shows "RPC_Client_send_call api exec f args c w = Ok (w\<lparr>rc_codec := snd (Codec_pack_args api f args (rc_codec w)),
    n_conns := (n_conns w)(c \<mapsto> k\<lparr>tc_refs := Suc (Suc (tc_refs k))\<rparr>),
    w_loops := (w_loops w)(tc_loop k \<mapsto> el\<lparr>el_pendingFunctors := el_pendingFunctors el @ posted_call api f args c (rc_codec w),
      el_pipeBytes := Suc (Suc (el_pipeBytes el))\<rparr>)\<rparr>)"
proof -
  obtain packed cd where pack: "Codec_pack_args api f args (rc_codec w) = (packed, cd)" by fastforce
  let ?w = "w\<lparr>rc_codec := cd\<rparr>"
  let ?k1 = "k\<lparr>tc_refs := Suc (tc_refs k)\<rparr>" and ?f1 = "Fn_sendInLoopChar c (Codec_cal_headers packed) 4"
  let ?el1 = "el\<lparr>el_pendingFunctors := el_pendingFunctors el @ [?f1], el_pipeBytes := Suc (el_pipeBytes el)\<rparr>"
  let ?w1 = "?w\<lparr>n_conns := (n_conns ?w)(c \<mapsto> ?k1), w_loops := (w_loops ?w)(tc_loop k \<mapsto> ?el1)\<rparr>"
  have away: "\<not> EventLoop_isInLoopThread (tc_loop k) ?w" "\<not> EventLoop_isInLoopThread (tc_loop k) ?w1"
    using el by (simp_all add: EventLoop_isInLoopThread_def)
  have 1: "TcpConnection_sendChar exec c (Codec_cal_headers packed) 4 ?w = Ok ?w1"
    using run_bound_foreign [of ?w c k "tc_loop k" el exec ?f1] k el away(1)
    by (simp add: TcpConnection_sendChar_def with_conn_def)
  have 2: "TcpConnection_send exec c packed ?w1 = run_bound exec (tc_loop k) c (Fn_sendInLoop c packed) ?w1"
    using k away(2) by (simp add: TcpConnection_send_def with_conn_def)
  have 3: "run_bound exec (tc_loop k) c (Fn_sendInLoop c packed) ?w1 = Ok (?w1\<lparr>
      n_conns := (n_conns ?w1)(c \<mapsto> ?k1\<lparr>tc_refs := Suc (tc_refs ?k1)\<rparr>),
      w_loops := (w_loops ?w1)(tc_loop k \<mapsto> ?el1\<lparr>el_pendingFunctors := el_pendingFunctors ?el1 @ [Fn_sendInLoop c packed],
        el_pipeBytes := Suc (el_pipeBytes ?el1)\<rparr>)\<rparr>)"
    by (rule run_bound_foreign) (use el in simp_all)
  show ?thesis
    unfolding RPC_Client_send_call_def pack Let_def prod.case block.simps modify_def sum.case 1 2 3
    by (simp add: posted_call_def pack)
qed

text \<open>A caller whose thread is not the loop's, on an open connection.\<close>

definition can_call :: "conn_id \<Rightarrow> ('j, 'z) rpc_client_net_scheme \<Rightarrow> bool" where
  "can_call c w \<longleftrightarrow> rc_conn w = Some c \<and> (\<exists>k el. n_conns w c = Some k \<and> tc_state k = kConnected \<and>
     w_loops w (tc_loop k) = Some el \<and> el_threadId el \<noteq> w_thread w)"

lemma call_eq:
  assumes "can_call c w"
  obtains w1 where "RPC_Client_send_call api exec f args c w = Ok w1"
    "rc_readBuffer w1 = rc_readBuffer w" "rc_read_bytes w1 = rc_read_bytes w" "can_call c w1"
    "RPC_Client_call api conv d exec early events msg f args w = (case block [block early, RPC_Client_wait events] w1 of
       Inl e \<Rightarrow> Fault e
     | Inr w' \<Rightarrow> (case Codec_unpack_result api conv d (rc_readBuffer w') msg of Inl e \<Rightarrow> Fault e | Inr r \<Rightarrow> Ok (r, w')))"
proof -
  obtain k el where k: "rc_conn w = Some c" "n_conns w c = Some k" "tc_state k = kConnected"
    "w_loops w (tc_loop k) = Some el" "el_threadId el \<noteq> w_thread w"
    using assms by (auto simp: can_call_def)
  note send = send_call_foreign [OF k(2,3,4,5), of api exec f args]
  show thesis
    by (rule that [OF send]) (use k in \<open>simp_all add: RPC_Client_call_def send can_call_def split: sum.splits\<close>)
qed

text \<open>The loop's thread writes header and call when the connection is idle and takes the header.\<close>

lemma posted_call_sends:
  assumes es: "established c w p k ch" and out: "tc_outputBuffer k = []" and room: "4 \<le> shd (k_room w)"
    and packed: "packed = fst (Codec_pack_args api f args cd)"
  obtains w' p' k' ch' where "block (map (client_exec user (Suc n)) (posted_call api f args c cd)) w = Ok w'"
    "out_stream c w' = out_stream c w @ Codec_cal_headers packed @ packed" "established c w' p' k' ch'"
    "tc_refs k' = tc_refs k" "tc_loop k' = tc_loop k" "net.more w' = net.more w"
proof -
  let ?h = "Codec_cal_headers packed"
  have fits: "accepted w ?h = length ?h" using room by (simp add: accepted_def)
  note sent = sendInLoopChar_fits [OF es out fits]
  show thesis
  proof (rule sendInLoop_ok [OF sent(2), of packed], goal_cases)
    case (1 w' p' k' ch')
    have "tc_refs k' = tc_refs k" "tc_loop k' = tc_loop k" by (subst 1(4), simp)+
    moreover have "block (map (client_exec user (Suc n)) (posted_call api f args c cd)) w = Ok w'"
      using sent(1) 1(1) by (simp add: posted_call_def packed [symmetric])
    ultimately show thesis using sent(3) 1(2,3,8) by (intro that [of w' p' k' ch']) simp_all
  qed
qed

lemma more_rpc_client:
  fixes w :: "('j, 'z) rpc_client_net_scheme"
  assumes "net.more w' = net.more w"
  shows "rc_readBuffer w' = rc_readBuffer w" "rc_read_bytes w' = rc_read_bytes w"
  using assms by (cases w; cases w'; simp)+

text \<open>
  The loop's thread runs what the caller has posted: the framed call goes out, the references
  of the functors are given up, and the members of the RPC client stay as they are.
\<close>

definition run_posted :: "'z client_call_fn \<Rightarrow> nat \<Rightarrow> loop_id \<Rightarrow> 'z client_stmt" where
  "run_posted user n l = with_loop l (\<lambda>el.
     on_thread (el_threadId el) (EventLoop_doPendingFunctors (client_exec user n) release_functor l))"

lemma run_posted_sends:
  fixes w :: "('j, 'z) rpc_client_net_scheme"
  assumes el: "w_loops w (tc_loop k) = Some el" "el_pendingFunctors el = posted_call api f args c cd"
    and es: "established c (w\<lparr>w_thread := el_threadId el\<rparr>) p k ch" and refs: "2 < tc_refs k"
    and out: "tc_outputBuffer k = []" and room: "4 \<le> shd (k_room w)"
    and packed: "packed = fst (Codec_pack_args api f args cd)"
  shows "\<exists>w'. run_posted user (Suc n) (tc_loop k) w = Ok w' \<and>
    out_stream c w' = out_stream c w @ Codec_cal_headers packed @ packed \<and> net.more w' = net.more w"
proof -
  let ?l = "tc_loop k"
  let ?u = "w\<lparr>w_thread := el_threadId el\<rparr>"
  let ?v = "?u\<lparr>w_loops := (w_loops ?u)(?l \<mapsto> el\<lparr>el_callingPendingFunctors := True, el_pendingFunctors := []\<rparr>)\<rparr>"
  have es': "established c ?v p k ch"
    by (rule established_kernel [OF es]) (use el in \<open>simp_all add: loop_view_def\<close>)
  have room': "4 \<le> shd (k_room ?v)" using room by simp
  show ?thesis
  proof (rule posted_call_sends [OF es' out room' packed, of user n], goal_cases)
    case (1 w1 p1 k1 ch1)
    note at = attachedD [OF 1(3) [unfolded established_def, THEN conjunct1]]
    obtain e1 where e1: "w_loops w1 ?l = Some e1" using at(2) 1(5) by (auto simp: serves_def)
    let ?w2 = "w1\<lparr>w_loops := (w_loops w1)(?l \<mapsto> e1\<lparr>el_callingPendingFunctors := False\<rparr>)\<rparr>"
    let ?k = "\<lambda>r. k1\<lparr>tc_refs := r\<rparr>"
    let ?w3 = "?w2\<lparr>n_conns := (n_conns w1)(c \<mapsto> ?k (tc_refs k1 - 1))\<rparr>"
    let ?w4 = "?w2\<lparr>n_conns := (n_conns w1)(c \<mapsto> ?k (tc_refs k1 - 2))\<rparr>"
    have "conn_unref c ?w2 = Ok ?w3" using conn_unref_keep [of ?w2 c k1] at(1) refs 1(4) by simp
    moreover have "conn_unref c ?w3 = Ok ?w4"
      using conn_unref_keep [of ?w3 c "?k (tc_refs k1 - 1)"] refs 1(4) by (simp add: numeral_2_eq_2)
    ultimately have release: "block (map release_functor (posted_call api f args c cd)) ?w2 = Ok ?w4"
      by (simp add: posted_call_def Let_def release_functor_def functor_conn_def)
    have "EventLoop_doPendingFunctors (client_exec user (Suc n)) release_functor ?l ?u =
        block (map (client_exec user (Suc n)) (posted_call api f args c cd) @
          [upd_loop ?l (\<lambda>el. el\<lparr>el_callingPendingFunctors := False\<rparr>)] @
          map release_functor (posted_call api f args c cd)) ?v"
      using doPendingFunctors_eq [of ?u ?l el "client_exec user (Suc n)" release_functor] el by simp
    also have "\<dots> = block (map release_functor (posted_call api f args c cd)) ?w2"
      using 1(1) e1 by (simp only: block_append sum.case) (simp add: loop_access)
    also have "\<dots> = Ok ?w4" by (rule release)
    finally have "EventLoop_doPendingFunctors (client_exec user (Suc n)) release_functor ?l ?u = Ok ?w4" .
    then have run: "run_posted user (Suc n) ?l w = Ok (?w4\<lparr>w_thread := w_thread w\<rparr>)"
      using el by (simp add: run_posted_def with_loop_def on_thread_def)
    have "out_stream c ?w4 = out_stream c w1" using at(1) by (simp add: out_stream_def)
    moreover have "out_stream c ?v = out_stream c w" by (simp add: out_stream_def split: option.split)
    ultimately show ?thesis
      using run 1(2,6) by (intro exI [of _ "?w4\<lparr>w_thread := w_thread w\<rparr>"]) (simp add: out_stream_def split: option.split)
  qed
qed

section \<open>A caller that is answered\<close>

lemma packed_result_nonempty:
  assumes "json_laws api" "js_parse api [] = None"
  shows "Codec_pack_result api r success \<noteq> []"
proof
  assume "Codec_pack_result api r success = []"
  with unpack_pack_result [OF assms(1), of "\<lambda>r. Some r" r r success "[]"] assms(2) show False
    by (simp add: Codec_unpack_result_def)
qed

text \<open>Whatever the loop's thread does while the caller waits keeps what its steps keep.\<close>

lemma keeps_wait_notified:
  assumes "\<And>e. e \<in> set es \<Longrightarrow> keeps P e" "\<And>w. P w \<Longrightarrow> P (w\<lparr>rc_notified := False\<rparr>)"
  shows "keeps P (wait_notified es)"
  using assms(1)
proof (induction es)
  case Nil
  show ?case by (rule keepsI) simp
next
  case (Cons e es)
  show ?case
  proof (rule keepsI)
    fix w w' assume P: "P w" and run: "wait_notified (e # es) w = Ok w'"
    then obtain v where v: "e (w\<lparr>rc_notified := False\<rparr>) = Ok v" "w' = v \<or> wait_notified es v = Ok w'"
      by (auto split: sum.splits if_splits)
    from Cons.prems [of e] assms(2) [OF P] v(1) have "P v" by (auto dest: keepsD)
    with v(2) Cons show "P w'" by (auto dest: keepsD)
  qed
qed

lemma keeps_collecting:
  fixes P :: "('j, 'z) rpc_client_net_scheme \<Rightarrow> bool"
  assumes "\<And>x. x \<in> set (xs @ ys) \<Longrightarrow> keeps P x" "\<And>w. P w \<Longrightarrow> P (w\<lparr>rc_notified := False\<rparr>)"
  shows "keeps P (block [block xs, RPC_Client_wait ys])"
proof -
  have "keeps P (RPC_Client_wait ys)"
  proof (rule keepsI)
    fix w w' assume "P w" "RPC_Client_wait ys w = Ok w'"
    then show "P w'"
      using keepsD [OF keeps_wait_notified [of ys P, OF _ assms(2)], of w w'] assms(1)
      by (auto simp: RPC_Client_wait_def split: if_splits)
  qed
  then show ?thesis using assms(1) by (intro keeps_block_Cons keeps_block_Nil keeps_block) auto
qed

lemma out_stream_notified: "out_stream c (w\<lparr>rc_notified := b\<rparr>) = out_stream c w"
  by (simp add: out_stream_def split: option.split)

lemma keeps_onMessage: "keeps (\<lambda>w. out_stream c w = m) (RPC_Client_onMessage cs b)"
  by (rule keepsI) (auto simp: RPC_Client_onMessage_def out_stream_def modify_def if_then_def split: if_splits option.splits)

lemma wait_ends_ready: "RPC_Client_wait es w = Ok w' \<Longrightarrow> RPC_Client_ready w'"
proof -
  have "RPC_Client_ready w'" if "wait_notified es w = Ok w'" for w
    using that by (induction es arbitrary: w) (auto split: sum.splits if_splits)
  then show "RPC_Client_wait es w = Ok w' \<Longrightarrow> RPC_Client_ready w'"
    by (auto simp: RPC_Client_wait_def split: if_splits)
qed

lemma keeps_can_call: "keeps (can_call c) (RPC_Client_onMessage cs b)" "can_call c w \<Longrightarrow> can_call c (w\<lparr>rc_notified := x\<rparr>)"
  by (rule keepsI) (auto simp: RPC_Client_onMessage_def can_call_def modify_def if_then_def split: if_splits)

text \<open>
  A call and its response with the steps of the loop's thread in full: it runs the functors
  that the caller posted, which puts the call on the wire, and then receives the response.
\<close>

definition call_events :: "(conn_callback \<Rightarrow> conn_id \<Rightarrow> byte list \<Rightarrow> ('j, 'z) rc_stmt) \<Rightarrow> nat \<Rightarrow> loop_id \<Rightarrow> bool \<Rightarrow> byte list list \<Rightarrow> ('j, 'z) rc_stmt list" where
  "call_events user n l cs segs = run_posted user n l # map (RPC_Client_onMessage cs) segs"

lemma call_answered:
  fixes w :: "('j, 'z) rpc_client_net_scheme" and n i :: nat
    and user :: "conn_callback \<Rightarrow> conn_id \<Rightarrow> byte list \<Rightarrow> ('j, 'z) rc_stmt"
  assumes laws: "json_laws api" "js_parse api [] = None"
    and w: "can_call c w" "rc_read_bytes w = 0" "rc_readBuffer w = []"
    and el: "w_loops w (tc_loop k) = Some el" "el_pendingFunctors el = []"
    and es: "established c (w\<lparr>w_thread := el_threadId el\<rparr>) p k ch" "0 < tc_refs k" "tc_outputBuffer k = []" "4 \<le> shd (k_room w)"
    and call: "call = fst (Codec_pack_args api f args (rc_codec w))"
    and response: "first @ concat rest = Codec_cal_headers (Codec_pack_result api r success) @ Codec_pack_result api r success"
      "4 \<le> length first" "[] \<notin> set rest" "header_readable cs (length (Codec_pack_result api r success))"
    and at: "rest \<noteq> [] \<or> 1 < i" and conv: "conv r = Some x"
  defines "events \<equiv> call_events user (Suc n) (tc_loop k) cs (first # rest)"
  shows "\<exists>w'. RPC_Client_call api conv d exec (take i events) (drop i events) msg f args w = Ok (((x, True), msg), w') \<and>
    out_stream c w' = out_stream c w @ Codec_cal_headers call @ call"
proof -
  let ?reply = "Codec_pack_result api r success" and ?ev = "map (RPC_Client_onMessage cs) :: _ \<Rightarrow> ('j, 'z) rc_stmt list"
  have k: "n_conns w c = Some k" using attachedD(1) [OF es(1) [unfolded established_def, THEN conjunct1]] by simp
  then have conn: "rc_conn w = Some c" "tc_state k = kConnected" "el_threadId el \<noteq> w_thread w"
    using w(1) el(1) by (auto simp: can_call_def)
  let ?k = "k\<lparr>tc_refs := Suc (Suc (tc_refs k))\<rparr>"
  let ?el = "el\<lparr>el_pendingFunctors := posted_call api f args c (rc_codec w), el_pipeBytes := Suc (Suc (el_pipeBytes el))\<rparr>"
  let ?w1 = "w\<lparr>rc_codec := snd (Codec_pack_args api f args (rc_codec w)), n_conns := (n_conns w)(c \<mapsto> ?k),
    w_loops := (w_loops w)(tc_loop k \<mapsto> ?el)\<rparr>"
  have send: "RPC_Client_send_call api exec f args c w = Ok ?w1"
    using send_call_foreign [OF k conn(2) el(1) conn(3), of api exec f args] el(2) by simp
  have "attached c ((w\<lparr>w_thread := el_threadId el\<rparr>)\<lparr>n_conns := (n_conns w)(c \<mapsto> ?k)\<rparr>) p ?k ch"
    using attached_upd_conn(2) [OF es(1) [unfolded established_def, THEN conjunct1], of "\<lambda>_. ?k"] by simp
  then have "established c ((w\<lparr>w_thread := el_threadId el\<rparr>)\<lparr>n_conns := (n_conns w)(c \<mapsto> ?k)\<rparr>) p ?k ch"
    using es(1) by (simp add: established_def)
  then have es1: "established c (u\<lparr>w_thread := el_threadId ?el\<rparr>) p ?k ch" if "u = ?w1 \<or> u = ?w1\<lparr>rc_notified := False\<rparr>" for u
    by (rule established_kernel) (use that el(1) in \<open>auto simp: loop_view_def\<close>)
  have sent: "\<exists>w2. run_posted user (Suc n) (tc_loop k) u = Ok w2 \<and> out_stream c w2 = out_stream c w @ Codec_cal_headers call @ call \<and>
      rc_read_bytes w2 = 0 \<and> rc_readBuffer w2 = []" if u: "u = ?w1 \<or> u = ?w1\<lparr>rc_notified := False\<rparr>" for u
  proof -
    have "\<exists>w2. run_posted user (Suc n) (tc_loop ?k) u = Ok w2 \<and> out_stream c w2 = out_stream c u @ Codec_cal_headers call @ call \<and>
        net.more w2 = net.more u" (is "\<exists>w2. ?ran w2")
    proof (rule run_posted_sends [where el = ?el and cd = "rc_codec w", OF _ _ es1 [OF u] _ _ _ call])
      show "w_loops u (tc_loop ?k) = Some ?el" "4 \<le> shd (k_room u)" using u es(4) by auto
    qed (use es in simp_all)
    then obtain w2 where w2: "?ran w2" ..
    have "out_stream c u = out_stream c w" "rc_read_bytes u = 0" "rc_readBuffer u = []"
      using u k w by (auto simp: out_stream_def)
    with w2 more_rpc_client [of w2 u] show ?thesis by (intro exI [of _ w2]) simp
  qed
  note collected = response_collected [OF _ _ response packed_result_nonempty [OF laws]]
  have "\<exists>w'. block [block (take i events), RPC_Client_wait (drop i events)] ?w1 = Ok w' \<and> rc_readBuffer w' = ?reply \<and>
      out_stream c w' = out_stream c w @ Codec_cal_headers call @ call"
  proof (cases i)
    case 0
    obtain w2 where w2: "run_posted user (Suc n) (tc_loop k) (?w1\<lparr>rc_notified := False\<rparr>) = Ok w2"
      "out_stream c w2 = out_stream c w @ Codec_cal_headers call @ call" "rc_read_bytes w2 = 0" "rc_readBuffer w2 = []"
      using sent [of "?w1\<lparr>rc_notified := False\<rparr>"] by blast
    obtain w' where w': "block [block (?ev (take 0 (first # rest))), RPC_Client_wait (?ev (drop 0 (first # rest)))] w2 = Ok w'"
      "rc_readBuffer w' = ?reply"
      using collected [of w2 0] w2(3,4) at 0 by auto
    have "\<not> RPC_Client_ready ?w1" "\<not> RPC_Client_ready w2" using w2(3) w(2) by (simp_all add: RPC_Client_ready_def)
    then have "block [block (take i events), RPC_Client_wait (drop i events)] ?w1 = Ok w'"
      using w2(1) w'(1) by (simp add: 0 events_def call_events_def RPC_Client_wait_def split: sum.splits)
    moreover have "out_stream c w' = out_stream c w @ Codec_cal_headers call @ call"
      by (rule keepsD [where P = "\<lambda>v. out_stream c v = out_stream c w @ Codec_cal_headers call @ call", OF keeps_collecting w2(2) w'(1)])
        (auto simp: keeps_onMessage out_stream_notified)
    ultimately show ?thesis using w'(2) by blast
  next
    case (Suc j)
    obtain w2 where w2: "run_posted user (Suc n) (tc_loop k) ?w1 = Ok w2"
      "out_stream c w2 = out_stream c w @ Codec_cal_headers call @ call" "rc_read_bytes w2 = 0" "rc_readBuffer w2 = []"
      using sent [of ?w1] by blast
    obtain w' where w': "block [block (?ev (take j (first # rest))), RPC_Client_wait (?ev (drop j (first # rest)))] w2 = Ok w'"
      "rc_readBuffer w' = ?reply"
      using collected [of w2 j] w2(3,4) at Suc by auto
    have "block [block (take i events), RPC_Client_wait (drop i events)] ?w1 = Ok w'"
      using w2(1) w'(1) unfolding Suc events_def call_events_def take_Suc_Cons drop_Suc_Cons take_map [symmetric] drop_map [symmetric]
      by (simp add: take_map drop_map)
    moreover have "out_stream c w' = out_stream c w @ Codec_cal_headers call @ call"
      by (rule keepsD [where P = "\<lambda>v. out_stream c v = out_stream c w @ Codec_cal_headers call @ call", OF keeps_collecting w2(2) w'(1)])
        (auto simp: keeps_onMessage out_stream_notified)
    ultimately show ?thesis using w'(2) by blast
  qed
  then obtain w' where "block [block (take i events), RPC_Client_wait (drop i events)] ?w1 = Ok w'" "rc_readBuffer w' = ?reply"
    "out_stream c w' = out_stream c w @ Codec_cal_headers call @ call" by blast
  then show ?thesis
    using unpack_pack_result [OF laws(1), of conv d r success msg] conv
    by (intro exI [of _ w']) (simp add: RPC_Client_call_def conn(1) send split: sum.splits)
qed

section \<open>A caller that is never answered\<close>

text \<open>Data that arrives on a connection with the default message callback is dropped.\<close>

lemma handleRead_default:
  assumes "n_conns w c = Some k" "0 < tc_refs k" "tc_messageCallback k = Some defaultMessageCallback"
    "w_heap w (tc_channel k) \<noteq> None" "shd (k_reads w) = Some buf" "buf \<noteq> []"
  shows "TcpConnection_handleRead (client_call user (Suc n)) c w = Ok (w\<lparr>k_reads := stl (k_reads w)\<rparr>)"
proof -
  have "take read_buffer_size buf \<noteq> []" using assms(6) by (simp add: read_buffer_size_def)
  then show ?thesis
    using assms pinned_skip [of "w\<lparr>k_reads := stl (k_reads w)\<rparr>" c k]
    by (auto simp: TcpConnection_handleRead_def with_conn_def with_chan_def sys_read_def)
qed

lemma wait_default:
  assumes "n_conns w c = Some k" "0 < tc_refs k" "tc_messageCallback k = Some defaultMessageCallback"
    "w_heap w (tc_channel k) \<noteq> None" "\<forall>i < m. \<exists>buf. k_reads w !! i = Some buf \<and> buf \<noteq> []"
  shows "wait_notified (replicate m (TcpConnection_handleRead (client_call user (Suc n)) c)) w = Fault Blocked"
  using assms
proof (induction m arbitrary: w)
  case 0
  then show ?case by simp
next
  case (Suc m)
  let ?w = "w\<lparr>rc_notified := False\<rparr>"
  obtain buf where buf: "shd (k_reads w) = Some buf" "buf \<noteq> []" using Suc.prems(5) by force
  let ?w1 = "?w\<lparr>k_reads := stl (k_reads ?w)\<rparr>"
  have "TcpConnection_handleRead (client_call user (Suc n)) c ?w = Ok ?w1"
    by (rule handleRead_default [where k = k and buf = buf]) (use Suc.prems(1,2,3,4) buf in simp_all)
  moreover have "wait_notified (replicate m (TcpConnection_handleRead (client_call user (Suc n)) c)) ?w1 = Fault Blocked"
  proof (rule Suc.IH)
    show "\<forall>i < m. \<exists>buf. k_reads ?w1 !! i = Some buf \<and> buf \<noteq> []" using Suc.prems(5) by auto
  qed (use Suc.prems in simp_all)
  ultimately show ?case by (simp del: client_call.simps)
qed

section \<open>Properties\<close>

text \<open>
  A caller on thread \<open>2\<close> with an open connection of loop \<open>4\<close>, which runs on another thread, and
  the response of a call.
\<close>

definition example_caller :: "byte list \<Rightarrow> 32 word \<Rightarrow> json rpc_client_net" where
  "example_caller buf n = client_net.extend (client_world example_client example_connector
     ((example_net kConnected [] (sconst 9))\<lparr>w_thread := 2, k_reads := sconst (Some [1]),
        n_conns := [0 \<mapsto> (example_conn kConnected [])\<lparr>tc_messageCallback := Some defaultMessageCallback\<rparr>]\<rparr>))
     (rpc_client_net.fields 4 (InetAddress_any 90) (Codec_new example_json) (Some 0) buf n False)"

lemma example_caller_simps [simp]:
  "rc_readBuffer (example_caller buf n) = buf" "rc_read_bytes (example_caller buf n) = n"
  "k_reads (example_caller buf n) = sconst (Some [1])" "w_heap (example_caller buf n) = [3 \<mapsto> example_channel []]"
  "n_conns (example_caller buf n) = [0 \<mapsto> (example_conn kConnected [])\<lparr>tc_messageCallback := Some defaultMessageCallback\<rparr>]"
  by (simp_all add: example_caller_def client_world_def connector_world_def net.defs connector_net.defs client_net.defs
      rpc_client_net.defs)

lemma example_can_call: "can_call 0 (example_caller buf n)"
  by (simp add: can_call_def example_caller_def client_world_def connector_world_def net.defs connector_net.defs
      client_net.defs rpc_client_net.defs example_net_def example_conn_def new_connection_def)

definition example_response :: "byte list" where
  "example_response = Codec_pack_result example_json (JString [5]) True"

lemma length_example_response [simp]: "length example_response = 38"
  by (simp add: example_response_def Codec_pack_result_def Let_def example_json_def length_put_bytes key_bytes_def)

lemma header_example_response: "header_length True (Codec_cal_headers example_response @ t) = 38"
proof -
  have "header_length True (Codec_cal_headers example_response @ t) = header_length True (Codec_cal_headers example_response)"
    by (simp add: header_length_def nth_append)
  also have "\<dots> = 38"
    by (simp add: header_length_cal_headers lost_def bit_numeral_rec)
  finally show ?thesis .
qed

text \<open>
  C23. A response is delivered if its first fragment holds the whole header, the header is one
  that is read back right, and it does not arrive in one piece while the caller already waits:
  however the rest is cut, and whichever of the fragments come before the caller takes the
  mutex, the call returns exactly the value the server packed.
\<close>

theorem call_returns_result:
  assumes laws: "json_laws api" "js_parse api [] = None" and w: "can_call c w" "rc_read_bytes w = 0" "rc_readBuffer w = []"
    and response: "first @ concat rest = Codec_cal_headers (Codec_pack_result api r success) @ Codec_pack_result api r success"
      "4 \<le> length first" "[] \<notin> set rest" "header_readable cs (length (Codec_pack_result api r success))"
    and at: "rest \<noteq> [] \<or> 0 < i" and conv: "conv r = Some x"
  shows "\<exists>w'. RPC_Client_call api conv d exec (map (RPC_Client_onMessage cs) (take i (first # rest)))
      (map (RPC_Client_onMessage cs) (drop i (first # rest))) msg f args w = Ok (((x, True), msg), w')"
proof -
  let ?early = "map (RPC_Client_onMessage cs) (take i (first # rest))" and ?late = "map (RPC_Client_onMessage cs) (drop i (first # rest))"
  obtain w1 where w1: "rc_readBuffer w1 = []" "rc_read_bytes w1 = 0"
    "RPC_Client_call api conv d exec ?early ?late msg f args w = (case block [block ?early, RPC_Client_wait ?late] w1 of
       Inl e \<Rightarrow> Fault e
     | Inr w' \<Rightarrow> (case Codec_unpack_result api conv d (rc_readBuffer w') msg of Inl e \<Rightarrow> Fault e | Inr r \<Rightarrow> Ok (r, w')))"
    by (rule call_eq [OF w(1), of api exec f args conv d ?early ?late]) (simp add: w)
  obtain w' where w': "block [block ?early, RPC_Client_wait ?late] w1 = Ok w'" "rc_readBuffer w' = Codec_pack_result api r success"
    using response_collected [OF w1(2,1) response packed_result_nonempty [OF laws] at] by blast
  show ?thesis
    unfolding w1(3) w' sum.case unpack_pack_result [OF laws(1)] by (simp add: conv)
qed

theorem call_returns_result_witness:
  "\<exists>w'. RPC_Client_call example_json (js_get_string example_json) [] (\<lambda>_. skip)
      (map (RPC_Client_onMessage True) (take 1 [Codec_cal_headers example_response @ take 1 example_response, drop 1 example_response]))
      (map (RPC_Client_onMessage True) (drop 1 [Codec_cal_headers example_response @ take 1 example_response, drop 1 example_response]))
      [] [] [] (example_caller [] 0) = Ok ((([5], True), []), w')"
proof -
  have parts: "drop 1 example_response \<noteq> []"
    by (simp only: drop_eq_Nil length_example_response)
  show ?thesis
    by (rule call_returns_result [OF example_json_laws _ example_can_call, where r = "JString [5]" and success = True])
      (use parts in \<open>simp_all add: short_readable example_response_def [symmetric]\<close>, simp_all add: example_json_def)
qed

text \<open>
  C35. A response that arrives in one piece while the caller waits is never delivered: the
  branch that reads the header does not notify, and no later data makes the lengths equal
  again, so the call waits for ever (spurious wake-ups aside).
\<close>

theorem whole_response_never_wakes_caller:
  assumes w: "can_call c w" "rc_read_bytes w = 0" "rc_readBuffer w = []"
    and segs: "4 \<le> length first" "[] \<notin> set rest"
    and header: "header_length cs first \<noteq> 0" "unat (header_length cs first) \<le> length first - 4"
  shows "RPC_Client_call api conv d exec [] (map (RPC_Client_onMessage cs) (first # rest)) msg f args w = Fault Blocked"
proof -
  let ?n = "header_length cs first"
  obtain w1 where w1: "rc_readBuffer w1 = []" "rc_read_bytes w1 = 0"
    "RPC_Client_call api conv d exec [] (map (RPC_Client_onMessage cs) (first # rest)) msg f args w =
      (case block [block [], RPC_Client_wait (map (RPC_Client_onMessage cs) (first # rest))] w1 of
       Inl e \<Rightarrow> Fault e
     | Inr w' \<Rightarrow> (case Codec_unpack_result api conv d (rc_readBuffer w') msg of Inl e \<Rightarrow> Fault e | Inr r \<Rightarrow> Ok (r, w')))"
    by (rule call_eq [OF w(1), of api exec f args conv d "[]"]) (simp add: w)
  let ?v = "w1\<lparr>rc_notified := False, rc_read_bytes := ?n, rc_readBuffer := drop 4 first\<rparr>"
  have first: "RPC_Client_onMessage cs first (w1\<lparr>rc_notified := False\<rparr>) = Ok ?v"
    using onMessage_header [of "w1\<lparr>rc_notified := False\<rparr>" first cs] w1 segs(1) by simp
  have "wait_notified (map (RPC_Client_onMessage cs) rest) ?v = Fault Blocked"
    by (rule wait_full [where buf = "drop 4 first" and n = ?n]) (use segs(2) header in \<open>simp_all add: awaiting_def\<close>)
  then have "RPC_Client_wait (map (RPC_Client_onMessage cs) (first # rest)) w1 = Fault Blocked"
    using w1 first by (simp add: RPC_Client_wait_def RPC_Client_ready_def)
  then show ?thesis using w1(3) by simp
qed

theorem whole_response_never_wakes_caller_witness:
  "RPC_Client_call example_json (js_get_string example_json) [] (\<lambda>_. skip) []
     (map (RPC_Client_onMessage True) [Codec_cal_headers example_response @ example_response, [1]])
     [] [] [] (example_caller [] 0) = Fault Blocked"
  by (rule whole_response_never_wakes_caller [OF example_can_call]) (simp_all add: header_example_response)

text \<open>
  A call after the connection was lost hangs: \<open>conn_\<close> is never reset, so the call does not
  report that it is not connected; it sends nothing, because the connection is not in the
  connected state, and waits, whatever the loop's thread does, as long as no message arrives,
  and none can.
\<close>

theorem call_on_lost_connection_hangs:
  assumes conn: "rc_conn w = Some c" "n_conns w c = Some k" "tc_state k \<noteq> kConnected" "rc_read_bytes w = 0"
    and events: "\<And>e v. e \<in> set (early @ events) \<Longrightarrow> rc_read_bytes v = 0 \<Longrightarrow> \<exists>v'. e v = Ok v' \<and> rc_read_bytes v' = 0"
  shows "RPC_Client_call api conv d exec early events msg f args w = Fault Blocked \<and>
    RPC_Client_send_call api exec f args c w = Ok (w\<lparr>rc_codec := snd (Codec_pack_args api f args (rc_codec w))\<rparr>)"
proof -
  let ?w1 = "w\<lparr>rc_codec := snd (Codec_pack_args api f args (rc_codec w))\<rparr>"
  have sent: "RPC_Client_send_call api exec f args c w = Ok ?w1"
    using conn by (simp add: RPC_Client_send_call_def modify_def TcpConnection_sendChar_def TcpConnection_send_def conn_access
        skip_def split_beta Let_def)
  have "wait_notified es v = Fault Blocked" if "set es \<subseteq> set events" "rc_read_bytes v = 0" for es v
    using that
  proof (induction es arbitrary: v)
    case Nil
    show ?case by simp
  next
    case (Cons e es)
    then obtain v' where v': "e (v\<lparr>rc_notified := False\<rparr>) = Ok v'" "rc_read_bytes v' = 0"
      using events [of e "v\<lparr>rc_notified := False\<rparr>"] by auto
    then show ?case using Cons by (simp add: RPC_Client_ready_def)
  qed
  moreover have quiet: "\<exists>v'. block es v = Ok v' \<and> rc_read_bytes v' = 0" if "set es \<subseteq> set early" "rc_read_bytes v = 0" for es v
    using that
  proof (induction es arbitrary: v)
    case (Cons e es)
    then show ?case using events [of e v] by fastforce
  qed simp
  obtain v where "block early ?w1 = Ok v" "rc_read_bytes v = 0" using quiet [of early ?w1] conn(4) by auto
  ultimately have "block [block early, RPC_Client_wait events] ?w1 = Fault Blocked"
    by (simp add: RPC_Client_wait_def RPC_Client_ready_def)
  then show ?thesis using sent conn(1) by (simp add: RPC_Client_call_def)
qed

theorem call_on_lost_connection_hangs_witness:
  "RPC_Client_call example_json (js_get_string example_json) [] (\<lambda>_. skip) [skip] [skip, skip] [] [] []
     ((example_caller [] 0)\<lparr>n_conns := [0 \<mapsto> example_conn kDisconnected []]\<rparr>) = Fault Blocked"
  using call_on_lost_connection_hangs [of "(example_caller [] 0)\<lparr>n_conns := [0 \<mapsto> example_conn kDisconnected []]\<rparr>" 0
      "example_conn kDisconnected []" "[skip]" "[skip, skip]" example_json "js_get_string example_json" "[]" "\<lambda>_. skip" "[]" "[]" "[]"]
  by (simp add: skip_def example_caller_def client_world_def connector_world_def net.defs connector_net.defs
      client_net.defs rpc_client_net.defs example_conn_def new_connection_def)

text \<open>A full buffer answers a call at once.\<close>

lemma full_buffer_answers:
  assumes laws: "json_laws api" and w: "can_call c w" "rc_readBuffer w = Codec_pack_result api r success"
      "unat (rc_read_bytes w) = length (rc_readBuffer w)" "rc_read_bytes w \<noteq> 0"
    and conv: "conv r = Some x"
  shows "\<exists>w'. RPC_Client_call api conv d exec [] events msg f args w = Ok (((x, True), msg), w') \<and>
    RPC_Client_send_call api exec f args c w = Ok w'"
proof -
  obtain w1 where w1: "RPC_Client_send_call api exec f args c w = Ok w1"
    "rc_readBuffer w1 = rc_readBuffer w" "rc_read_bytes w1 = rc_read_bytes w"
    "RPC_Client_call api conv d exec [] events msg f args w = (case block [block [], RPC_Client_wait events] w1 of
       Inl e \<Rightarrow> Fault e
     | Inr w' \<Rightarrow> (case Codec_unpack_result api conv d (rc_readBuffer w') msg of Inl e \<Rightarrow> Fault e | Inr r \<Rightarrow> Ok (r, w')))"
    by (rule call_eq [OF w(1), of api exec f args conv d "[]"])
  have "RPC_Client_wait events w1 = Ok w1"
    using w1(2,3) w(3,4) by (simp add: RPC_Client_wait_def RPC_Client_ready_def)
  then show ?thesis using w1 unpack_pack_result [OF laws, of conv d r success msg] w(2) conv by simp
qed

text \<open>
  C36. The second call gets the first response. The buffer is never reset: after a call that was
  answered as described for \<open>call_returns_result\<close>, the wait of the next call, made before anything
  else arrives, is over at once, and it returns the value of the first response as its own, while
  its own request has only been posted, whatever its function, its arguments and the data that
  would follow.
\<close>

theorem second_call_returns_first_result:
  assumes laws: "json_laws api" "js_parse api [] = None" and w: "can_call c w" "rc_read_bytes w = 0" "rc_readBuffer w = []"
    and response: "first @ concat rest = Codec_cal_headers (Codec_pack_result api r success) @ Codec_pack_result api r success"
      "4 \<le> length first" "[] \<notin> set rest" "header_readable cs (length (Codec_pack_result api r success))"
    and at: "rest \<noteq> [] \<or> 0 < i" and conv: "conv r = Some x"
  shows "\<exists>w' w''. RPC_Client_call api conv d exec (map (RPC_Client_onMessage cs) (take i (first # rest)))
      (map (RPC_Client_onMessage cs) (drop i (first # rest))) msg f args w = Ok (((x, True), msg), w') \<and>
    RPC_Client_call api conv d exec [] events msg' f' args' w' = Ok (((x, True), msg'), w'') \<and>
    RPC_Client_send_call api exec f' args' c w' = Ok w''"
proof -
  let ?early = "map (RPC_Client_onMessage cs) (take i (first # rest))" and ?late = "map (RPC_Client_onMessage cs) (drop i (first # rest))"
  obtain w1 where w1: "rc_readBuffer w1 = []" "rc_read_bytes w1 = 0" "can_call c w1"
    "RPC_Client_call api conv d exec ?early ?late msg f args w = (case block [block ?early, RPC_Client_wait ?late] w1 of
       Inl e \<Rightarrow> Fault e
     | Inr w' \<Rightarrow> (case Codec_unpack_result api conv d (rc_readBuffer w') msg of Inl e \<Rightarrow> Fault e | Inr r \<Rightarrow> Ok (r, w')))"
    by (rule call_eq [OF w(1), of api exec f args conv d ?early ?late]) (simp add: w)
  obtain w' where w': "block [block ?early, RPC_Client_wait ?late] w1 = Ok w'" "rc_readBuffer w' = Codec_pack_result api r success"
    using response_collected [OF w1(2,1) response packed_result_nonempty [OF laws] at] by blast
  have "can_call c w'"
    by (rule keepsD [where P = "can_call c", OF keeps_collecting w1(3) w'(1)]) (auto simp: keeps_can_call)
  moreover have "RPC_Client_ready w'" using w'(1) by (auto split: sum.splits dest: wait_ends_ready)
  ultimately obtain w'' where "RPC_Client_call api conv d exec [] events msg' f' args' w' = Ok (((x, True), msg'), w'')"
    "RPC_Client_send_call api exec f' args' c w' = Ok w''"
    using full_buffer_answers [OF laws(1) _ w'(2), of c conv x d exec events msg' f' args'] conv by (auto simp: RPC_Client_ready_def)
  moreover have "RPC_Client_call api conv d exec ?early ?late msg f args w = Ok (((x, True), msg), w')"
    unfolding w1(4) w' sum.case unpack_pack_result [OF laws(1)] by (simp add: conv)
  ultimately show ?thesis by blast
qed

theorem second_call_returns_first_result_witness:
  "\<exists>w' w''. RPC_Client_call example_json (js_get_string example_json) [] (\<lambda>_. skip)
      (map (RPC_Client_onMessage True) (take 1 [Codec_cal_headers example_response @ take 1 example_response, drop 1 example_response]))
      (map (RPC_Client_onMessage True) (drop 1 [Codec_cal_headers example_response @ take 1 example_response, drop 1 example_response]))
      [] [] [] (example_caller [] 0) = Ok ((([5], True), []), w') \<and>
    RPC_Client_call example_json (js_get_string example_json) [] (\<lambda>_. skip) [] [] [] [9] [] w' = Ok ((([5], True), []), w'') \<and>
    RPC_Client_send_call example_json (\<lambda>_. skip) [9] [] 0 w' = Ok w''"
proof -
  have parts: "drop 1 example_response \<noteq> []"
    by (simp only: drop_eq_Nil length_example_response)
  show ?thesis
    by (rule second_call_returns_first_result [OF example_json_laws _ example_can_call, where r = "JString [5]" and success = True])
      (use parts in \<open>simp_all add: short_readable example_response_def [symmetric]\<close>, simp_all add: example_json_def)
qed

text \<open>
  As constructed the client never answers a call: it installs no message callback, a
  connection it makes drops the data that it reads, and the caller waits for ever, however
  many responses arrive.
\<close>

theorem constructed_client_never_answers:
  assumes new: "RPC_Client_new api inet_aton loop memory ip port w0 = Ok w1" "n_client w1 = Some cl"
    and w: "can_call c w" "rc_read_bytes w = 0" "n_conns w c = Some k" "0 < tc_refs k"
      "w_heap w (tc_channel k) \<noteq> None" "tc_messageCallback k = Some (cl_messageCallback cl)"
    and reads: "\<forall>i < m. \<exists>buf. k_reads w !! i = Some buf \<and> buf \<noteq> []"
  shows "RPC_Client_call api conv d exec [] (replicate m (TcpConnection_handleRead (client_call user (Suc n)) c)) msg f args w =
    Fault Blocked"
proof -
  have default: "cl_messageCallback cl = defaultMessageCallback"
    using new by (auto simp: RPC_Client_new_def TcpClient_new_def Connector_new_def modify_def connector_access
        client_access TcpClient_setConnectionCallback_def)
  obtain el where k: "rc_conn w = Some c" "tc_state k = kConnected" "w_loops w (tc_loop k) = Some el"
    "el_threadId el \<noteq> w_thread w"
    using w(1,3) by (auto simp: can_call_def)
  let ?k = "k\<lparr>tc_refs := Suc (Suc (tc_refs k))\<rparr>"
  let ?w1 = "w\<lparr>rc_codec := snd (Codec_pack_args api f args (rc_codec w)), n_conns := (n_conns w)(c \<mapsto> ?k),
    w_loops := (w_loops w)(tc_loop k \<mapsto> el\<lparr>el_pendingFunctors := el_pendingFunctors el @ posted_call api f args c (rc_codec w),
      el_pipeBytes := Suc (Suc (el_pipeBytes el))\<rparr>)\<rparr>"
  note send = send_call_foreign [OF w(3) k(2,3,4), of api exec f args]
  have "wait_notified (replicate m (TcpConnection_handleRead (client_call user (Suc n)) c)) ?w1 = Fault Blocked"
    by (rule wait_default [where k = ?k]) (use w default reads in simp_all)
  then show ?thesis
    using w(2) k(1) by (simp add: RPC_Client_call_def send RPC_Client_wait_def RPC_Client_ready_def)
qed

theorem constructed_client_never_answers_witness:
  "\<exists>w1 cl. RPC_Client_new example_json (\<lambda>_. None) 4 (InetAddress_any 0) ''10.0.0.1'' 90 (example_caller [] 0) = Ok w1 \<and>
    n_client w1 = Some cl \<and>
    RPC_Client_call example_json (js_get_string example_json) [] (\<lambda>_. skip) []
      (replicate 5 (TcpConnection_handleRead (client_call (rpc_client_user True) 1) 0)) [] [] [] (example_caller [] 0) =
    Fault Blocked"
proof -
  obtain w1 cl where new: "RPC_Client_new example_json (\<lambda>_. None) 4 (InetAddress_any 0) ''10.0.0.1'' 90 (example_caller [] 0) = Ok w1"
    "n_client w1 = Some cl" "cl_messageCallback cl = defaultMessageCallback"
    by (simp add: RPC_Client_new_def TcpClient_new_def Connector_new_def modify_def connector_access
        client_access TcpClient_setConnectionCallback_def)
  have "RPC_Client_call example_json (js_get_string example_json) [] (\<lambda>_. skip) []
      (replicate 5 (TcpConnection_handleRead (client_call (rpc_client_user True) (Suc 0)) 0)) [] [] [] (example_caller [] 0) =
    Fault Blocked"
    by (rule constructed_client_never_answers [OF new(1,2) example_can_call,
        where k = "(example_conn kConnected [])\<lparr>tc_messageCallback := Some defaultMessageCallback\<rparr>"])
      (simp_all add: new(3) example_conn_def new_connection_def)
  with new show ?thesis by auto
qed

end
