(* ===== verification/ClientRefs.thy ===== *)
theory ClientRefs
  imports RefCounts RPC_Client EventLoopThreadPool
begin

text \<open>
  The reference counts of a client's connections: \<open>connection_\<close> owns one reference, what a
  program built on the client owns is a parameter. The operations of the connector and the
  client, and whole runs of the loop, keep the counts exact. For an RPC client the other owner
  is \<open>conn_\<close>.
\<close>

section \<open>Functors that are bound to no connection\<close>

context ownership
begin

lemma counted_runInLoop:
  assumes exec: "counted (counts own extra) (exec f)" and f: "functor_conn f = None"
  shows "counted (counts own extra) (EventLoop_runInLoop exec l f)"
proof (rule countedI)
  fix h w w'
  assume w: "counts own extra h w" and run: "EventLoop_runInLoop exec l f w = Ok w'"
  then obtain el where el: "w_loops w l = Some el"
    by (auto simp: EventLoop_runInLoop_def loop_access split: option.splits)
  show "counts own extra h w'"
  proof (cases "EventLoop_isInLoopThread l w")
    case True
    with run have "exec f w = Ok w'" by (simp add: runInLoop_own)
    with exec w show ?thesis by (rule counts_step)
  next
    case False
    with el have t: "el_threadId el \<noteq> w_thread w" by (simp add: EventLoop_isInLoopThread_def)
    let ?el = "el\<lparr>el_pendingFunctors := el_pendingFunctors el @ [f], el_pipeBytes := Suc (el_pipeBytes el)\<rparr>"
    have w': "w' = w\<lparr>w_loops := (w_loops w)(l \<mapsto> ?el)\<rparr>"
      using run runInLoop_foreign [OF el t, of exec f] by simp
    note d = countsD [OF w]
    have "queued w' b + bound_to (el_pendingFunctors el) b = queued w b + bound_to (el_pendingFunctors ?el) b" for b
      by (rule queued_upd [OF d(1) el]) (simp add: w')
    then have "queued w' b = queued w b" for b using f by simp
    moreover have "own w' = own w" "extra w'" using own_frame [of w' w] extra_frame [of w' w] d(4) by (auto simp: w')
    ultimately show ?thesis
      using d(1,2) d(3) by (intro countsI) (simp_all add: w' refs_def)
  qed
qed

end

section \<open>What the client owns\<close>

definition client_own :: "'z client_net_scheme \<Rightarrow> conn_id \<Rightarrow> nat" where
  "client_own w c = (case n_client w of None \<Rightarrow> 0 | Some cl \<Rightarrow> if cl_connection cl = Some c then 1 else 0)"

definition client_extra :: "'z client_net_scheme \<Rightarrow> bool" where
  "client_extra w \<longleftrightarrow> (\<forall>i. n_conns w (fst (n_client_alloc w !! i)) = None) \<and>
     (\<forall>i j. i \<noteq> j \<longrightarrow> fst (n_client_alloc w !! i) \<noteq> fst (n_client_alloc w !! j))"

definition client_counts :: "('z client_net_scheme \<Rightarrow> conn_id \<Rightarrow> nat) \<Rightarrow> (conn_id \<Rightarrow> nat) \<Rightarrow> 'z client_net_scheme \<Rightarrow> bool" where
  "client_counts other = counts (\<lambda>w c. client_own w c + other w c) client_extra"

lemma more_client:
  fixes w :: "'z client_net_scheme"
  assumes "net.more w' = net.more w"
  shows "n_client w' = n_client w" "n_client_alloc w' = n_client_alloc w" "client_net.more w' = client_net.more w"
  using assms by (cases w; cases w'; simp)+

locale client_ownership =
  fixes other :: "'z client_net_scheme \<Rightarrow> conn_id \<Rightarrow> nat"
  assumes other_frame: "client_net.more w' = client_net.more w \<Longrightarrow> other w' = other w"

sublocale client_ownership \<subseteq> ownership "\<lambda>w c. client_own w c + other w c" client_extra
proof
  fix w w' :: "'z client_net_scheme"
  assume more: "net.more w' = net.more w"
  note same = more_client [OF more]
  show "(\<lambda>c. client_own w' c + other w' c) = (\<lambda>c. client_own w c + other w c)"
    using same other_frame [OF same(3)] by (simp add: client_own_def fun_eq_iff)
  show "client_extra w'" if "dom (n_conns w') \<subseteq> dom (n_conns w)" "client_extra w"
    using that same(2) by (auto simp: client_extra_def)
qed

section \<open>The connector\<close>

context client_ownership
begin

lemmas step = counts_step [folded client_counts_def]
lemmas neutral = counted_neutral [folded client_counts_def]
lemmas ref = ref_counts [folded client_counts_def]
lemmas unref = unref_counts [folded client_counts_def]
lemmas run_functor = counted_run_bound [folded client_counts_def]
lemmas run_free = counted_runInLoop [folded client_counts_def]

lemma other_owners:
  assumes "client_counts other h w" "w_loops w' = w_loops w" "n_conns w' = n_conns w" "n_client_alloc w' = n_client_alloc w"
    and "other w' = other w"
    and "map_option cl_connection (n_client w') = map_option cl_connection (n_client w)"
  shows "client_counts other h w'"
proof -
  note d = countsD [OF assms(1) [unfolded client_counts_def]]
  have "client_own w' = client_own w"
    using assms(6) by (cases "n_client w"; cases "n_client w'") (auto simp: client_own_def fun_eq_iff)
  moreover have "client_extra w'" using d(4) assms(3,4) by (simp add: client_extra_def)
  ultimately show ?thesis
    unfolding client_counts_def using d(1,2) d(3) assms(2,3,5)
    by (intro countsI) (simp_all add: refs_def queued_def)
qed

lemma same_owners:
  assumes "client_counts other h w" "w_loops w' = w_loops w" "n_conns w' = n_conns w" "n_client_alloc w' = n_client_alloc w"
    and "client_net.more w' = client_net.more w"
    and "map_option cl_connection (n_client w') = map_option cl_connection (n_client w)"
  shows "client_counts other h w'"
  using assms(1-4) other_frame [OF assms(5)] assms(6) by (rule other_owners)

lemma counted_kernel:
  assumes "\<And>w. w_loops (f w) = w_loops w \<and> n_conns (f w) = n_conns w \<and> n_client_alloc (f w) = n_client_alloc w \<and>
    client_net.more (f w) = client_net.more w \<and> n_client (f w) = n_client w"
  shows "counted (client_counts other) (modify f)"
proof (rule countedI)
  fix h w w'
  assume "client_counts other h w" "modify f w = Ok w'"
  then show "client_counts other h w'" using assms [of w] by (auto simp: modify_def elim!: same_owners)
qed

lemma counted_access [counted_intros]:
  "(\<And>cn. counted (client_counts other) (f cn)) \<Longrightarrow> counted (client_counts other) (with_connector f)"
  "counted (client_counts other) (upd_connector g)"
  "(\<And>cl. counted (client_counts other) (u cl)) \<Longrightarrow> counted (client_counts other) (with_client u)"
  "(\<And>cl. cl_connection (v cl) = cl_connection cl) \<Longrightarrow> counted (client_counts other) (upd_client v)"
proof -
  show "counted (client_counts other) (with_connector f)" if "\<And>cn. counted (client_counts other) (f cn)"
    by (rule countedI) (auto simp: with_connector_def intro: step [OF that] split: option.splits)
  show "counted (client_counts other) (with_client u)" if "\<And>cl. counted (client_counts other) (u cl)"
    by (rule countedI) (auto simp: with_client_def intro: step [OF that] split: option.splits)
  show "counted (client_counts other) (upd_connector g)"
    by (rule countedI) (auto simp: connector_access elim!: same_owners split: option.splits)
  show "counted (client_counts other) (upd_client v)" if "\<And>cl. cl_connection (v cl) = cl_connection cl"
    by (rule countedI) (auto simp: client_access that elim!: same_owners split: option.splits)
qed

lemma counted_connector_state [counted_intros]:
  "counted (client_counts other) (Connector_setState s)" "counted (client_counts other) Connector_assertInLoopThread"
  "counted (client_counts other) (sys_close fd)" "counted (client_counts other) Connector_resetChannel"
proof -
  show "counted (client_counts other) (sys_close fd)" unfolding sys_close_def by (intro counted_kernel) simp
  have "counted (client_counts other) (case x of None \<Rightarrow> skip
     | Some chan \<Rightarrow> block [upd_connector (\<lambda>cn. cn\<lparr>cn_channel := None\<rparr>), Channel_destroy chan])" for x
    by (auto intro: counted_intros neutral [OF neutral_channel(3)] split: option.split)
  then show "counted (client_counts other) Connector_resetChannel" unfolding Connector_resetChannel_def by (intro counted_intros)
qed (unfold Connector_setState_def Connector_assertInLoopThread_def, (intro counted_intros neutral [OF neutral_assertInLoop(1)])+)

lemma counted_connecting: "counted (client_counts other) (Connector_connecting sockfd)"
proof -
  have "counted (client_counts other) (\<lambda>w. let chan = shd (k_channels w) in block
        [modify (\<lambda>w. w\<lparr>k_channels := stl (k_channels w),
           w_heap := (w_heap w)(chan \<mapsto> ch)\<rparr>),
         upd_connector (\<lambda>cn. cn\<lparr>cn_channel := Some chan\<rparr>),
         Channel_enableWriting chan] w)" for ch
  proof (rule countedI, unfold Let_def)
    fix h w w'
    let ?s = "\<lambda>chan. block
        [modify (\<lambda>w. w\<lparr>k_channels := stl (k_channels w),
           w_heap := (w_heap w)(chan \<mapsto> ch)\<rparr>),
         upd_connector (\<lambda>cn. cn\<lparr>cn_channel := Some chan\<rparr>),
         Channel_enableWriting chan]"
    have "counted (client_counts other) (?s chan)" for chan
      by (intro counted_block counted_access counted_kernel neutral [OF neutral_channel(5)]) simp
    then show "client_counts other h w'" if "client_counts other h w" "?s (shd (k_channels w)) w = Ok w'"
      using that by (rule step)
  qed
  then show ?thesis unfolding Connector_connecting_def by (intro counted_intros)
qed

lemma counted_retry:
  assumes exec: "\<And>f. counted (client_counts other) (exec f)"
  shows "counted (client_counts other) (Connector_retry exec sockfd)"
proof -
  have "counted (client_counts other) (modify (\<lambda>w. w\<lparr>k_sleeps := k_sleeps w @ [d]\<rparr>))" for d
    by (intro counted_kernel) simp
  then show ?thesis
    unfolding Connector_retry_def by (intro counted_intros run_free exec) (simp_all add: functor_conn_def)
qed

lemma counted_connect:
  assumes exec: "\<And>f. counted (client_counts other) (exec f)"
  shows "counted (client_counts other) (Connector_connect exec)"
proof (rule countedI)
  fix h w w'
  assume w: "client_counts other h w" and run: "Connector_connect exec w = Ok w'"
  obtain sockfd e where c: "shd (k_connects w) = (sockfd, e)" by (cases "shd (k_connects w)")
  let ?w1 = "w\<lparr>k_socks := sys_socket sockfd (k_socks w), k_connects := stl (k_connects w)\<rparr>"
  have "client_counts other h ?w1" by (rule same_owners [OF w]) simp_all
  moreover have "counted (client_counts other)
      (if e \<in> {E_none, EINPROGRESS, EINTR, EISCONN} then Connector_connecting sockfd
       else if e \<in> {EAGAIN, EADDRINUSE, EADDRNOTAVAIL, ECONNREFUSED, ENETUNREACH} then Connector_retry exec sockfd
       else sys_close sockfd)"
    by (intro counted_intros counted_connecting counted_retry exec)
  ultimately show "client_counts other h w'"
    using run unfolding Connector_connect_def c by (auto intro: step)
qed

lemma counted_connector:
  assumes exec: "\<And>f. counted (client_counts other) (exec f)"
  shows "counted (client_counts other) (Connector_startInLoop exec)" "counted (client_counts other) (Connector_start exec)"
    "counted (client_counts other) (Connector_stopInLoop exec)" "counted (client_counts other) (Connector_stop exec)"
    "counted (client_counts other) (Connector_handleError exec)" "counted (client_counts other) (Connector_restart exec)"
    "(\<And>fd. counted (client_counts other) (k fd)) \<Longrightarrow> counted (client_counts other) (Connector_handleWrite exec k)"
proof -
  have remove: "counted (client_counts other) (Connector_removeAndResetChannel exec j)"
    if j: "\<And>fd. counted (client_counts other) (j fd)" for j
  proof -
    have "counted (client_counts other) (case x of None \<Rightarrow> (\<lambda>w. Fault NullDeref)
     | Some chan \<Rightarrow> block
       [Channel_disableAll chan,
        Channel_remove chan,
        with_chan chan (\<lambda>ch. block
          [EventLoop_runInLoop exec l Fn_Connector_resetChannel,
           j (ch_fd ch)])])" for x l
      by (auto intro!: counted_intros j run_free exec neutral [OF neutral_channel(7)] neutral [OF neutral_channel(2)]
          simp: functor_conn_def split: option.split)
    then show ?thesis unfolding Connector_removeAndResetChannel_def by (intro counted_intros)
  qed
  show start: "counted (client_counts other) (Connector_startInLoop exec)"
    unfolding Connector_startInLoop_def by (intro counted_intros counted_connect exec)
  show "counted (client_counts other) (Connector_start exec)" "counted (client_counts other) (Connector_stop exec)"
    unfolding Connector_start_def Connector_stop_def
    by (intro counted_intros run_free exec; simp add: functor_conn_def)+
  show "counted (client_counts other) (Connector_stopInLoop exec)" "counted (client_counts other) (Connector_handleError exec)"
    unfolding Connector_stopInLoop_def Connector_handleError_def by (intro counted_intros remove counted_retry exec)+
  show "counted (client_counts other) (Connector_restart exec)"
    unfolding Connector_restart_def by (intro counted_intros start)
  show "counted (client_counts other) (Connector_handleWrite exec k)" if "\<And>fd. counted (client_counts other) (k fd)"
    unfolding Connector_handleWrite_def by (intro counted_intros remove that)
qed

end

section \<open>The client\<close>

context client_ownership
begin

text \<open>\<open>connection_\<close> takes a reference to the new connection and gives up the one it held.\<close>

lemma counted_set_connection: "counted (client_counts other) (set_connection c)"
proof (rule countedI)
  fix h w w'
  assume w: "client_counts other h w" and "set_connection c w = Ok w'"
  then obtain cl w1 w2 where cl: "n_client w = Some cl" and w1: "conn_ref c w = Ok w1"
    and w2: "upd_client (\<lambda>cl. cl\<lparr>cl_connection := Some c\<rparr>) w1 = Ok w2"
    and last: "(case cl_connection cl of None \<Rightarrow> skip | Some old \<Rightarrow> conn_unref old) w2 = Ok w'"
    by (auto simp: set_connection_def with_client_def split: option.splits sum.splits)
  have cl1: "n_client w1 = Some cl" using w1 cl by (auto simp: conn_ref_def conn_access split: option.splits)
  have w2: "w2 = w1\<lparr>n_client := Some (cl\<lparr>cl_connection := Some c\<rparr>)\<rparr>" using w2 cl1 by (simp add: client_access)
  note d = countsD [OF ref [OF w w1, unfolded client_counts_def]]
  let ?h = "\<lambda>b. h b + (if cl_connection cl = Some b then 1 else 0)"
  have frame: "other w2 = other w1" using other_frame [of w2 w1] by (simp add: w2)
  have own: "client_own w2 b = (if c = b then 1 else 0)" "client_own w1 b = (if cl_connection cl = Some b then 1 else 0)" for b
    using cl1 by (simp_all add: client_own_def w2)
  have "refs w2 b = (client_own w2 b + other w2 b) + queued w2 b + ?h b" for b
    using d(2) [of b] unfolding frame own
    by (cases "b = c") (simp_all add: w2 refs_def queued_def holding_def)
  then have held: "client_counts other ?h w2"
    unfolding client_counts_def using d(1,4) d(3) by (intro countsI) (simp_all add: w2 refs_def client_extra_def)
  show "client_counts other h w'"
  proof (cases "cl_connection cl")
    case None
    with held last show ?thesis by (simp add: skip_def)
  next
    case (Some old)
    then have "?h = holding old h" by (auto simp: holding_def fun_eq_iff)
    with held last Some show ?thesis by (simp add: unref)
  qed
qed

lemma create_counts:
  assumes w: "client_counts other h w" and alloc: "shd (n_client_alloc w) = (c, chan)"
    and new: "TcpConnection_new c chan l fd la pa name (w\<lparr>n_client_alloc := stl (n_client_alloc w), n_client := Some cl'\<rparr>) = Ok w'"
    and cl: "n_client w = Some cl" "cl_connection cl' = cl_connection cl"
  shows "client_counts other (holding c h) w'"
proof -
  note d = countsD [OF w [unfolded client_counts_def]]
  have fresh: "n_conns w (fst (n_client_alloc w !! i)) = None"
    "i \<noteq> j \<Longrightarrow> fst (n_client_alloc w !! i) \<noteq> fst (n_client_alloc w !! j)" for i j
    using d(4) by (simp_all add: client_extra_def)
  have c: "c = fst (n_client_alloc w !! 0)" using alloc by simp
  have none: "n_conns w c = None" unfolding c by (rule fresh(1))
  obtain k hp where w': "w' = w\<lparr>n_client_alloc := stl (n_client_alloc w), n_client := Some cl', w_heap := hp,
      n_conns := (n_conns w)(c \<mapsto> k)\<rparr>" and k: "tc_refs k = 1"
    using new by (auto simp: TcpConnection_new_def modify_def)
  have frame: "other w' = other w" using other_frame [of w' w] by (simp add: w')
  have own: "client_own w' b = client_own w b" for b using cl by (simp add: client_own_def w')
  have "refs w' b = (client_own w' b + other w' b) + queued w' b + holding c h b" for b
    using d(2) [of b] none k unfolding own frame
    by (cases "b = c") (simp_all add: w' refs_def queued_def holding_def)
  moreover have tail: "fst (stl (n_client_alloc w) !! i) \<noteq> c" "n_conns w (fst (stl (n_client_alloc w) !! i)) = None"
    "i \<noteq> j \<Longrightarrow> fst (stl (n_client_alloc w) !! i) \<noteq> fst (stl (n_client_alloc w) !! j)" for i j
    using fresh(2) [of "Suc i" 0] fresh(1) [of "Suc i"] fresh(2) [of "Suc i" "Suc j"] c by simp_all
  have "client_extra w'" using tail by (auto simp: client_extra_def w')
  moreover have "0 < refs w' b" if "n_conns w' b \<noteq> None" for b
    using d(3) [of b] k that by (cases "b = c") (auto simp: w' refs_def)
  ultimately show ?thesis
    unfolding client_counts_def using d(1) by (intro countsI) (simp_all add: w')
qed

lemma counted_newConnection:
  assumes call: "\<And>cb c buf. counted (client_counts other) (call cb c buf)"
  shows "counted (client_counts other) (TcpClient_newConnection call sockfd)"
proof (rule countedI)
  fix h w w'
  assume w: "client_counts other h w" and run: "TcpClient_newConnection call sockfd w = Ok w'"
  have same: "w1 = w" if "EventLoop_assertInLoopThread l w = Ok w1" for l w1
    using that by (auto simp: EventLoop_assertInLoopThread_def loop_access check_def split: option.splits if_splits)
  obtain cl ipPort c chan w1 w2 w3 w4 where cl: "n_client w = Some cl" and alloc: "shd (n_client_alloc w) = (c, chan)"
    and new: "TcpConnection_new c chan (cl_loop cl) sockfd (getLocalAddr sockfd w) (cl_serverAddr cl) (client_conn_name cl ipPort)
        (w\<lparr>n_client_alloc := stl (n_client_alloc w), n_client := Some (cl\<lparr>cl_nextConnId := Suc (cl_nextConnId cl)\<rparr>)\<rparr>) = Ok w1"
    and middle: "upd_conn c (\<lambda>k. TcpConnection_setCloseCallback Cb_TcpClient_removeConnection
        (TcpConnection_setMessageCallback (cl_messageCallback cl)
          (TcpConnection_setConnectionCallback (cl_connectionCallback cl) k))) w1 = Ok w2"
      "set_connection c w2 = Ok w3" "TcpConnection_connectEstablished call c w3 = Ok w4"
    and last: "conn_unref c w4 = Ok w'"
    using run
    by (auto simp: TcpClient_newConnection_def client_access modify_def dest!: same
        split: option.splits sum.splits prod.splits)
  have "client_counts other (holding c h) w1" by (rule create_counts [OF w alloc new cl]) simp
  from step [OF neutral [OF neutral_control(6)] this middle(1)] have "client_counts other (holding c h) w2" by simp
  from step [OF counted_set_connection this middle(2)] have "client_counts other (holding c h) w3" .
  from step [OF counted_connectEstablished [folded client_counts_def, of call, OF call] this middle(3)]
  show "client_counts other h w'" using last by (rule unref)
qed

lemma counted_removeConnection:
  assumes exec: "\<And>f. counted (client_counts other) (exec f)"
  shows "counted (client_counts other) (TcpClient_removeConnection exec c)"
proof (rule countedI)
  fix h w w'
  assume w: "client_counts other h w" and run: "TcpClient_removeConnection exec c w = Ok w'"
  have same: "w1 = w" if "EventLoop_assertInLoopThread l w = Ok w1" for l w1
    using that by (auto simp: EventLoop_assertInLoopThread_def loop_access check_def split: option.splits if_splits)
  obtain cl w2 w3 w4 where cl: "n_client w = Some cl" "cl_connection cl = Some c"
    and w2: "upd_client (\<lambda>cl. cl\<lparr>cl_connection := None\<rparr>) w = Ok w2"
    and w3: "conn_unref c w2 = Ok w3" and w4: "run_bound exec (cl_loop cl) c (Fn_connectDestroyed c) w3 = Ok w4"
    and last: "with_client (\<lambda>cl. if cl_retry cl \<and> cl_connect cl then Connector_restart exec else skip) w4 = Ok w'"
    using run
    by (auto simp: TcpClient_removeConnection_def with_client_def with_conn_def assertion_def check_def dest!: same
        split: option.splits sum.splits if_splits)
  have w2: "w2 = w\<lparr>n_client := Some (cl\<lparr>cl_connection := None\<rparr>)\<rparr>" using w2 cl by (simp add: client_access)
  note d = countsD [OF w [unfolded client_counts_def]]
  have frame: "other w2 = other w" using other_frame [of w2 w] by (simp add: w2)
  have own: "client_own w2 b = 0" "client_own w b = (if c = b then 1 else 0)" for b
    using cl by (simp_all add: client_own_def w2)
  have "refs w2 b = (client_own w2 b + other w2 b) + queued w2 b + holding c h b" for b
    using d(2) [of b] unfolding frame own
    by (cases "b = c") (simp_all add: w2 refs_def queued_def holding_def)
  then have "client_counts other (holding c h) w2"
    unfolding client_counts_def using d(1,4) d(3) by (intro countsI) (simp_all add: w2 refs_def client_extra_def)
  from unref [OF this w3] have "client_counts other h w3" .
  moreover have "counted (client_counts other) (run_bound exec (cl_loop cl) c (Fn_connectDestroyed c))"
    by (intro run_functor exec) (simp add: functor_conn_def)
  ultimately have "client_counts other h w4" using w4 by (blast intro: step)
  moreover have "counted (client_counts other) (with_client (\<lambda>cl. if cl_retry cl \<and> cl_connect cl then Connector_restart exec else skip))"
    by (intro counted_intros counted_connector(6) exec)
  ultimately show "client_counts other h w'" using last by (blast intro: step)
qed

lemma counted_client:
  assumes exec: "\<And>f. counted (client_counts other) (exec f)"
  shows "counted (client_counts other) (TcpClient_connect exec)" "counted (client_counts other) (TcpClient_disconnect exec)"
    "counted (client_counts other) (TcpClient_stop exec)"
proof -
  show "counted (client_counts other) (TcpClient_connect exec)" "counted (client_counts other) (TcpClient_stop exec)"
    unfolding TcpClient_connect_def TcpClient_stop_def by (intro counted_intros counted_connector exec; simp)+
  have "counted (client_counts other) (case x of None \<Rightarrow> skip | Some c \<Rightarrow> TcpConnection_shutdown exec c)" for x
    using counted_shutdown [folded client_counts_def, of exec, OF exec] by (cases x) (simp_all add: counted_control(2))
  then show "counted (client_counts other) (TcpClient_disconnect exec)"
    unfolding TcpClient_disconnect_def by (intro counted_intros) simp_all
qed

text \<open>Functors, callbacks and events, for any depth.\<close>

lemma counted_exec_call:
  assumes user: "\<And>cb c buf. counted (client_counts other) (user cb c buf)"
  shows "(\<forall>f. counted (client_counts other) (client_exec user n f)) \<and>
    (\<forall>cb c buf. counted (client_counts other) (client_call user n cb c buf))"
proof (induction n)
  case 0
  then show ?case by (simp add: counted_control(5))
next
  case (Suc n)
  then have exec: "counted (client_counts other) (client_exec user n f)"
    and call: "counted (client_counts other) (client_call user n cb c buf)" for f cb c buf
    by blast+
  show ?case
  proof (intro conjI allI)
    fix f
    show "counted (client_counts other) (client_exec user (Suc n) f)"
      using counted_connectEstablished [folded client_counts_def, of "client_call user n", OF call]
        counted_connectDestroyed [folded client_counts_def, of "client_call user n", OF call]
        neutral [OF neutral_conn(3)] counted_sends [folded client_counts_def]
        counted_connector(1,3) [of "client_exec user n", OF exec] counted_connector_state(4)
      by (cases f) (simp_all add: counted_control(5))
    fix cb c buf
    show "counted (client_counts other) (client_call user (Suc n) cb c buf)"
      using counted_removeConnection [of "client_exec user n", OF exec] user counted_control(2)
      by (cases cb) (simp_all add: skip_def [abs_def] counted_control(2))
  qed
qed

lemma counted_fire:
  assumes user: "\<And>cb c buf. counted (client_counts other) (user cb c buf)"
  shows "counted (client_counts other) (client_fire user n cb)"
proof -
  have exec: "counted (client_counts other) (client_exec user n f)"
    and call: "counted (client_counts other) (client_call user n cb c buf)" for f cb c buf
    using counted_exec_call [of user, OF user] by blast+
  show ?thesis
    unfolding client_fire_def
    using neutral [OF neutral_loop(2)] counted_handleRead [folded client_counts_def, of "client_call user n", OF call]
      counted_handleWrite [folded client_counts_def] counted_handleClose [folded client_counts_def, of "client_call user n", OF call]
      neutral [OF neutral_conn(2)] counted_connector(5,7) [of "client_exec user n", OF exec]
      counted_newConnection [of "client_call user n", OF call]
    by (cases cb) (simp_all add: counted_control(5))
qed

end

section \<open>Schedules\<close>

text \<open>
  What the threads of a client program do: the loop runs a turn, or a thread calls an operation
  of the client or of a connection.
\<close>

datatype client_op =
    Cli_turn loop_id "int \<times> 16 word list"
  | Cli_connect
  | Cli_disconnect
  | Cli_stop
  | Cli_send conn_id "byte list"
  | Cli_sendChar conn_id char_ptr nat
  | Cli_shutdown conn_id

fun run_client_op :: "'z client_call_fn \<Rightarrow> nat \<Rightarrow> nat \<times> client_op \<Rightarrow> 'z client_stmt" where
  "run_client_op user n (t, Cli_turn l k) =
     on_thread t (EventLoop_turn (client_fire user n) (client_exec user n) release_functor l k)"
| "run_client_op user n (t, Cli_connect) = on_thread t (TcpClient_connect (client_exec user n))"
| "run_client_op user n (t, Cli_disconnect) = on_thread t (TcpClient_disconnect (client_exec user n))"
| "run_client_op user n (t, Cli_stop) = on_thread t (TcpClient_stop (client_exec user n))"
| "run_client_op user n (t, Cli_send c m) = on_thread t (TcpConnection_send (client_exec user n) c m)"
| "run_client_op user n (t, Cli_sendChar c p len) = on_thread t (TcpConnection_sendChar (client_exec user n) c p len)"
| "run_client_op user n (t, Cli_shutdown c) = on_thread t (TcpConnection_shutdown (client_exec user n) c)"

context client_ownership
begin

lemma counted_on_thread:
  assumes "counted (client_counts other) s"
  shows "counted (client_counts other) (on_thread t s)"
proof (rule countedI)
  fix h w w'
  assume w: "client_counts other h w" and "on_thread t s w = Ok w'"
  then obtain w1 where w1: "s (w\<lparr>w_thread := t\<rparr>) = Ok w1" and w': "w' = w1\<lparr>w_thread := w_thread w\<rparr>"
    by (auto simp: on_thread_def split: sum.splits)
  have "client_counts other h (w\<lparr>w_thread := t\<rparr>)" by (rule same_owners [OF w]) simp_all
  from step [OF assms this w1] have "client_counts other h w1" .
  then show "client_counts other h w'" unfolding w' by (rule same_owners) simp_all
qed

lemma counted_schedule:
  assumes user: "\<And>cb c buf. counted (client_counts other) (user cb c buf)"
  shows "counted (client_counts other) (block (map (run_client_op user n) ops))"
proof (rule counted_map)
  fix x assume "x \<in> set ops"
  have exec: "counted (client_counts other) (client_exec user n f)" for f
    using counted_exec_call [of user, OF user] by blast
  have "counted (client_counts other) (EventLoop_turn (client_fire user n) (client_exec user n) release_functor l k)" for l k
    by (rule counted_turn [folded client_counts_def]) (rule counted_fire [OF user], rule exec)
  then show "counted (client_counts other) (run_client_op user n x)"
    using counted_send [folded client_counts_def, of "client_exec user n", OF exec]
      counted_shutdown [folded client_counts_def, of "client_exec user n", OF exec]
      counted_client [of "client_exec user n", OF exec]
    by (cases x; cases "snd x") (auto intro: counted_on_thread)
qed

end

section \<open>The RPC client\<close>

definition rc_own :: "('j, 'z) rpc_client_net_scheme \<Rightarrow> conn_id \<Rightarrow> nat" where
  "rc_own w c = (if rc_conn w = Some c then 1 else 0)"

interpretation rpc_client: client_ownership rc_own
proof
  fix w w' :: "('j, 'z) rpc_client_net_scheme"
  assume "client_net.more w' = client_net.more w"
  then have "rc_conn w' = rc_conn w" by (cases w; cases w'; simp)
  then show "rc_own w' = rc_own w" by (simp add: rc_own_def fun_eq_iff)
qed

lemma counted_onConnection: "counted (client_counts rc_own) (RPC_Client_onConnection c)"
proof (rule countedI)
  fix h and w w' :: "('a, 'b) rpc_client_net_scheme"
  assume w: "client_counts rc_own h w" and "RPC_Client_onConnection c w = Ok w'"
  then obtain w1 where w1: "conn_ref c w = Ok w1"
    and last: "(case rc_conn w of None \<Rightarrow> skip | Some old \<Rightarrow> conn_unref old) (w1\<lparr>rc_conn := Some c\<rparr>) = Ok w'"
    by (auto simp: RPC_Client_onConnection_def modify_def split: sum.splits)
  let ?w2 = "w1\<lparr>rc_conn := Some c\<rparr>" and ?h = "\<lambda>b. h b + (if rc_conn w = Some b then 1 else 0)"
  have same: "rc_conn w1 = rc_conn w" using w1 by (auto simp: conn_ref_def conn_access split: option.splits)
  note d = countsD [OF rpc_client.ref [OF w w1, unfolded client_counts_def]]
  have "refs ?w2 b = (client_own ?w2 b + rc_own ?w2 b) + queued ?w2 b + ?h b" for b
    using d(2) [of b] same by (cases "b = c") (simp_all add: refs_def queued_def holding_def rc_own_def client_own_def)
  then have held: "client_counts rc_own ?h ?w2"
    unfolding client_counts_def using d(1,4) d(3) by (intro countsI) (simp_all add: refs_def client_extra_def)
  show "client_counts rc_own h w'"
  proof (cases "rc_conn w")
    case None
    with held last show ?thesis by (simp add: skip_def)
  next
    case (Some old)
    then have "?h = holding old h" by (auto simp: holding_def fun_eq_iff)
    with held last Some show ?thesis by (simp add: rpc_client.unref)
  qed
qed

lemma counted_client_onMessage: "counted (client_counts rc_own) (RPC_Client_onMessage cs buf)"
proof (rule countedI)
  fix h and w w' :: "('a, 'b) rpc_client_net_scheme"
  assume w: "client_counts rc_own h w" and "RPC_Client_onMessage cs buf w = Ok w'"
  then show "client_counts rc_own h w'"
    by (auto simp: RPC_Client_onMessage_def modify_def if_then_def rc_own_def fun_eq_iff
        elim!: rpc_client.other_owners split: if_splits)
qed

lemma counted_rpc_client_user: "counted (client_counts rc_own) (rpc_client_user cs cb c buf)"
  using counted_onConnection counted_client_onMessage counted_control(2)
  by (cases cb) (simp_all add: rpc_client_user_def)

section \<open>Properties\<close>

text \<open>
  C14. Shared ownership in an RPC client is exact: in every schedule of turns of its loop and
  calls from any thread (connects, disconnects, stops, sends), with refused and retried
  connection attempts and lost connections, the use count of each connection is the number
  of references from \<open>connection_\<close>, from \<open>conn_\<close> and from the queue, and a connection is alive
  exactly if there are any. So the connection that \<open>call\<close> sends on always exists.
\<close>

theorem rpc_client_reference_counts_exact:
  assumes start: "client_counts rc_own (\<lambda>_. 0) w"
    and run: "block (map (run_client_op (rpc_client_user cs) n) ops) w = Ok w'"
  shows "refs w' c = client_own w' c + rc_own w' c + queued w' c \<and>
    (n_conns w' c = None \<longleftrightarrow> client_own w' c = 0 \<and> rc_own w' c = 0 \<and> queued w' c = 0)"
proof -
  have "client_counts rc_own (\<lambda>_. 0) w'"
    by (rule rpc_client.step [OF rpc_client.counted_schedule [of "rpc_client_user cs", OF counted_rpc_client_user] start run])
  note d = countsD [OF this [unfolded client_counts_def]]
  have "refs w' c = client_own w' c + rc_own w' c + queued w' c" using d(2) [of c] by simp
  moreover have "n_conns w' c = None \<Longrightarrow> refs w' c = 0" by (simp add: refs_def)
  ultimately show ?thesis using d(3) [of c] by (cases "n_conns w' c") auto
qed

text \<open>The caller of the examples, with the client's own reference and fresh addresses.\<close>

definition example_owned_net :: "json rpc_client_net" where
  "example_owned_net = (example_caller [] 0)\<lparr>n_conns := [0 \<mapsto> (example_conn kConnected [])\<lparr>tc_refs := 2\<rparr>],
     n_client := Some (example_client\<lparr>cl_connection := Some 0\<rparr>), n_client_alloc := smap (\<lambda>i. (Suc i, 100 + i)) nats\<rparr>"

lemma example_owned_simps:
  "n_conns example_owned_net = [0 \<mapsto> (example_conn kConnected [])\<lparr>tc_refs := 2\<rparr>]" "rc_conn example_owned_net = Some 0"
  "n_client example_owned_net = Some (example_client\<lparr>cl_connection := Some 0\<rparr>)" "w_thread example_owned_net = 2"
  "n_client_alloc example_owned_net = smap (\<lambda>i. (Suc i, 100 + i)) nats"
  "w_loops example_owned_net = [4 \<mapsto> the (w_loops (example_net kConnected [] (sconst 1)) 4)]"
  "tc_loop (example_conn kConnected []) = 4" "tc_state (example_conn kConnected []) = kConnected"
  "el_pendingFunctors (the (w_loops (example_net kConnected [] (sconst 1)) 4)) = []"
  "el_threadId (the (w_loops (example_net kConnected [] (sconst 1)) 4)) = 1"
  by (simp_all add: example_owned_net_def example_caller_def client_world_def connector_world_def net.defs connector_net.defs
      client_net.defs rpc_client_net.defs example_conn_def new_connection_def) (auto simp: example_net_def fun_eq_iff)

lemma example_owned: "client_counts rc_own (\<lambda>_. 0) example_owned_net"
proof -
  let ?w = example_owned_net
  have own: "client_own ?w c = (if c = 0 then 1 else 0)" "rc_own ?w c = (if c = 0 then 1 else 0)" for c
    by (simp_all add: client_own_def rc_own_def example_owned_simps)
  have queued: "queued ?w c = 0" for c by (simp add: queued_def example_owned_simps)
  have refs: "refs ?w c = (if c = 0 then 2 else 0)" for c by (simp add: refs_def example_owned_simps)
  have "client_extra ?w" by (simp add: client_extra_def example_owned_simps)
  then show ?thesis
    unfolding client_counts_def using own queued refs
    by (intro countsI) (simp_all add: example_owned_simps split: if_splits)
qed

theorem rpc_client_reference_counts_exact_witness:
  "\<exists>w'. block (map (run_client_op (rpc_client_user True) 1) [(2, Cli_disconnect)]) example_owned_net = Ok w' \<and>
    refs w' 0 = 3 \<and> client_own w' 0 = 1 \<and> rc_own w' 0 = 1 \<and> queued w' 0 = 1"
proof -
  let ?w = example_owned_net
  let ?el = "the (w_loops (example_net kConnected [] (sconst 1)) 4)"
  let ?k = "(example_conn kConnected [])\<lparr>tc_state := kDisconnecting, tc_refs := 3\<rparr>"
  let ?w' = "?w\<lparr>n_conns := [0 \<mapsto> ?k], w_loops := [4 \<mapsto> ?el\<lparr>el_pendingFunctors := [Fn_shutdownInLoop 0],
      el_pipeBytes := Suc (el_pipeBytes ?el)\<rparr>], n_client := Some (example_client\<lparr>cl_connection := Some 0, cl_connect := False\<rparr>)\<rparr>"
  have run: "block (map (run_client_op (rpc_client_user True) 1) [(2, Cli_disconnect)]) ?w = Ok ?w'"
    by (simp add: on_thread_def TcpClient_disconnect_def client_access TcpConnection_shutdown_def TcpConnection_setState_def
        conn_access run_bound_def EventLoop_isInLoopThread_def conn_ref_def EventLoop_runInLoop_def EventLoop_wakeup_def
        if_then_def loop_access example_owned_simps numeral_3_eq_3)
  have own: "client_own ?w' 0 = 1" "rc_own ?w' 0 = 1" by (simp_all add: client_own_def rc_own_def example_owned_simps)
  have "refs ?w' 0 = 3" by (simp add: refs_def)
  moreover from rpc_client_reference_counts_exact [OF example_owned run, of 0]
  have "refs ?w' 0 = client_own ?w' 0 + rc_own ?w' 0 + queued ?w' 0" by blast
  ultimately show ?thesis using run own by (intro exI [of _ ?w']) simp
qed

end
