(* ===== verification/Interleaving.thy ===== *)
theory Interleaving
  imports Prelude
begin

text \<open>
  What the concurrent components share: a simulation between a step relation and a
  specification, lifted to whole runs, a bound on the length of runs by a measure, and the
  specification of a first-in first-out channel.
\<close>

section \<open>Simulation\<close>

locale simulation =
  fixes step :: "'s \<Rightarrow> 's \<Rightarrow> bool"
    and spec :: "'a \<Rightarrow> 'a \<Rightarrow> bool"
    and abs :: "'s \<Rightarrow> 'a"
    and inv :: "'s \<Rightarrow> bool"
  assumes step_inv: "inv s \<Longrightarrow> step s s' \<Longrightarrow> inv s'"
    and step_spec: "inv s \<Longrightarrow> step s s' \<Longrightarrow> abs s' = abs s \<or> spec (abs s) (abs s')"
begin

lemma run_inv: "step\<^sup>*\<^sup>* s s' \<Longrightarrow> inv s \<Longrightarrow> inv s'"
  by (induction rule: rtranclp_induct) (auto intro: step_inv)

lemma run_spec: "step\<^sup>*\<^sup>* s s' \<Longrightarrow> inv s \<Longrightarrow> spec\<^sup>*\<^sup>* (abs s) (abs s')"
proof (induction rule: rtranclp_induct)
  case base
  then show ?case by simp
next
  case (step s' s'')
  have "inv s'" using step.hyps(1) step.prems by (rule run_inv)
  then have "abs s'' = abs s' \<or> spec (abs s') (abs s'')" using step.hyps(2) by (rule step_spec)
  with step.IH [OF step.prems] show ?case by (auto intro: rtranclp.rtrancl_into_rtrancl)
qed

end

section \<open>Coming to rest\<close>

text \<open>
  Every run from \<open>s\<close> has at most \<open>n\<close> steps, some run ends where no step is possible, and all
  runs that end there end with \<open>Q\<close>.
\<close>

definition settles :: "('s \<Rightarrow> 's \<Rightarrow> bool) \<Rightarrow> nat \<Rightarrow> 's \<Rightarrow> ('s \<Rightarrow> bool) \<Rightarrow> bool" where
  "settles step n s Q \<longleftrightarrow>
     (\<forall>k s'. (step ^^ k) s s' \<longrightarrow> k \<le> n) \<and>
     (\<exists>s'. step\<^sup>*\<^sup>* s s' \<and> (\<forall>u. \<not> step s' u)) \<and>
     (\<forall>s'. step\<^sup>*\<^sup>* s s' \<longrightarrow> (\<forall>u. \<not> step s' u) \<longrightarrow> Q s')"

lemma settles_run: "settles step n s Q \<Longrightarrow> \<exists>s'. step\<^sup>*\<^sup>* s s' \<and> (\<forall>u. \<not> step s' u) \<and> Q s'"
  unfolding settles_def by blast

text \<open>Steps that keep an invariant and decrease a measure come to rest.\<close>

locale settling =
  fixes step :: "'s \<Rightarrow> 's \<Rightarrow> bool"
    and inv :: "'s \<Rightarrow> bool"
    and size_of :: "'s \<Rightarrow> nat"
  assumes keeps_inv: "inv s \<Longrightarrow> step s s' \<Longrightarrow> inv s'"
    and decreases: "inv s \<Longrightarrow> step s s' \<Longrightarrow> size_of s' < size_of s"
begin

lemma run_bound: "(step ^^ n) s s' \<Longrightarrow> inv s \<Longrightarrow> inv s' \<and> n + size_of s' \<le> size_of s"
proof (induction n arbitrary: s')
  case 0
  then show ?case by auto
next
  case (Suc n)
  then obtain u where u: "(step ^^ n) s u" "step u s'" by auto
  from Suc.IH [OF u(1) Suc.prems(2)] have iu: "inv u" "n + size_of u \<le> size_of s" by auto
  with keeps_inv [OF iu(1) u(2)] decreases [OF iu(1) u(2)] show ?case by simp
qed

lemma run_inv: "step\<^sup>*\<^sup>* s s' \<Longrightarrow> inv s \<Longrightarrow> inv s'"
  by (induction rule: rtranclp_induct) (auto intro: keeps_inv)

lemma comes_to_rest: "inv s \<Longrightarrow> \<exists>s'. step\<^sup>*\<^sup>* s s' \<and> inv s' \<and> (\<forall>u. \<not> step s' u)"
proof (induction "size_of s" arbitrary: s rule: less_induct)
  case less
  show ?case
  proof (cases "\<exists>u. step s u")
    case True
    then obtain u where u: "step s u" by blast
    from less.hyps [OF decreases [OF less.prems u] keeps_inv [OF less.prems u]]
    obtain s' where "step\<^sup>*\<^sup>* u s'" "inv s'" "\<forall>u. \<not> step s' u" by blast
    with u show ?thesis by (meson converse_rtranclp_into_rtranclp)
  next
    case False
    with less.prems show ?thesis by blast
  qed
qed

lemma settlesI:
  assumes "inv s" "\<And>s'. step\<^sup>*\<^sup>* s s' \<Longrightarrow> inv s' \<Longrightarrow> (\<And>u. \<not> step s' u) \<Longrightarrow> Q s'"
  shows "settles step (size_of s) s Q"
  unfolding settles_def
  using run_bound [OF _ assms(1)] comes_to_rest [OF assms(1)] run_inv [OF _ assms(1)] assms(2) by fastforce

end

section \<open>First in, first out\<close>

text \<open>What went in and what came out of a channel, in order.\<close>

inductive fifo_step :: "'a list \<times> 'a list \<Rightarrow> 'a list \<times> 'a list \<Rightarrow> bool" where
  fifo_put: "fifo_step (ins, outs) (ins @ [v], outs)"
| fifo_get: "ins = outs @ v # rest \<Longrightarrow> fifo_step (ins, outs) (ins, outs @ [v])"

inductive_cases fifo_stepE: "fifo_step (ins, outs) (ins', outs')"

lemma fifo_prefix: "fifo_step\<^sup>*\<^sup>* ([], []) (ins, outs) \<Longrightarrow> \<exists>rest. ins = outs @ rest"
proof (induction "(ins, outs)" arbitrary: ins outs rule: rtranclp_induct)
  case base
  then show ?case by simp
next
  case (step y)
  obtain i o' where y: "y = (i, o')" by fastforce
  with step.hyps(3) obtain rest where "i = o' @ rest" by blast
  with step.hyps(2) y show ?case by (auto elim!: fifo_stepE)
qed

end
