(* ===== verification/ThreadSafeQueue.thy ===== *)
theory ThreadSafeQueue
  imports Interleaving "HOL-Library.Word"
begin

text \<open>
  \<open>ThreadSafeQueue.h\<close>: a queue shared by threads. The critical sections are functions on
  the contents; the interleavings of the threads are a step relation, which counts the
  threads at each point of the code between two atomic actions. A wait on the condition
  variable tests its predicate with the mutex held and gives the mutex up when it sleeps.
\<close>

section \<open>Critical sections\<close>

definition ThreadSafeQueue_push :: "'a \<Rightarrow> 'a list \<Rightarrow> 'a list" where
  "ThreadSafeQueue_push val q = q @ [val]"

text \<open>The result, the value stored in \<open>val\<close> and the new contents.\<close>

definition ThreadSafeQueue_nonBlockingDequeue :: "'a list \<Rightarrow> (bool \<times> 'a option) \<times> 'a list" where
  "ThreadSafeQueue_nonBlockingDequeue q = (case q of
     [] \<Rightarrow> ((False, None), []) | v # vs \<Rightarrow> ((True, Some v), vs))"

definition ThreadSafeQueue_empty :: "'a list \<Rightarrow> bool" where
  "ThreadSafeQueue_empty q \<longleftrightarrow> q = []"

definition ThreadSafeQueue_size :: "'a list \<Rightarrow> int" where
  "ThreadSafeQueue_size q = sint (word_of_nat (length q) :: 32 word)"

section \<open>Threads\<close>

text \<open>
  \<open>qs_entering\<close>: threads in \<open>blockingDequeue\<close> that are about to test the predicate (the
  woken ones included); \<open>qs_tested\<close>: a thread has found the queue empty and still holds the
  mutex; \<open>qs_waiting\<close>: threads asleep on the condition variable; \<open>qs_notifying\<close>: threads
  in \<open>enqueue\<close> after the push. \<open>qs_in\<close> and \<open>qs_out\<close> log the values pushed and popped.
\<close>

record 'a queue_sys =
  qs_q :: "'a list"
  qs_tested :: bool
  qs_entering :: nat
  qs_waiting :: nat
  qs_notifying :: nat
  qs_in :: "'a list"
  qs_out :: "'a list"

definition queue_init :: "'a queue_sys" where
  "queue_init = \<lparr>qs_q = [], qs_tested = False, qs_entering = 0, qs_waiting = 0, qs_notifying = 0, qs_in = [], qs_out = []\<rparr>"

definition queue_notify_one :: "'a queue_sys \<Rightarrow> 'a queue_sys" where
  "queue_notify_one s = (if qs_waiting s = 0 then s
     else s\<lparr>qs_waiting := qs_waiting s - 1, qs_entering := Suc (qs_entering s)\<rparr>)"

text \<open>The steps that threads already inside an operation make.\<close>

inductive queue_step :: "'a queue_sys \<Rightarrow> 'a queue_sys \<Rightarrow> bool" where
  notify: "qs_notifying s = Suc n \<Longrightarrow> queue_step s (queue_notify_one (s\<lparr>qs_notifying := n\<rparr>))"
| take: "qs_entering s = Suc n \<Longrightarrow> \<not> qs_tested s \<Longrightarrow> ThreadSafeQueue_nonBlockingDequeue (qs_q s) = ((True, Some v), vs) \<Longrightarrow>
     queue_step s (s\<lparr>qs_entering := n, qs_q := vs, qs_out := qs_out s @ [v]\<rparr>)"
| test: "qs_entering s = Suc n \<Longrightarrow> \<not> qs_tested s \<Longrightarrow> ThreadSafeQueue_empty (qs_q s) \<Longrightarrow>
     queue_step s (s\<lparr>qs_entering := n, qs_tested := True\<rparr>)"
| sleep: "qs_tested s \<Longrightarrow> queue_step s (s\<lparr>qs_tested := False, qs_waiting := Suc (qs_waiting s)\<rparr>)"

text \<open>With the calls of new operations and spurious wake-ups.\<close>

inductive queue_run_step :: "'a queue_sys \<Rightarrow> 'a queue_sys \<Rightarrow> bool" where
  inside: "queue_step s s' \<Longrightarrow> queue_run_step s s'"
| enqueue: "\<not> qs_tested s \<Longrightarrow> queue_run_step s
     (s\<lparr>qs_q := ThreadSafeQueue_push v (qs_q s), qs_notifying := Suc (qs_notifying s), qs_in := qs_in s @ [v]\<rparr>)"
| blockingDequeue: "queue_run_step s (s\<lparr>qs_entering := Suc (qs_entering s)\<rparr>)"
| nonBlockingDequeue: "\<not> qs_tested s \<Longrightarrow> ThreadSafeQueue_nonBlockingDequeue (qs_q s) = ((True, Some v), vs) \<Longrightarrow>
     queue_run_step s (s\<lparr>qs_q := vs, qs_out := qs_out s @ [v]\<rparr>)"
| spurious: "qs_waiting s = Suc n \<Longrightarrow> queue_run_step s (s\<lparr>qs_waiting := n, qs_entering := Suc (qs_entering s)\<rparr>)"

inductive_cases queue_stepE: "queue_step s s'"
inductive_cases queue_run_stepE: "queue_run_step s s'"

lemma nonBlockingDequeue_iff [simp]:
  "ThreadSafeQueue_nonBlockingDequeue q = ((True, Some v), vs) \<longleftrightarrow> q = v # vs"
  by (auto simp: ThreadSafeQueue_nonBlockingDequeue_def split: list.splits)

section \<open>Invariant\<close>

text \<open>
  The logs agree with the contents; while a thread sleeps, every element has a thread that
  is awake for it; a thread that found the queue empty is right as long as it holds the mutex.
\<close>

definition queue_inv :: "'a queue_sys \<Rightarrow> bool" where
  "queue_inv s \<longleftrightarrow> qs_in s = qs_out s @ qs_q s \<and>
     (0 < qs_waiting s \<longrightarrow> length (qs_q s) \<le> qs_entering s + qs_notifying s) \<and>
     (qs_tested s \<longrightarrow> qs_q s = [])"

lemma queue_inv_init: "queue_inv queue_init"
  by (simp add: queue_inv_def queue_init_def)

lemma queue_inv_step: "queue_inv s \<Longrightarrow> queue_step s s' \<Longrightarrow> queue_inv s'"
  by (erule queue_stepE) (auto simp: queue_inv_def queue_notify_one_def ThreadSafeQueue_empty_def split: if_splits)

lemma queue_inv_run_step:
  assumes "queue_inv s" "queue_run_step s s'"
  shows "queue_inv s'"
  using assms(2)
proof (cases rule: queue_run_step.cases)
  case inside
  with assms(1) show ?thesis by (rule queue_inv_step)
qed (use assms(1) in \<open>auto simp: queue_inv_def ThreadSafeQueue_push_def\<close>)

definition queue_logs :: "'a queue_sys \<Rightarrow> 'a list \<times> 'a list" where
  "queue_logs s = (qs_in s, qs_out s)"

lemma queue_step_fifo:
  assumes "queue_inv s" "queue_run_step s s'"
  shows "queue_logs s' = queue_logs s \<or> fifo_step (queue_logs s) (queue_logs s')"
  using assms(2)
proof (cases rule: queue_run_step.cases)
  case inside
  then show ?thesis
    using assms(1) by (cases rule: queue_step.cases)
      (auto simp: queue_logs_def queue_inv_def queue_notify_one_def intro: fifo_step.intros)
next
  case (enqueue v)
  then show ?thesis using fifo_put [of "qs_in s" "qs_out s" v] by (simp add: queue_logs_def)
qed (use assms(1) in \<open>auto simp: queue_logs_def queue_inv_def intro: fifo_step.intros\<close>)

interpretation queue_sim: simulation queue_run_step fifo_step queue_logs queue_inv
  by unfold_locales (erule (1) queue_inv_run_step, erule (1) queue_step_fifo)

text \<open>The work left for the threads inside operations.\<close>

definition queue_work :: "'a queue_sys \<Rightarrow> nat" where
  "queue_work s = 3 * qs_notifying s + 2 * qs_entering s + (if qs_tested s then 1 else 0)"

interpretation queue_rest: settling queue_step queue_inv queue_work
  by unfold_locales (erule (1) queue_inv_step,
      auto elim!: queue_stepE simp: queue_work_def queue_notify_one_def split: if_splits)

lemma queue_at_rest:
  assumes "\<And>u. \<not> queue_step s u"
  shows "qs_notifying s = 0" "qs_entering s = 0" "\<not> qs_tested s"
proof -
  show t: "\<not> qs_tested s" using assms queue_step.sleep by blast
  show "qs_notifying s = 0" using assms queue_step.notify by (metis not0_implies_Suc)
  show "qs_entering s = 0"
  proof (rule ccontr)
    assume "qs_entering s \<noteq> 0"
    then obtain n where n: "qs_entering s = Suc n" using not0_implies_Suc by blast
    show False
    proof (cases "qs_q s")
      case Nil
      then have "ThreadSafeQueue_empty (qs_q s)" by (simp add: ThreadSafeQueue_empty_def)
      then show False using assms queue_step.test [OF n t] by blast
    next
      case (Cons v vs)
      then show False using assms queue_step.take [OF n t, of v vs] by simp
    qed
  qed
qed

section \<open>Properties\<close>

text \<open>
  C9. The queue is first in, first out for all threads together: in every interleaving of
  any number of threads, spurious wake-ups included, the values taken out are the values
  put in, in the same order, without loss or duplication; every run of the threads is a run
  of the sequential channel.
\<close>

theorem queue_refines_fifo:
  assumes "queue_run_step\<^sup>*\<^sup>* queue_init s"
  shows "fifo_step\<^sup>*\<^sup>* ([], []) (qs_in s, qs_out s) \<and> qs_in s = qs_out s @ qs_q s"
proof -
  have "fifo_step\<^sup>*\<^sup>* (queue_logs queue_init) (queue_logs s)" "queue_inv s"
    using queue_sim.run_spec [OF assms queue_inv_init] queue_sim.run_inv [OF assms queue_inv_init] by blast+
  then show ?thesis by (simp add: queue_logs_def queue_inv_def queue_init_def)
qed

text \<open>A run: a consumer sleeps, two values are put, one notification has been delivered.\<close>

definition example_queue :: "nat queue_sys" where
  "example_queue = \<lparr>qs_q = [7, 8], qs_tested = False, qs_entering = 1, qs_waiting = 0, qs_notifying = 1, qs_in = [7, 8], qs_out = []\<rparr>"

lemma example_queue_reached: "queue_run_step\<^sup>*\<^sup>* queue_init example_queue"
proof -
  let ?s0 = "queue_init :: nat queue_sys"
  let ?s1 = "?s0\<lparr>qs_entering := 1\<rparr>"
  let ?s2 = "?s1\<lparr>qs_entering := 0, qs_tested := True\<rparr>"
  let ?s3 = "?s2\<lparr>qs_tested := False, qs_waiting := 1\<rparr>"
  let ?s4 = "?s3\<lparr>qs_q := [7], qs_notifying := 1, qs_in := [7]\<rparr>"
  let ?s5 = "queue_notify_one (?s4\<lparr>qs_notifying := 0\<rparr>)"
  have "queue_run_step ?s0 ?s1" using blockingDequeue [of ?s0] by (simp add: queue_init_def)
  moreover have "queue_run_step ?s1 ?s2"
    using inside [OF test [of ?s1 0]] by (simp add: queue_init_def ThreadSafeQueue_empty_def)
  moreover have "queue_run_step ?s2 ?s3" using inside [OF sleep [of ?s2]] by (simp add: queue_init_def)
  moreover have "queue_run_step ?s3 ?s4" using enqueue [of ?s3 7] by (simp add: queue_init_def ThreadSafeQueue_push_def)
  moreover have "queue_run_step ?s4 ?s5" using inside [OF notify [of ?s4 0]] by (simp add: queue_init_def)
  moreover have "queue_run_step ?s5 example_queue"
    using enqueue [of ?s5 8] by (simp add: queue_init_def queue_notify_one_def ThreadSafeQueue_push_def example_queue_def)
  ultimately show ?thesis by (meson converse_rtranclp_into_rtranclp rtranclp.rtrancl_refl)
qed

theorem queue_refines_fifo_witness:
  "fifo_step\<^sup>*\<^sup>* ([], []) ([7, 8], [] :: nat list)"
  using queue_refines_fifo [OF example_queue_reached] by (simp add: example_queue_def)

text \<open>
  C17. No wake-up is lost: from every reachable state, if no new operation is called, the
  threads come to rest after a bounded number of steps, and when they have, no consumer
  sleeps while the queue holds a value.
\<close>

theorem queue_settles_without_lost_wakeup:
  assumes "queue_run_step\<^sup>*\<^sup>* queue_init s"
  shows "settles queue_step (queue_work s) s (\<lambda>s'. qs_waiting s' = 0 \<or> qs_q s' = [])"
proof (rule queue_rest.settlesI)
  show "queue_inv s" using queue_sim.run_inv [OF assms queue_inv_init] .
  show "qs_waiting s' = 0 \<or> qs_q s' = []" if "queue_inv s'" "\<And>u. \<not> queue_step s' u" for s'
    using that(1) queue_at_rest [OF that(2)] by (auto simp: queue_inv_def)
qed

theorem queue_settles_without_lost_wakeup_witness:
  "settles queue_step 5 example_queue (\<lambda>s'. qs_waiting s' = 0 \<or> qs_q s' = [])"
  using queue_settles_without_lost_wakeup [OF example_queue_reached] by (simp add: queue_work_def example_queue_def)

end
