(* ===== verification/ThreadPool.thy ===== *)
theory ThreadPool
  imports Interleaving
begin

text \<open>
  \<open>ThreadPool.h\<close> and \<open>ThreadJoiner.h\<close>: the worker threads of a pool, its tasks and its
  shutdown. A task is known by a number, together with the state of the promise inside its
  \<open>std::packaged_task\<close>. The interleavings are a step relation that counts the workers at
  each point of \<open>worker_thread\<close>; the mutex is held between steps by at most one worker, which
  has tested the predicate of its wait. \<open>running\<close> is read and written without the mutex.
\<close>

section \<open>State\<close>

text \<open>The promise of a task: \<open>Broken\<close> when the task was destroyed without being called.\<close>

datatype promise = Pending | Fulfilled | Broken

text \<open>Who holds the mutex between steps: a worker whose test failed, or one whose test succeeded.\<close>

datatype pool_mutex = Mutex_free | Mutex_tested | Mutex_awake

text \<open>The destructor: not called, \<open>running\<close> cleared, joining the threads, done.\<close>

datatype pool_dtor = Dtor_none | Dtor_cleared | Dtor_joining | Dtor_done

record pool_sys =
  tp_tasks :: "nat list"
  tp_running :: bool
  tp_mutex :: pool_mutex
  tp_loop :: nat
  tp_entering :: nat
  tp_waiting :: nat
  tp_exited :: nat
  tp_size :: nat
  tp_dtor :: pool_dtor
  tp_promise :: "nat \<rightharpoonup> promise"

definition ThreadPool_new :: "nat \<Rightarrow> pool_sys" where
  "ThreadPool_new n = \<lparr>tp_tasks = [], tp_running = True, tp_mutex = Mutex_free, tp_loop = n,
     tp_entering = 0, tp_waiting = 0, tp_exited = 0, tp_size = n, tp_dtor = Dtor_none, tp_promise = Map.empty\<rparr>"

section \<open>Operations\<close>

definition pool_notify_one :: "pool_sys \<Rightarrow> pool_sys" where
  "pool_notify_one s = (if tp_waiting s = 0 then s
     else s\<lparr>tp_waiting := tp_waiting s - 1, tp_entering := Suc (tp_entering s)\<rparr>)"

definition pool_notify_all :: "pool_sys \<Rightarrow> pool_sys" where
  "pool_notify_all s = s\<lparr>tp_waiting := 0, tp_entering := tp_entering s + tp_waiting s\<rparr>"

text \<open>The critical section of \<open>submit\<close>.\<close>

definition ThreadPool_submit :: "nat \<Rightarrow> pool_sys \<Rightarrow> pool_sys" where
  "ThreadPool_submit t s =
     pool_notify_one (s\<lparr>tp_tasks := tp_tasks s @ [t], tp_promise := (tp_promise s)(t \<mapsto> Pending)\<rparr>)"

definition pool_predicate :: "pool_sys \<Rightarrow> bool" where
  "pool_predicate s \<longleftrightarrow> \<not> tp_running s \<or> tp_tasks s \<noteq> []"

text \<open>
  After a successful wait: leave when the pool is stopping, otherwise pop a task and give
  the mutex up. The loop body has no statement after that: the task is destroyed at the end
  of the block, and its promise is broken (when \<open>submit\<close> has dropped its own reference).
\<close>

definition pool_pop :: "pool_sys \<Rightarrow> pool_sys option" where
  "pool_pop s = (case tp_tasks s of
     [] \<Rightarrow> None
   | t # ts \<Rightarrow> Some (s\<lparr>tp_tasks := ts, tp_promise := (tp_promise s)(t \<mapsto> Broken), tp_mutex := Mutex_free,
       tp_loop := Suc (tp_loop s)\<rparr>))"

text \<open>The steps of the workers.\<close>

inductive worker_step :: "pool_sys \<Rightarrow> pool_sys \<Rightarrow> bool" where
  loop_on: "tp_loop s = Suc n \<Longrightarrow> tp_running s \<Longrightarrow> worker_step s (s\<lparr>tp_loop := n, tp_entering := Suc (tp_entering s)\<rparr>)"
| loop_end: "tp_loop s = Suc n \<Longrightarrow> \<not> tp_running s \<Longrightarrow> worker_step s (s\<lparr>tp_loop := n, tp_exited := Suc (tp_exited s)\<rparr>)"
| test_true: "tp_entering s = Suc n \<Longrightarrow> tp_mutex s = Mutex_free \<Longrightarrow> pool_predicate s \<Longrightarrow>
     worker_step s (s\<lparr>tp_entering := n, tp_mutex := Mutex_awake\<rparr>)"
| test_false: "tp_entering s = Suc n \<Longrightarrow> tp_mutex s = Mutex_free \<Longrightarrow> \<not> pool_predicate s \<Longrightarrow>
     worker_step s (s\<lparr>tp_entering := n, tp_mutex := Mutex_tested\<rparr>)"
| sleep: "tp_mutex s = Mutex_tested \<Longrightarrow> worker_step s (s\<lparr>tp_mutex := Mutex_free, tp_waiting := Suc (tp_waiting s)\<rparr>)"
| leave: "tp_mutex s = Mutex_awake \<Longrightarrow> \<not> tp_running s \<Longrightarrow>
     worker_step s (s\<lparr>tp_mutex := Mutex_free, tp_exited := Suc (tp_exited s)\<rparr>)"
| pop: "tp_mutex s = Mutex_awake \<Longrightarrow> tp_running s \<Longrightarrow> pool_pop s = Some s' \<Longrightarrow> worker_step s s'"

text \<open>The joiner has joined every worker.\<close>

definition ThreadJoiner_joined :: "pool_sys \<Rightarrow> bool" where
  [simp]: "ThreadJoiner_joined s \<longleftrightarrow> tp_exited s = tp_size s"

text \<open>The thread that destroys the pool.\<close>

inductive dtor_step :: "pool_sys \<Rightarrow> pool_sys \<Rightarrow> bool" where
  clear: "tp_dtor s = Dtor_none \<Longrightarrow> dtor_step s (s\<lparr>tp_running := False, tp_dtor := Dtor_cleared\<rparr>)"
| notify_all: "tp_dtor s = Dtor_cleared \<Longrightarrow> dtor_step s ((pool_notify_all s)\<lparr>tp_dtor := Dtor_joining\<rparr>)"
| joined: "tp_dtor s = Dtor_joining \<Longrightarrow> ThreadJoiner_joined s \<Longrightarrow> dtor_step s (s\<lparr>tp_dtor := Dtor_done\<rparr>)"

inductive pool_step :: "pool_sys \<Rightarrow> pool_sys \<Rightarrow> bool" where
  worker: "worker_step s s' \<Longrightarrow> pool_step s s'"
| dtor: "dtor_step s s' \<Longrightarrow> pool_step s s'"
| submit: "tp_mutex s = Mutex_free \<Longrightarrow> tp_dtor s = Dtor_none \<Longrightarrow> tp_promise s t = None \<Longrightarrow>
     pool_step s (ThreadPool_submit t s)"
| spurious: "tp_waiting s = Suc n \<Longrightarrow> pool_step s (s\<lparr>tp_waiting := n, tp_entering := Suc (tp_entering s)\<rparr>)"

inductive_cases worker_stepE: "worker_step s s'"
inductive_cases dtor_stepE: "dtor_step s s'"
inductive_cases pool_stepE: "pool_step s s'"

lemmas pool_ops = pool_notify_one_def pool_notify_all_def ThreadPool_submit_def pool_predicate_def

section \<open>Invariant\<close>

text \<open>
  Every worker is somewhere; a promise is pending exactly for the queued tasks, and broken
  for all others that were submitted; a worker that is awake has a task while the pool runs.
\<close>

definition pool_inv :: "pool_sys \<Rightarrow> bool" where
  "pool_inv s \<longleftrightarrow>
     tp_loop s + tp_entering s + tp_waiting s + tp_exited s + (if tp_mutex s = Mutex_free then 0 else 1) = tp_size s \<and>
     distinct (tp_tasks s) \<and>
     (\<forall>t. tp_promise s t = Some Pending \<longleftrightarrow> t \<in> set (tp_tasks s)) \<and>
     (\<forall>t. tp_promise s t \<noteq> Some Fulfilled) \<and>
     (tp_mutex s = Mutex_awake \<longrightarrow> tp_running s \<longrightarrow> tp_tasks s \<noteq> []) \<and>
     (tp_running s \<longleftrightarrow> tp_dtor s = Dtor_none) \<and>
     (tp_running s \<longrightarrow> tp_exited s = 0) \<and>
     (tp_mutex s = Mutex_tested \<longrightarrow> tp_tasks s = []) \<and>
     (tp_running s \<longrightarrow> 0 < tp_waiting s \<longrightarrow> tp_tasks s \<noteq> [] \<longrightarrow>
        0 < tp_entering s + tp_loop s \<or> tp_mutex s = Mutex_awake)"

lemma pool_inv_new: "pool_inv (ThreadPool_new n)"
  by (simp add: pool_inv_def ThreadPool_new_def)

lemma pool_inv_worker:
  assumes "pool_inv s" "worker_step s s'"
  shows "pool_inv s'"
  using assms(2)
proof (cases rule: worker_step.cases)
  case pop
  then show ?thesis using assms(1) by (auto simp: pool_inv_def pool_pop_def split: list.splits if_splits)
qed (use assms(1) in \<open>auto simp: pool_inv_def pool_predicate_def\<close>)

lemma pool_inv_dtor: "pool_inv s \<Longrightarrow> dtor_step s s' \<Longrightarrow> pool_inv s'"
  by (erule dtor_stepE) (auto simp: pool_inv_def pool_ops)

lemma pool_inv_submit:
  assumes "pool_inv s" "tp_mutex s = Mutex_free" "tp_promise s t = None"
  shows "pool_inv (ThreadPool_submit t s)"
proof -
  have "tp_promise s t = Some Pending \<longleftrightarrow> t \<in> set (tp_tasks s)" using assms(1) by (simp add: pool_inv_def)
  then have "t \<notin> set (tp_tasks s)" using assms(3) by simp
  then show ?thesis using assms(1,2) by (auto simp: pool_inv_def pool_ops)
qed

lemma pool_inv_step:
  assumes "pool_inv s" "pool_step s s'"
  shows "pool_inv s'"
  using assms(2)
proof (cases rule: pool_step.cases)
  case (spurious n)
  then show ?thesis using assms(1) by (auto simp: pool_inv_def)
qed (use assms(1) in \<open>auto intro: pool_inv_worker pool_inv_dtor pool_inv_submit\<close>)

lemma pool_reach_inv: "pool_step\<^sup>*\<^sup>* (ThreadPool_new n) s \<Longrightarrow> pool_inv s"
  by (induction rule: rtranclp_induct) (auto intro: pool_inv_new pool_inv_step)

section \<open>The workers come to rest\<close>

definition pool_work :: "pool_sys \<Rightarrow> nat" where
  "pool_work s = 4 * length (tp_tasks s) + 3 * tp_loop s + 2 * tp_entering s + (if tp_mutex s = Mutex_free then 0 else 1)"

interpretation workers: settling worker_step pool_inv pool_work
proof unfold_locales
  show "pool_work s' < pool_work s" if "pool_inv s" "worker_step s s'" for s s'
    using that(2)
  proof (cases rule: worker_step.cases)
    case pop
    then show ?thesis by (auto simp: pool_work_def pool_pop_def split: list.splits)
  qed (auto simp: pool_work_def)
qed (erule (1) pool_inv_worker)

lemma workers_at_rest:
  assumes "pool_inv s" "\<And>u. \<not> worker_step s u"
  shows "tp_loop s = 0" "tp_mutex s = Mutex_free" "tp_entering s = 0"
proof -
  show "tp_loop s = 0" using assms(2) loop_on loop_end by (cases "tp_loop s") blast+
  show m: "tp_mutex s = Mutex_free"
  proof (cases "tp_mutex s")
    case Mutex_awake
    show ?thesis
    proof (cases "tp_running s")
      case True
      then obtain t ts where "tp_tasks s = t # ts" using assms(1) Mutex_awake by (cases "tp_tasks s") (auto simp: pool_inv_def)
      then show ?thesis using assms(2) pop [OF Mutex_awake True] by (simp add: pool_pop_def)
    qed (use assms(2) leave [OF Mutex_awake] in blast)
  qed (use assms(2) sleep in blast)+
  show "tp_entering s = 0" using assms(2) test_true [OF _ m] test_false [OF _ m] by (cases "tp_entering s") blast+
qed

lemma pool_popD:
  assumes "pool_pop s = Some s'"
  obtains t ts where "tp_tasks s = t # ts" "s' = s\<lparr>tp_tasks := ts, tp_promise := (tp_promise s)(t \<mapsto> Broken),
      tp_mutex := Mutex_free, tp_loop := Suc (tp_loop s)\<rparr>"
  using assms by (auto simp: pool_pop_def split: list.splits)

lemma worker_step_keeps:
  "worker_step s s' \<Longrightarrow> tp_size s' = tp_size s \<and> tp_dtor s' = tp_dtor s \<and> tp_running s' = tp_running s"
  by (erule worker_stepE) (auto elim: pool_popD)

lemma worker_step_promises:
  assumes "worker_step s s'" "pool_inv s"
  shows "dom (tp_promise s') = dom (tp_promise s)"
  using assms(1)
proof (cases rule: worker_step.cases)
  case pop
  then obtain t ts where t: "tp_tasks s = t # ts" "tp_promise s' = (tp_promise s)(t \<mapsto> Broken)"
    by (auto elim: pool_popD)
  then have "tp_promise s t = Some Pending" using assms(2) by (simp add: pool_inv_def)
  then show ?thesis using t(2) by auto
qed simp_all

lemma worker_run_keeps:
  assumes "worker_step\<^sup>*\<^sup>* s s'" "pool_inv s"
  shows "tp_size s' = tp_size s \<and> tp_dtor s' = tp_dtor s \<and> dom (tp_promise s') = dom (tp_promise s)"
  using assms(1)
proof (induction rule: rtranclp_induct)
  case (step y z)
  have "pool_inv y" using step.hyps(1) assms(2) by (rule workers.run_inv)
  with step show ?case using worker_step_keeps [OF step.hyps(2)] worker_step_promises [OF step.hyps(2)] by simp
qed simp

section \<open>Shutting down\<close>

text \<open>What the threads that are left do while the joiner waits.\<close>

inductive shutdown_step :: "pool_sys \<Rightarrow> pool_sys \<Rightarrow> bool" where
  shutdown_worker: "worker_step s s' \<Longrightarrow> shutdown_step s s'"
| shutdown_dtor: "dtor_step s s' \<Longrightarrow> shutdown_step s s'"

inductive_cases shutdown_stepE: "shutdown_step s s'"

lemma pool_inv_shutdown: "pool_inv s \<Longrightarrow> shutdown_step s s' \<Longrightarrow> pool_inv s'"
  by (erule shutdown_stepE) (auto intro: pool_inv_worker pool_inv_dtor)

text \<open>A worker that sleeps when the joiner is waiting sleeps for ever.\<close>

definition hangs :: "pool_sys \<Rightarrow> bool" where
  "hangs s \<longleftrightarrow> pool_inv s \<and> tp_dtor s = Dtor_joining \<and> (0 < tp_waiting s \<or> tp_mutex s = Mutex_tested)"

lemma hangs_step:
  assumes "hangs s" "shutdown_step s s'"
  shows "hangs s'"
proof -
  have inv: "pool_inv s'" using assms by (auto simp: hangs_def intro: pool_inv_shutdown)
  from assms(2) show ?thesis
  proof (cases rule: shutdown_step.cases)
    case shutdown_worker
    then show ?thesis
    proof (cases rule: worker_step.cases)
      case pop
      then show ?thesis using assms(1) by (auto simp: hangs_def pool_inv_def)
    qed (use assms(1) inv in \<open>auto simp: hangs_def\<close>)
  next
    case shutdown_dtor
    then show ?thesis
      using assms(1) by (cases rule: dtor_step.cases) (auto simp: hangs_def pool_inv_def split: if_splits)
  qed
qed

lemma hangs_run: "shutdown_step\<^sup>*\<^sup>* s s' \<Longrightarrow> hangs s \<Longrightarrow> hangs s'"
  by (induction rule: rtranclp_induct) (auto intro: hangs_step)

text \<open>With nobody asleep, the shutdown goes through.\<close>

definition joins :: "pool_sys \<Rightarrow> bool" where
  "joins s \<longleftrightarrow> pool_inv s \<and> tp_dtor s \<in> {Dtor_joining, Dtor_done} \<and> tp_waiting s = 0 \<and> tp_mutex s \<noteq> Mutex_tested"

definition shutdown_work :: "pool_sys \<Rightarrow> nat" where
  "shutdown_work s = 2 * tp_entering s + tp_loop s + (if tp_mutex s = Mutex_free then 0 else 1) +
     (if tp_dtor s = Dtor_done then 0 else 1)"

interpretation shutdown: settling shutdown_step joins shutdown_work
proof unfold_locales
  fix s s' assume s: "joins s" "shutdown_step s s'"
  have stopped: "\<not> tp_running s" using s(1) by (auto simp: joins_def pool_inv_def)
  have inv: "pool_inv s'" using s by (auto simp: joins_def intro: pool_inv_shutdown)
  show "joins s'"
    using s(2) s(1) inv stopped
    by (auto elim!: shutdown_stepE worker_stepE dtor_stepE simp: joins_def pool_predicate_def)
  show "shutdown_work s' < shutdown_work s"
    using s(2) s(1) inv stopped
    by (auto elim!: shutdown_stepE worker_stepE dtor_stepE simp: joins_def pool_predicate_def shutdown_work_def)
qed

lemma shutdown_at_rest:
  assumes "joins s" "\<And>u. \<not> shutdown_step s u"
  shows "tp_dtor s = Dtor_done"
proof (rule ccontr)
  assume "tp_dtor s \<noteq> Dtor_done"
  then have d: "tp_dtor s = Dtor_joining" using assms(1) by (auto simp: joins_def)
  have inv: "pool_inv s" using assms(1) by (simp add: joins_def)
  have "\<not> worker_step s u" for u using assms(2) shutdown_worker by blast
  note rest = workers_at_rest [OF inv this]
  have "tp_exited s = tp_size s" using rest assms(1) inv by (simp add: joins_def pool_inv_def)
  then show False using assms(2) shutdown_dtor [OF joined [OF d]] by simp
qed

section \<open>Properties\<close>

text \<open>
  C34. No task is ever executed: in every interleaving no promise is fulfilled, and as long
  as the pool runs its workers come to rest after a bounded number of steps, having taken
  every submitted task out of the queue and destroyed it, which breaks its promise.
\<close>

theorem submitted_tasks_are_dropped:
  assumes "pool_step\<^sup>*\<^sup>* (ThreadPool_new n) s" "0 < tp_size s" "tp_dtor s = Dtor_none"
  shows "(\<forall>t. tp_promise s t \<noteq> Some Fulfilled) \<and>
    settles worker_step (pool_work s) s (\<lambda>s'. \<forall>t \<in> dom (tp_promise s). tp_promise s' t = Some Broken)"
proof (intro conjI allI workers.settlesI)
  show inv: "pool_inv s" using assms(1) by (rule pool_reach_inv)
  show "tp_promise s t \<noteq> Some Fulfilled" for t using inv by (simp add: pool_inv_def)
  show "\<forall>t \<in> dom (tp_promise s). tp_promise s' t = Some Broken"
    if run: "worker_step\<^sup>*\<^sup>* s s'" and inv': "pool_inv s'" and rest: "\<And>u. \<not> worker_step s' u" for s'
  proof
    fix t assume t: "t \<in> dom (tp_promise s)"
    have s': "tp_size s' = tp_size s" "tp_dtor s' = tp_dtor s" "dom (tp_promise s') = dom (tp_promise s)"
      using worker_run_keeps [OF run inv] by simp_all
    then have run': "tp_running s'" using assms(3) inv' by (simp add: pool_inv_def)
    note idle = workers_at_rest [OF inv' rest]
    then have "tp_waiting s' = tp_size s" using inv' run' s' by (simp add: pool_inv_def)
    then have "tp_tasks s' = []" using inv' run' idle assms(2) by (simp add: pool_inv_def)
    then have "tp_promise s' t \<noteq> Some Pending" "tp_promise s' t \<noteq> Some Fulfilled" using inv' by (simp_all add: pool_inv_def)
    moreover obtain x where "tp_promise s' t = Some x" using t s' by auto
    ultimately show "tp_promise s' t = Some Broken" by (cases x) simp_all
  qed
qed

text \<open>A pool of one worker, which has found no task but does not sleep yet, and one with a task.\<close>

definition tested_pool :: pool_sys where
  "tested_pool = (ThreadPool_new 1)\<lparr>tp_loop := 0, tp_mutex := Mutex_tested\<rparr>"

definition busy_pool :: pool_sys where
  "busy_pool = ThreadPool_submit 5 (ThreadPool_new 1)"

lemma tested_pool_reached: "pool_step\<^sup>*\<^sup>* (ThreadPool_new 1) tested_pool"
proof -
  let ?s1 = "(ThreadPool_new 1)\<lparr>tp_loop := 0, tp_entering := 1\<rparr>"
  have "pool_step (ThreadPool_new 1) ?s1" using worker [OF loop_on [of "ThreadPool_new 1" 0]] by (simp add: ThreadPool_new_def)
  moreover have "pool_step ?s1 tested_pool"
    using worker [OF test_false [of ?s1 0]] by (simp add: ThreadPool_new_def tested_pool_def pool_predicate_def)
  ultimately show ?thesis by (meson converse_rtranclp_into_rtranclp rtranclp.rtrancl_refl)
qed

lemma busy_pool_reached: "pool_step\<^sup>*\<^sup>* (ThreadPool_new 1) busy_pool"
  unfolding busy_pool_def by (rule r_into_rtranclp, rule submit) (simp_all add: ThreadPool_new_def)

theorem submitted_tasks_are_dropped_witness:
  "\<exists>s'. worker_step\<^sup>*\<^sup>* busy_pool s' \<and> tp_promise s' 5 = Some Broken"
proof -
  have "settles worker_step (pool_work busy_pool) busy_pool
      (\<lambda>s'. \<forall>t \<in> dom (tp_promise busy_pool). tp_promise s' t = Some Broken)"
    using submitted_tasks_are_dropped [OF busy_pool_reached]
    by (simp add: busy_pool_def ThreadPool_submit_def pool_notify_one_def ThreadPool_new_def)
  from settles_run [OF this] show ?thesis
    by (auto simp: busy_pool_def ThreadPool_submit_def pool_notify_one_def ThreadPool_new_def)
qed

text \<open>
  The destructor can hang: if it is called when a worker has tested the predicate of its
  wait and does not sleep yet, the notification finds nobody asleep, the worker goes to sleep
  and, spurious wake-ups aside, the joiner never returns.
\<close>

theorem shutdown_can_hang:
  assumes "pool_step\<^sup>*\<^sup>* (ThreadPool_new n) s" "tp_mutex s = Mutex_tested" "tp_dtor s = Dtor_none"
  shows "\<exists>s'. shutdown_step\<^sup>*\<^sup>* s s' \<and> tp_dtor s' = Dtor_joining \<and>
    (\<forall>s''. shutdown_step\<^sup>*\<^sup>* s' s'' \<longrightarrow> tp_dtor s'' \<noteq> Dtor_done)"
proof -
  have inv: "pool_inv s" using assms(1) by (rule pool_reach_inv)
  let ?s1 = "s\<lparr>tp_running := False, tp_dtor := Dtor_cleared\<rparr>"
  let ?s2 = "(pool_notify_all ?s1)\<lparr>tp_dtor := Dtor_joining\<rparr>"
  have steps: "shutdown_step s ?s1" "shutdown_step ?s1 ?s2"
    using shutdown_dtor [OF clear [OF assms(3)]] shutdown_dtor [OF notify_all [of ?s1]] by simp_all
  have "hangs ?s2"
    using pool_inv_shutdown [OF pool_inv_shutdown [OF inv steps(1)] steps(2)] assms(2)
    by (simp add: hangs_def pool_notify_all_def)
  then have "\<forall>s''. shutdown_step\<^sup>*\<^sup>* ?s2 s'' \<longrightarrow> tp_dtor s'' \<noteq> Dtor_done"
    using hangs_run by (auto simp: hangs_def)
  moreover have "shutdown_step\<^sup>*\<^sup>* s ?s2" using steps by (meson converse_rtranclp_into_rtranclp rtranclp.rtrancl_refl)
  ultimately show ?thesis by (intro exI [of _ ?s2]) simp
qed

theorem shutdown_can_hang_witness:
  "\<exists>s'. shutdown_step\<^sup>*\<^sup>* tested_pool s' \<and> (\<forall>s''. shutdown_step\<^sup>*\<^sup>* s' s'' \<longrightarrow> tp_dtor s'' \<noteq> Dtor_done)"
  using shutdown_can_hang [OF tested_pool_reached] by (auto simp: tested_pool_def ThreadPool_new_def)

text \<open>
  C28. Otherwise the shutdown ends: if no worker is between its test and its sleep when the
  notification is sent, the workers and the joiner stop after a bounded number of steps, and
  when they stop the destructor has joined every worker.
\<close>

theorem shutdown_joins_workers:
  assumes "pool_step\<^sup>*\<^sup>* (ThreadPool_new n) s" "tp_mutex s \<noteq> Mutex_tested" "tp_dtor s = Dtor_cleared"
  shows "\<exists>s1. dtor_step s s1 \<and> settles shutdown_step (shutdown_work s1) s1 (\<lambda>s'. tp_dtor s' = Dtor_done)"
proof (intro exI conjI)
  let ?s1 = "(pool_notify_all s)\<lparr>tp_dtor := Dtor_joining\<rparr>"
  show step: "dtor_step s ?s1" by (rule notify_all [OF assms(3)])
  have "pool_inv ?s1" by (rule pool_inv_dtor [OF pool_reach_inv [OF assms(1)] step])
  then have "joins ?s1" using assms(2) by (simp add: joins_def pool_notify_all_def)
  then show "settles shutdown_step (shutdown_work ?s1) ?s1 (\<lambda>s'. tp_dtor s' = Dtor_done)"
    by (rule shutdown.settlesI) (rule shutdown_at_rest)
qed

theorem shutdown_joins_workers_witness:
  "\<exists>s1. dtor_step ((ThreadPool_new 1)\<lparr>tp_running := False, tp_dtor := Dtor_cleared\<rparr>) s1 \<and>
    settles shutdown_step (shutdown_work s1) s1 (\<lambda>s'. tp_dtor s' = Dtor_done)"
proof -
  have "pool_step (ThreadPool_new 1) ((ThreadPool_new 1)\<lparr>tp_running := False, tp_dtor := Dtor_cleared\<rparr>)"
    by (rule dtor, rule clear) (simp add: ThreadPool_new_def)
  then have "pool_step\<^sup>*\<^sup>* (ThreadPool_new 1) ((ThreadPool_new 1)\<lparr>tp_running := False, tp_dtor := Dtor_cleared\<rparr>)"
    by (rule r_into_rtranclp)
  from shutdown_joins_workers [OF this] show ?thesis by (simp add: ThreadPool_new_def)
qed

end
