(* ===== verification/LoopWakeup.thy ===== *)
theory LoopWakeup
  imports EventLoop Interleaving
begin

text \<open>
  The wake-up protocol of \<open>EventLoop.cpp\<close>: one thread in \<open>loop()\<close>, any number of other
  threads in \<open>runInLoop\<close> and \<open>quit\<close>. The atomic actions are functions on the members of the
  loop; they are the actions of which \<open>EventLoop_runInLoop\<close>, \<open>EventLoop_quit\<close>,
  \<open>EventLoop_handleRead\<close> and \<open>EventLoop_doPendingFunctors\<close> are composed when nobody
  interferes. A step relation interleaves them. The wake-up pipe has a capacity, and a write
  to a full pipe waits.
\<close>

section \<open>Atomic actions\<close>

definition push_functor :: "'f \<Rightarrow> 'f eventloop \<Rightarrow> 'f eventloop" where
  "push_functor cb el = el\<lparr>el_pendingFunctors := el_pendingFunctors el @ [cb]\<rparr>"

definition write_byte :: "'f eventloop \<Rightarrow> 'f eventloop" where
  "write_byte el = el\<lparr>el_pipeBytes := Suc (el_pipeBytes el)\<rparr>"

definition read_byte :: "'f eventloop \<Rightarrow> 'f eventloop" where
  "read_byte el = el\<lparr>el_pipeBytes := el_pipeBytes el - 1\<rparr>"

definition set_quit :: "bool \<Rightarrow> 'f eventloop \<Rightarrow> 'f eventloop" where
  "set_quit b el = el\<lparr>el_quit := b\<rparr>"

definition swap_functors :: "'f eventloop \<Rightarrow> 'f eventloop" where
  "swap_functors el = el\<lparr>el_callingPendingFunctors := True, el_pendingFunctors := []\<rparr>"

definition end_batch :: "'f eventloop \<Rightarrow> 'f eventloop" where
  "end_batch el = el\<lparr>el_callingPendingFunctors := False\<rparr>"

definition enter_loop :: "'f eventloop \<Rightarrow> 'f eventloop" where
  "enter_loop el = set_quit False (el\<lparr>el_looping := True\<rparr>)"

definition leave_loop :: "'f eventloop \<Rightarrow> 'f eventloop" where
  "leave_loop el = el\<lparr>el_looping := False\<rparr>"

lemmas loop_actions = push_functor_def write_byte_def read_byte_def set_quit_def swap_functors_def
  end_batch_def enter_loop_def leave_loop_def

text \<open>The operations of the loop without interference.\<close>

lemma runInLoop_actions:
  assumes "w_loops w l = Some el" "el_threadId el \<noteq> w_thread w"
  shows "EventLoop_runInLoop exec l cb w = Ok (w\<lparr>w_loops := (w_loops w)(l \<mapsto> write_byte (push_functor cb el))\<rparr>)"
  using runInLoop_foreign [OF assms] by (simp add: loop_actions)

lemma quit_actions:
  assumes "w_loops w l = Some el" "el_threadId el \<noteq> w_thread w"
  shows "EventLoop_quit l w = Ok (w\<lparr>w_loops := (w_loops w)(l \<mapsto> write_byte (set_quit True el))\<rparr>)"
  using assms
  by (simp add: EventLoop_quit_def EventLoop_wakeup_def loop_access if_then_def EventLoop_isInLoopThread_def loop_actions)

lemma handleRead_actions:
  assumes "w_loops w l = Some el" "0 < el_pipeBytes el"
  shows "EventLoop_handleRead l w = Ok (w\<lparr>w_loops := (w_loops w)(l \<mapsto> read_byte el)\<rparr>)"
  using assms by (simp add: EventLoop_handleRead_def loop_access loop_actions)

lemma doPendingFunctors_actions:
  assumes "w_loops w l = Some el"
  shows "EventLoop_doPendingFunctors exec release l w = block
    (map exec (el_pendingFunctors el) @ [upd_loop l end_batch] @ map release (el_pendingFunctors el))
    (w\<lparr>w_loops := (w_loops w)(l \<mapsto> swap_functors el)\<rparr>)"
  using doPendingFunctors_eq [OF assms] by (simp add: swap_functors_def end_batch_def [abs_def])

section \<open>Threads\<close>

text \<open>
  Where the loop's thread is: before \<open>loop()\<close>, at the test of the \<open>while\<close>, in \<open>poll\<close>,
  handling events (with the wake-up pipe reported or not), before the swap of
  \<open>doPendingFunctors\<close>, running a batch, or after \<open>loop()\<close>.
\<close>

datatype 'f loop_pos = At_start | At_test | At_poll | At_events bool | At_swap | At_run "'f list" | Left

text \<open>
  \<open>ls_posting\<close> counts the threads in \<open>runInLoop\<close> or \<open>quit\<close> that have not written their byte
  yet; \<open>ls_posted\<close> and \<open>ls_ran\<close> log the functors posted and run.
\<close>

record 'f loop_sys =
  ls_loop :: "'f eventloop"
  ls_capacity :: nat
  ls_pos :: "'f loop_pos"
  ls_posting :: nat
  ls_posted :: "'f list"
  ls_ran :: "'f list"

definition loop_init :: "'f eventloop \<Rightarrow> nat \<Rightarrow> 'f loop_sys" where
  "loop_init el cap = \<lparr>ls_loop = el, ls_capacity = cap, ls_pos = At_start, ls_posting = 0, ls_posted = [], ls_ran = []\<rparr>"

definition new_loop :: "'f eventloop \<Rightarrow> bool" where
  "new_loop el \<longleftrightarrow> el_pendingFunctors el = [] \<and> el_pipeBytes el = 0 \<and> \<not> el_quit el"

definition at_pos :: "('f eventloop \<Rightarrow> 'f eventloop) \<Rightarrow> 'f loop_pos \<Rightarrow> ('f, 'z) loop_sys_scheme \<Rightarrow> ('f, 'z) loop_sys_scheme" where
  "at_pos g pos s = s\<lparr>ls_loop := g (ls_loop s), ls_pos := pos\<rparr>"

text \<open>The steps of the loop's thread, and of the threads that owe a byte.\<close>

inductive loop_step :: "('f, 'z) loop_sys_scheme \<Rightarrow> ('f, 'z) loop_sys_scheme \<Rightarrow> bool" where
  enter: "ls_pos s = At_start \<Longrightarrow> loop_step s (at_pos enter_loop At_test s)"
| test: "ls_pos s = At_test \<Longrightarrow> \<not> el_quit (ls_loop s) \<Longrightarrow> loop_step s (at_pos id At_poll s)"
| leave: "ls_pos s = At_test \<Longrightarrow> el_quit (ls_loop s) \<Longrightarrow> loop_step s (at_pos leave_loop Left s)"
| poll: "ls_pos s = At_poll \<Longrightarrow> 0 < el_pipeBytes (ls_loop s) \<Longrightarrow> loop_step s (at_pos id (At_events True) s)"
| handleRead: "ls_pos s = At_events True \<Longrightarrow> loop_step s (at_pos read_byte At_swap s)"
| others: "ls_pos s = At_events False \<Longrightarrow> loop_step s (at_pos id At_swap s)"
| swap: "ls_pos s = At_swap \<Longrightarrow> loop_step s (at_pos swap_functors (At_run (el_pendingFunctors (ls_loop s))) s)"
| run: "ls_pos s = At_run (f # fs) \<Longrightarrow> loop_step s ((at_pos id (At_run fs) s)\<lparr>ls_ran := ls_ran s @ [f]\<rparr>)"
| done_batch: "ls_pos s = At_run [] \<Longrightarrow> loop_step s (at_pos end_batch At_test s)"
| wakeup: "ls_posting s = Suc n \<Longrightarrow> el_pipeBytes (ls_loop s) < ls_capacity s \<Longrightarrow>
    loop_step s (s\<lparr>ls_loop := write_byte (ls_loop s), ls_posting := n\<rparr>)"

text \<open>
  The calls of other threads, a \<open>quit\<close> by a callback or functor in the loop's own thread, and
  \<open>poll\<close> returning for another channel or its timeout.
\<close>

inductive loop_call :: "('f, 'z) loop_sys_scheme \<Rightarrow> ('f, 'z) loop_sys_scheme \<Rightarrow> bool" where
  runInLoop: "loop_call s
    (s\<lparr>ls_loop := push_functor f (ls_loop s), ls_posting := Suc (ls_posting s), ls_posted := ls_posted s @ [f]\<rparr>)"
| quit: "loop_call s (s\<lparr>ls_loop := set_quit True (ls_loop s), ls_posting := Suc (ls_posting s)\<rparr>)"
| quit_own: "ls_pos s = At_events b \<or> ls_pos s = At_run fs \<Longrightarrow> loop_call s (s\<lparr>ls_loop := set_quit True (ls_loop s)\<rparr>)"
| poll_other: "ls_pos s = At_poll \<Longrightarrow> loop_call s (at_pos id (At_events (0 < el_pipeBytes (ls_loop s))) s)"

inductive loop_run_step :: "('f, 'z) loop_sys_scheme \<Rightarrow> ('f, 'z) loop_sys_scheme \<Rightarrow> bool" where
  inside: "loop_step s s' \<Longrightarrow> loop_run_step s s'"
| call: "loop_call s s' \<Longrightarrow> loop_run_step s s'"

inductive_cases loop_stepE: "loop_step s s'"
inductive_cases loop_callE: "loop_call s s'"
inductive_cases loop_run_stepE: "loop_run_step s s'"

section \<open>Invariant\<close>

text \<open>What the loop's thread has taken and not run yet.\<close>

definition batch :: "'f loop_pos \<Rightarrow> 'f list" where
  "batch pos = (case pos of At_run fs \<Rightarrow> fs | _ \<Rightarrow> [])"

text \<open>A wake-up is under way: a byte in the pipe, or a thread that is about to write one.\<close>

definition alarm :: "('f, 'z) loop_sys_scheme \<Rightarrow> bool" where
  "alarm s \<longleftrightarrow> 0 < el_pipeBytes (ls_loop s) \<or> 0 < ls_posting s"

text \<open>
  The logs agree with the queues. A functor in the queue and a request to quit have an
  alarm, except where the loop's thread is certain to look at them before it polls again.
\<close>

definition loop_inv :: "('f, 'z) loop_sys_scheme \<Rightarrow> bool" where
  "loop_inv s \<longleftrightarrow>
     ls_posted s = ls_ran s @ batch (ls_pos s) @ el_pendingFunctors (ls_loop s) \<and>
     (ls_pos s \<notin> {At_events True, At_swap, Left} \<longrightarrow> el_pendingFunctors (ls_loop s) \<noteq> [] \<longrightarrow> alarm s) \<and>
     (ls_pos s = At_poll \<longrightarrow> el_quit (ls_loop s) \<longrightarrow> alarm s) \<and>
     (ls_pos s = At_events True \<longrightarrow> 0 < el_pipeBytes (ls_loop s)) \<and>
     (ls_pos s = Left \<longrightarrow> el_quit (ls_loop s)) \<and>
     0 < ls_capacity s"

lemma loop_inv_init: "new_loop el \<Longrightarrow> 0 < cap \<Longrightarrow> loop_inv (loop_init el cap)"
  by (simp add: loop_inv_def loop_init_def new_loop_def batch_def)

lemma loop_inv_step: "loop_inv s \<Longrightarrow> loop_step s s' \<Longrightarrow> loop_inv s'"
  by (erule loop_stepE) (auto simp: loop_inv_def at_pos_def batch_def alarm_def loop_actions)

lemma loop_inv_call: "loop_inv s \<Longrightarrow> loop_call s s' \<Longrightarrow> loop_inv s'"
  by (erule loop_callE) (auto simp: loop_inv_def at_pos_def batch_def alarm_def loop_actions)

lemma loop_inv_run_step: "loop_inv s \<Longrightarrow> loop_run_step s s' \<Longrightarrow> loop_inv s'"
  by (erule loop_run_stepE) (auto intro: loop_inv_step loop_inv_call)

definition loop_logs :: "('f, 'z) loop_sys_scheme \<Rightarrow> 'f list \<times> 'f list" where
  "loop_logs s = (ls_posted s, ls_ran s)"

lemma loop_step_fifo:
  assumes "loop_inv s" "loop_run_step s s'"
  shows "loop_logs s' = loop_logs s \<or> fifo_step (loop_logs s) (loop_logs s')"
  using assms(2)
proof (cases rule: loop_run_step.cases)
  case inside
  then show ?thesis
    using assms(1) by (cases rule: loop_step.cases)
      (auto simp: loop_logs_def loop_inv_def at_pos_def batch_def intro: fifo_step.intros)
next
  case call
  then show ?thesis
  proof (cases rule: loop_call.cases)
    case (runInLoop f)
    then show ?thesis using fifo_put [of "ls_posted s" "ls_ran s" f] by (simp add: loop_logs_def)
  qed (auto simp: loop_logs_def at_pos_def)
qed

interpretation loop_sim: simulation loop_run_step fifo_step loop_logs loop_inv
  by unfold_locales (erule (1) loop_inv_run_step, erule (1) loop_step_fifo)

section \<open>Coming to rest\<close>

definition pos_work :: "'f loop_pos \<Rightarrow> nat" where
  "pos_work pos = (case pos of
     Left \<Rightarrow> 0 | At_events b \<Rightarrow> (if b then 0 else 5) | At_poll \<Rightarrow> 1 | At_test \<Rightarrow> 2 | At_start \<Rightarrow> 3
   | At_run fs \<Rightarrow> 3 + length fs | At_swap \<Rightarrow> 4)"

definition loop_work :: "('f, 'z) loop_sys_scheme \<Rightarrow> nat" where
  "loop_work s = 6 * ls_posting s + 5 * el_pipeBytes (ls_loop s) + length (el_pendingFunctors (ls_loop s)) + pos_work (ls_pos s)"

lemma loop_work_decreases: "loop_inv s \<Longrightarrow> loop_step s s' \<Longrightarrow> loop_work s' < loop_work s"
  by (erule loop_stepE) (auto simp: loop_inv_def loop_work_def pos_work_def at_pos_def loop_actions)

interpretation loop_rest: settling loop_step loop_inv loop_work
  by unfold_locales (erule (1) loop_inv_step, erule (1) loop_work_decreases)

lemma loop_at_rest:
  assumes "loop_inv s" "\<And>u. \<not> loop_step s u"
  shows "ls_pos s = Left \<or> ls_pos s = At_poll \<and> \<not> alarm s"
proof (cases "ls_pos s")
  case At_start
  then show ?thesis using assms(2) enter by blast
next
  case At_test
  then show ?thesis using assms(2) test leave by blast
next
  case At_poll
  then have b: "el_pipeBytes (ls_loop s) = 0" using assms(2) poll by blast
  then have "ls_posting s = 0"
    using assms(2) wakeup [of s] assms(1) by (cases "ls_posting s") (auto simp: loop_inv_def)
  with b At_poll show ?thesis by (simp add: alarm_def)
next
  case (At_events b)
  then show ?thesis using assms(2) handleRead [of s] others [of s] by (cases b) auto
next
  case At_swap
  then show ?thesis using assms(2) swap by blast
next
  case (At_run fs)
  then show ?thesis using assms(2) run [of s] done_batch [of s] by (cases fs) auto
qed simp

text \<open>Once \<open>loop()\<close> has been entered, nothing takes a request to quit back.\<close>

lemma quit_step: "loop_step s s' \<Longrightarrow> ls_pos s \<noteq> At_start \<Longrightarrow> ls_pos s' \<noteq> At_start \<and> el_quit (ls_loop s') = el_quit (ls_loop s)"
  by (erule loop_stepE) (auto simp: at_pos_def loop_actions)

lemma quit_run: "loop_step\<^sup>*\<^sup>* s s' \<Longrightarrow> ls_pos s \<noteq> At_start \<Longrightarrow> ls_pos s' \<noteq> At_start \<and> el_quit (ls_loop s') = el_quit (ls_loop s)"
  by (induction rule: rtranclp_induct) (auto dest: quit_step)

lemma posted_step: "loop_step s s' \<Longrightarrow> ls_posted s' = ls_posted s"
  by (erule loop_stepE) (auto simp: at_pos_def)

lemma posted_run: "loop_step\<^sup>*\<^sup>* s s' \<Longrightarrow> ls_posted s' = ls_posted s"
  by (induction rule: rtranclp_induct) (auto dest: posted_step)

section \<open>Properties\<close>

text \<open>
  C6. The functors posted to a loop are run in the order of the posts, each at most once: in
  every interleaving of the loop's thread with any number of posting and quitting threads,
  what was run, the rest of the current batch and the queue together are what was posted,
  and every run is a run of the sequential first-in first-out channel.
\<close>

theorem loop_refines_fifo:
  assumes "new_loop el" "0 < cap" "loop_run_step\<^sup>*\<^sup>* (loop_init el cap) s"
  shows "fifo_step\<^sup>*\<^sup>* ([], []) (ls_posted s, ls_ran s) \<and>
    ls_posted s = ls_ran s @ batch (ls_pos s) @ el_pendingFunctors (ls_loop s)"
proof -
  have init: "loop_inv (loop_init el cap)" by (rule loop_inv_init [OF assms(1,2)])
  have "fifo_step\<^sup>*\<^sup>* (loop_logs (loop_init el cap)) (loop_logs s)" "loop_inv s"
    using loop_sim.run_spec [OF assms(3) init] loop_sim.run_inv [OF assms(3) init] by blast+
  then show ?thesis by (simp add: loop_logs_def loop_inv_def loop_init_def)
qed

text \<open>A loop that sleeps in \<open>poll\<close>; two functors have been posted, one byte is written.\<close>

definition fresh_el :: "nat eventloop" where
  "fresh_el = \<lparr>el_threadId = 1, el_looping = False, el_quit = False, el_poller = None, el_activeChannels = [],
     el_callingPendingFunctors = False, el_wakeupPipe = (4, 5), el_pipeBytes = 0, el_wakeupChannel = Some 9,
     el_pendingFunctors = []\<rparr>"

definition woken_loop :: "nat loop_sys" where
  "woken_loop = \<lparr>ls_loop = fresh_el\<lparr>el_looping := True, el_pendingFunctors := [7, 8], el_pipeBytes := 1\<rparr>,
     ls_capacity = 1, ls_pos = At_poll, ls_posting = 1, ls_posted = [7, 8], ls_ran = []\<rparr>"

lemma fresh_el_new: "new_loop fresh_el"
  by (simp add: new_loop_def fresh_el_def)

lemma woken_loop_reached: "loop_run_step\<^sup>*\<^sup>* (loop_init fresh_el 1) woken_loop"
proof -
  let ?s0 = "loop_init fresh_el 1"
  let ?s1 = "at_pos enter_loop At_test ?s0"
  let ?s2 = "at_pos id At_poll ?s1"
  let ?s3 = "?s2\<lparr>ls_loop := push_functor 7 (ls_loop ?s2), ls_posting := 1, ls_posted := [7]\<rparr>"
  let ?s4 = "?s3\<lparr>ls_loop := write_byte (ls_loop ?s3), ls_posting := 0\<rparr>"
  note defs = at_pos_def loop_init_def fresh_el_def loop_actions
  have "loop_run_step ?s0 ?s1" by (rule inside, rule enter) (simp add: loop_init_def)
  moreover have "loop_run_step ?s1 ?s2" by (rule inside, rule test) (simp_all add: defs)
  moreover have "loop_run_step ?s2 ?s3" using call [OF runInLoop [of ?s2 7]] by (simp add: at_pos_def loop_init_def)
  moreover have "loop_run_step ?s3 ?s4" by (rule inside, rule wakeup) (simp_all add: defs)
  moreover have "loop_run_step ?s4 woken_loop" using call [OF runInLoop [of ?s4 8]] by (simp add: defs woken_loop_def)
  ultimately show ?thesis by (meson converse_rtranclp_into_rtranclp rtranclp.rtrancl_refl)
qed

theorem loop_refines_fifo_witness:
  "fifo_step\<^sup>*\<^sup>* ([], []) ([7, 8], [] :: nat list)"
  using loop_refines_fifo [OF fresh_el_new _ woken_loop_reached] by (simp add: woken_loop_def)

text \<open>
  C1. No functor and no \<open>quit\<close> is lost once \<open>loop()\<close> has been entered: from every reachable
  state, when no new call is made, the threads come to rest after a bounded number of steps,
  however small the pipe is; when they have, either the loop was asked to quit and has left,
  or it was not, sleeps in \<open>poll\<close>, and every functor that was posted has been run.
\<close>

theorem loop_settles_with_all_work_done:
  assumes "new_loop el" "0 < cap" "loop_run_step\<^sup>*\<^sup>* (loop_init el cap) s" "ls_pos s \<noteq> At_start"
  shows "settles loop_step (loop_work s) s (\<lambda>s'.
    if el_quit (ls_loop s) then ls_pos s' = Left else ls_pos s' = At_poll \<and> ls_ran s' = ls_posted s)"
proof (rule loop_rest.settlesI)
  show "loop_inv s" by (rule loop_sim.run_inv [OF assms(3) loop_inv_init [OF assms(1,2)]])
  show "if el_quit (ls_loop s) then ls_pos s' = Left else ls_pos s' = At_poll \<and> ls_ran s' = ls_posted s"
    if run: "loop_step\<^sup>*\<^sup>* s s'" and inv: "loop_inv s'" and rest: "\<And>u. \<not> loop_step s' u" for s'
    using loop_at_rest [OF inv rest] quit_run [OF run assms(4)] posted_run [OF run] inv by (auto simp: loop_inv_def batch_def)
qed

theorem loop_settles_with_all_work_done_witness:
  "\<exists>s'. loop_step\<^sup>*\<^sup>* woken_loop s' \<and> ls_ran s' = [7, 8]"
  using settles_run [OF loop_settles_with_all_work_done [OF fresh_el_new _ woken_loop_reached]]
  by (auto simp: woken_loop_def fresh_el_def)

end
