(* ===== verification/LoopThread.thy ===== *)
theory LoopThread
  imports LoopWakeup
begin

text \<open>
  \<open>EventLoopThread.cpp\<close> with all its interleavings: the thread that runs \<open>threadFunc\<close>, the
  owner that calls \<open>startLoop\<close> and later the destructor, and the threads that use the loop in
  between. The loop itself is the one of \<open>LoopWakeup\<close>; this theory adds the life of the
  thread, the member \<open>loop_\<close> and the owner.
\<close>

section \<open>State\<close>

text \<open>
  \<open>threadFunc\<close>: not started, constructing the loop and running the callback, after setting
  \<open>loop_\<close>, in \<open>loop()\<close>, after clearing \<open>loop_\<close>, after the destruction of the loop.
\<close>

datatype thread_pos = T_none | T_setup | T_published | T_loop | T_cleared | T_gone

text \<open>
  The owner: constructed; in \<open>startLoop\<close> before the test of the wait, after a failed test (it
  holds the mutex), asleep; with the loop; in the destructor after it read \<open>loop_\<close>, between
  the two actions of \<open>quit\<close>, in \<open>join\<close>; destroyed. \<open>O_dangling\<close>: it called \<open>quit\<close>, or went
  on with it, on a loop that is gone; \<open>O_terminated\<close>: it destroyed a joinable \<open>std::thread\<close>.
\<close>

datatype owner_pos = O_new | O_entering | O_tested | O_asleep | O_started | O_quitting | O_waking | O_joining
  | O_destroyed | O_dangling | O_terminated

record 'f thread_sys = "'f loop_sys" +
  th_pos :: thread_pos
  th_loop :: bool
  th_owner :: owner_pos

definition thread_init :: "'f eventloop \<Rightarrow> nat \<Rightarrow> 'f thread_sys" where
  "thread_init el cap = loop_sys.extend (loop_init el cap) \<lparr>th_pos = T_none, th_loop = False, th_owner = O_new\<rparr>"

definition in_start :: "owner_pos \<Rightarrow> bool" where
  "in_start ow \<longleftrightarrow> ow \<in> {O_entering, O_tested, O_asleep}"

text \<open>\<open>cond_.notify_all()\<close>.\<close>

definition notify_owner :: "owner_pos \<Rightarrow> owner_pos" where
  "notify_owner ow = (if ow = O_asleep then O_entering else ow)"

section \<open>Steps\<close>

text \<open>
  The byte of an owner inside \<open>quit\<close> is one of those that \<open>ls_posting\<close> counts; the owner
  writes it itself.
\<close>

inductive threadFunc_step :: "'f thread_sys \<Rightarrow> 'f thread_sys \<Rightarrow> bool" where
  publish: "th_pos s = T_setup \<Longrightarrow> th_owner s \<noteq> O_tested \<Longrightarrow> threadFunc_step s (s\<lparr>th_pos := T_published, th_loop := True\<rparr>)"
| notify_all: "th_pos s = T_published \<Longrightarrow> threadFunc_step s (s\<lparr>th_pos := T_loop, th_owner := notify_owner (th_owner s)\<rparr>)"
| loop: "th_pos s = T_loop \<Longrightarrow> loop_step s s' \<Longrightarrow> (th_owner s = O_waking \<longrightarrow> 0 < ls_posting s') \<Longrightarrow> threadFunc_step s s'"
| clear: "th_pos s = T_loop \<Longrightarrow> ls_pos s = Left \<Longrightarrow> th_owner s \<noteq> O_tested \<Longrightarrow>
    threadFunc_step s (s\<lparr>th_pos := T_cleared, th_loop := False\<rparr>)"
| destroy: "th_pos s = T_cleared \<Longrightarrow> threadFunc_step s (s\<lparr>th_pos := T_gone\<rparr>)"

text \<open>The owner, once it has called \<open>startLoop\<close> or the destructor.\<close>

inductive owner_step :: "'f thread_sys \<Rightarrow> 'f thread_sys \<Rightarrow> bool" where
  test_true: "th_owner s = O_entering \<Longrightarrow> th_loop s \<Longrightarrow> owner_step s (s\<lparr>th_owner := O_started\<rparr>)"
| test_false: "th_owner s = O_entering \<Longrightarrow> \<not> th_loop s \<Longrightarrow> owner_step s (s\<lparr>th_owner := O_tested\<rparr>)"
| sleep: "th_owner s = O_tested \<Longrightarrow> owner_step s (s\<lparr>th_owner := O_asleep\<rparr>)"
| quit: "th_owner s = O_quitting \<Longrightarrow> th_pos s \<noteq> T_gone \<Longrightarrow>
    owner_step s (s\<lparr>ls_loop := set_quit True (ls_loop s), ls_posting := Suc (ls_posting s), th_owner := O_waking\<rparr>)"
| quit_freed: "th_owner s = O_quitting \<Longrightarrow> th_pos s = T_gone \<Longrightarrow> owner_step s (s\<lparr>th_owner := O_dangling\<rparr>)"
| wake: "th_owner s = O_waking \<Longrightarrow> th_pos s \<noteq> T_gone \<Longrightarrow> ls_posting s = Suc n \<Longrightarrow>
    el_pipeBytes (ls_loop s) < ls_capacity s \<Longrightarrow>
    owner_step s (s\<lparr>ls_loop := write_byte (ls_loop s), ls_posting := n, th_owner := O_joining\<rparr>)"
| wake_freed: "th_owner s = O_waking \<Longrightarrow> th_pos s = T_gone \<Longrightarrow> owner_step s (s\<lparr>th_owner := O_dangling\<rparr>)"
| join: "th_owner s = O_joining \<Longrightarrow> th_pos s = T_gone \<Longrightarrow> owner_step s (s\<lparr>th_owner := O_destroyed\<rparr>)"

inductive thread_step :: "'f thread_sys \<Rightarrow> 'f thread_sys \<Rightarrow> bool" where
  thread: "threadFunc_step s s' \<Longrightarrow> thread_step s s'"
| owner: "owner_step s s' \<Longrightarrow> thread_step s s'"

text \<open>
  The calls of the owner, and \<open>use\<close>: a thread that got the loop from \<open>startLoop\<close> uses it
  while it exists. Before that only \<open>poll\<close> may return for another reason: the callback of
  the thread is taken to leave nothing behind that quits the loop.
\<close>

inductive thread_run_step :: "'f thread_sys \<Rightarrow> 'f thread_sys \<Rightarrow> bool" where
  inside: "thread_step s s' \<Longrightarrow> thread_run_step s s'"
| startLoop: "th_owner s = O_new \<Longrightarrow> thread_run_step s (s\<lparr>th_pos := T_setup, th_owner := O_entering\<rparr>)"
| destructor_running: "th_owner s = O_started \<Longrightarrow> th_loop s \<Longrightarrow> thread_run_step s (s\<lparr>th_owner := O_quitting\<rparr>)"
| destructor_cleared: "th_owner s = O_started \<Longrightarrow> \<not> th_loop s \<Longrightarrow> thread_run_step s (s\<lparr>th_owner := O_terminated\<rparr>)"
| destructor_unused: "th_owner s = O_new \<Longrightarrow> thread_run_step s (s\<lparr>th_owner := O_destroyed\<rparr>)"
| spurious: "th_owner s = O_asleep \<Longrightarrow> thread_run_step s (s\<lparr>th_owner := O_entering\<rparr>)"
| use: "th_owner s \<noteq> O_new \<Longrightarrow> \<not> in_start (th_owner s) \<Longrightarrow> th_pos s \<in> {T_published, T_loop, T_cleared} \<Longrightarrow> loop_call s s' \<Longrightarrow>
    thread_run_step s s'"
| poll_other: "th_pos s = T_loop \<Longrightarrow> ls_pos s = At_poll \<Longrightarrow>
    thread_run_step s (at_pos id (At_events (0 < el_pipeBytes (ls_loop s))) s)"

inductive_cases threadFunc_stepE: "threadFunc_step s s'"
inductive_cases owner_stepE: "owner_step s s'"
inductive_cases thread_stepE: "thread_step s s'"
inductive_cases thread_run_stepE: "thread_run_step s s'"

section \<open>Invariant\<close>

text \<open>
  \<open>loop_\<close> is set exactly while \<open>loop()\<close> is about to run or runs; an owner in \<open>startLoop\<close> waits
  for a thread that gets there, and sleeps only as long as the notification is to come.
\<close>

definition thread_inv :: "'f thread_sys \<Rightarrow> bool" where
  "thread_inv s \<longleftrightarrow> loop_inv s \<and>
     (th_pos s \<in> {T_none, T_setup, T_published} \<longrightarrow> ls_pos s = At_start) \<and>
     (th_pos s \<in> {T_cleared, T_gone} \<longrightarrow> ls_pos s = Left) \<and>
     (th_loop s \<longleftrightarrow> th_pos s \<in> {T_published, T_loop}) \<and>
     (th_owner s = O_new \<longrightarrow> th_pos s = T_none \<and> \<not> el_quit (ls_loop s)) \<and>
     (th_pos s = T_none \<longrightarrow> th_owner s \<in> {O_new, O_destroyed}) \<and>
     (in_start (th_owner s) \<longrightarrow> th_pos s \<in> {T_setup, T_published, T_loop} \<and> ls_pos s \<noteq> Left \<and> \<not> el_quit (ls_loop s)) \<and>
     (th_pos s = T_setup \<longrightarrow> in_start (th_owner s)) \<and>
     (th_owner s = O_tested \<longrightarrow> th_pos s = T_setup) \<and>
     (th_owner s = O_asleep \<longrightarrow> th_pos s \<in> {T_setup, T_published}) \<and>
     (th_owner s = O_waking \<longrightarrow> 0 < ls_posting s) \<and>
     (th_owner s = O_destroyed \<longrightarrow> th_pos s \<in> {T_none, T_gone})"

lemma thread_invD:
  assumes "thread_inv s"
  shows "loop_inv s" "th_pos s \<in> {T_none, T_setup, T_published} \<Longrightarrow> ls_pos s = At_start"
    "th_pos s \<in> {T_cleared, T_gone} \<Longrightarrow> ls_pos s = Left" "th_loop s \<longleftrightarrow> th_pos s \<in> {T_published, T_loop}"
    "th_pos s = T_none \<Longrightarrow> th_owner s \<in> {O_new, O_destroyed}" "th_pos s = T_setup \<Longrightarrow> in_start (th_owner s)"
    "in_start (th_owner s) \<Longrightarrow> th_pos s \<in> {T_setup, T_published, T_loop} \<and> ls_pos s \<noteq> Left \<and> \<not> el_quit (ls_loop s)"
    "th_owner s = O_asleep \<Longrightarrow> th_pos s \<in> {T_setup, T_published}" "th_owner s = O_waking \<Longrightarrow> 0 < ls_posting s"
    "th_owner s = O_destroyed \<Longrightarrow> th_pos s \<in> {T_none, T_gone}"
  using assms unfolding thread_inv_def by blast+

lemma loop_inv_thread_fields [simp]:
  "loop_inv (s\<lparr>th_pos := p\<rparr>) = loop_inv s" "loop_inv (s\<lparr>th_loop := b\<rparr>) = loop_inv s" "loop_inv (s\<lparr>th_owner := ow\<rparr>) = loop_inv s"
  by (simp_all add: loop_inv_def alarm_def)

lemma thread_inv_init: "new_loop el \<Longrightarrow> 0 < cap \<Longrightarrow> thread_inv (thread_init el cap)"
  by (simp add: thread_inv_def thread_init_def loop_inv_def loop_init_def loop_sys.defs new_loop_def batch_def in_start_def)

text \<open>A step of the loop leaves the members of the thread alone.\<close>

lemma loop_step_thread:
  "loop_step s s' \<Longrightarrow> th_pos s' = th_pos s \<and> th_loop s' = th_loop s \<and> th_owner s' = th_owner s"
  by (erule loop_stepE) (auto simp: at_pos_def)

lemma loop_call_thread:
  "loop_call s s' \<Longrightarrow> th_pos s' = th_pos s \<and> th_loop s' = th_loop s \<and> th_owner s' = th_owner s \<and>
     ls_posting s \<le> ls_posting s' \<and> (ls_pos s' = ls_pos s \<or> ls_pos s = At_poll)"
  by (erule loop_callE) (auto simp: at_pos_def)

lemma thread_inv_threadFunc:
  assumes "thread_inv s" "threadFunc_step s s'"
  shows "thread_inv s'"
  using assms(2)
proof (cases rule: threadFunc_step.cases)
  case loop
  have quit: "ls_pos s' \<noteq> Left \<and> \<not> el_quit (ls_loop s')" if "ls_pos s \<noteq> Left" "\<not> el_quit (ls_loop s)"
    using loop(2) that by (cases rule: loop_step.cases) (auto simp: at_pos_def loop_actions)
  show ?thesis
    using assms(1) loop loop_step_thread [OF loop(2)] quit loop_inv_step [OF _ loop(2)]
    by (auto simp: thread_inv_def in_start_def)
qed (use assms(1) in \<open>auto simp: thread_inv_def in_start_def notify_owner_def split: if_splits\<close>)

text \<open>The owner's \<open>quit\<close> and \<open>wakeup\<close> are a call and a step of the loop.\<close>

lemma owner_quit_inv:
  "loop_inv s \<Longrightarrow> loop_inv (s\<lparr>ls_loop := set_quit True (ls_loop s), ls_posting := Suc (ls_posting s)\<rparr>)"
  by (rule loop_inv_call [OF _ loop_call.quit])

lemma owner_wake_inv:
  "loop_inv s \<Longrightarrow> ls_posting s = Suc n \<Longrightarrow> el_pipeBytes (ls_loop s) < ls_capacity s \<Longrightarrow>
   loop_inv (s\<lparr>ls_loop := write_byte (ls_loop s), ls_posting := n\<rparr>)"
  by (rule loop_inv_step [OF _ loop_step.wakeup])

lemma thread_inv_owner:
  assumes "thread_inv s" "owner_step s s'"
  shows "thread_inv s'"
  using assms(2)
proof (cases rule: owner_step.cases)
  case quit
  then show ?thesis using assms(1) owner_quit_inv [of s] by (auto simp: thread_inv_def in_start_def)
next
  case (wake n)
  then show ?thesis using assms(1) owner_wake_inv [of s n] by (auto simp: thread_inv_def in_start_def)
qed (use assms(1) in \<open>auto simp: thread_inv_def in_start_def\<close>)

lemma thread_inv_step: "thread_inv s \<Longrightarrow> thread_step s s' \<Longrightarrow> thread_inv s'"
  by (erule thread_stepE) (auto intro: thread_inv_threadFunc thread_inv_owner)

lemma thread_inv_run_step:
  assumes "thread_inv s" "thread_run_step s s'"
  shows "thread_inv s'"
  using assms(2)
proof (cases rule: thread_run_step.cases)
  case inside
  with assms(1) show ?thesis by (rule thread_inv_step)
next
  case use
  note same = loop_call_thread [OF use(4)]
  have "ls_pos s \<noteq> At_poll" if "th_pos s \<noteq> T_loop"
    using that use(3) thread_invD(2,3) [OF assms(1)] by force
  then have "ls_pos s' = ls_pos s" if "th_pos s \<noteq> T_loop" using that same by metis
  moreover have "th_owner s = O_waking \<longrightarrow> 0 < ls_posting s'" using same thread_invD(9) [OF assms(1)] by linarith
  moreover have "th_pos s' = th_pos s" "th_loop s' = th_loop s" "th_owner s' = th_owner s" using same by auto
  moreover have "loop_inv s'" using assms(1) loop_inv_call [OF _ use(4)] by (simp add: thread_inv_def)
  ultimately show ?thesis using assms(1) use(1,2,3) by (cases "th_pos s") (simp_all add: thread_inv_def in_start_def)
next
  case poll_other
  then show ?thesis
    using assms(1) loop_inv_call [OF _ loop_call.poll_other [OF poll_other(3)]]
    by (auto simp: thread_inv_def in_start_def at_pos_def)
qed (use assms(1) in \<open>auto simp: thread_inv_def in_start_def\<close>)

lemma thread_reach_inv:
  assumes "thread_run_step\<^sup>*\<^sup>* (thread_init el cap) s" "new_loop el" "0 < cap"
  shows "thread_inv s"
  using assms(1) by (induction rule: rtranclp_induct) (auto intro: thread_inv_init [OF assms(2,3)] thread_inv_run_step)

lemma thread_steps_inv: "thread_step\<^sup>*\<^sup>* s s' \<Longrightarrow> thread_inv s \<Longrightarrow> thread_inv s'"
  by (induction rule: rtranclp_induct) (auto intro: thread_inv_step)

section \<open>Coming to rest\<close>

definition thread_pos_work :: "thread_pos \<Rightarrow> nat" where
  "thread_pos_work p = (case p of T_none \<Rightarrow> 0 | T_setup \<Rightarrow> 6 | T_published \<Rightarrow> 5 | T_loop \<Rightarrow> 2 | T_cleared \<Rightarrow> 1 | T_gone \<Rightarrow> 0)"

definition owner_work :: "owner_pos \<Rightarrow> nat" where
  "owner_work ow = (case ow of O_entering \<Rightarrow> 2 | O_tested \<Rightarrow> 1 | O_quitting \<Rightarrow> 9 | O_waking \<Rightarrow> 2 | O_joining \<Rightarrow> 1 | _ \<Rightarrow> 0)"

definition thread_work :: "'f thread_sys \<Rightarrow> nat" where
  "thread_work s = loop_work s + thread_pos_work (th_pos s) + owner_work (th_owner s)"

lemmas thread_works = thread_work_def thread_pos_work_def owner_work_def loop_work_def

lemma thread_work_decreases:
  assumes "thread_inv s" "thread_step s s'"
  shows "thread_work s' < thread_work s"
  using assms(2)
proof (cases rule: thread_step.cases)
  case thread
  then show ?thesis
  proof (cases rule: threadFunc_step.cases)
    case loop
    then show ?thesis
      using assms(1) loop_work_decreases [OF _ loop(2)] loop_step_thread [OF loop(2)]
      by (simp add: thread_inv_def thread_work_def)
  qed (simp_all add: thread_works notify_owner_def)
next
  case owner
  then show ?thesis by (cases rule: owner_step.cases) (simp_all add: thread_works loop_actions)
qed

interpretation thread_rest: settling thread_step thread_inv thread_work
  by unfold_locales (erule (1) thread_inv_step, erule (1) thread_work_decreases)

text \<open>Where the threads are when nobody can move.\<close>

lemma thread_at_rest:
  assumes inv: "thread_inv s" and rest: "\<And>u. \<not> thread_step s u"
  shows "th_owner s \<in> {O_new, O_started, O_joining, O_destroyed, O_dangling, O_terminated}"
    "th_pos s = T_loop \<Longrightarrow> ls_pos s = At_poll \<and> \<not> alarm s" "th_pos s \<in> {T_none, T_loop, T_gone}"
    "th_pos s = T_gone \<Longrightarrow> th_owner s \<noteq> O_joining"
proof -
  have no_owner: "\<not> owner_step s u" for u using rest owner by blast
  have no_thread: "\<not> threadFunc_step s u" for u using rest thread by blast
  have tested: "th_owner s \<noteq> O_tested" using no_owner sleep by blast
  show pos: "th_pos s \<in> {T_none, T_loop, T_gone}"
    using no_thread publish [of s] notify_all [of s] destroy [of s] tested by (cases "th_pos s") auto
  have waking: "th_owner s = O_waking \<Longrightarrow> th_pos s = T_loop \<Longrightarrow> \<not> el_pipeBytes (ls_loop s) < ls_capacity s"
    using no_owner wake [of s] inv by (cases "ls_posting s") (auto simp: thread_inv_def)
  show loop: "ls_pos s = At_poll \<and> \<not> alarm s" if T: "th_pos s = T_loop"
  proof -
    have "\<not> loop_step s u" for u
    proof
      assume step: "loop_step s u"
      have "\<not> (th_owner s = O_waking \<longrightarrow> 0 < ls_posting u)" using no_thread loop [OF T step] by blast
      then have u: "th_owner s = O_waking" "ls_posting u = 0" by simp_all
      have "el_pipeBytes (ls_loop s) < ls_capacity s"
        using step by (cases rule: loop_step.cases) (use u inv in \<open>auto simp: at_pos_def thread_inv_def\<close>)
      then show False using waking T u by blast
    qed
    then have "ls_pos s = Left \<or> ls_pos s = At_poll \<and> \<not> alarm s"
      using inv by (intro loop_at_rest) (auto simp: thread_inv_def)
    then show ?thesis using no_thread clear [OF T] tested by blast
  qed
  show "th_pos s = T_gone \<Longrightarrow> th_owner s \<noteq> O_joining" using no_owner join by blast
  have "th_owner s \<noteq> O_entering" using no_owner test_true test_false by blast
  moreover have "th_owner s \<noteq> O_quitting" using no_owner owner_step.quit quit_freed by blast
  moreover have "th_owner s \<noteq> O_asleep" using pos thread_invD(8) [OF inv] by auto
  moreover have "th_owner s \<noteq> O_waking"
  proof
    assume ow: "th_owner s = O_waking"
    then have T: "th_pos s = T_loop" using pos no_owner wake_freed [OF ow] thread_invD(5) [OF inv] by auto
    then have "el_pipeBytes (ls_loop s) = 0" using loop by (simp add: alarm_def)
    with waking [OF ow T] thread_invD(1) [OF inv] show False by (simp add: loop_inv_def)
  qed
  ultimately show "th_owner s \<in> {O_new, O_started, O_joining, O_destroyed, O_dangling, O_terminated}"
    using tested by (cases "th_owner s") auto
qed

section \<open>Phases\<close>

text \<open>A phase is a set of states that the threads do not leave by themselves.\<close>

lemma phase_run:
  assumes "thread_step\<^sup>*\<^sup>* s s'" "P s" "\<And>x y. P x \<Longrightarrow> thread_step x y \<Longrightarrow> P y"
  shows "P s'"
  using assms(1,2) by (induction rule: rtranclp_induct) (auto intro: assms(3))

text \<open>Starting: the loop was not asked to quit yet, and the owner gets or has got it.\<close>

definition starting :: "'f thread_sys \<Rightarrow> bool" where
  "starting s \<longleftrightarrow> (in_start (th_owner s) \<or> th_owner s = O_started) \<and>
     th_pos s \<in> {T_setup, T_published, T_loop} \<and> ls_pos s \<noteq> Left \<and> \<not> el_quit (ls_loop s)"

text \<open>Ending: \<open>loop()\<close> was entered before the destructor called \<open>quit\<close>.\<close>

definition ending :: "'f thread_sys \<Rightarrow> bool" where
  "ending s \<longleftrightarrow> th_owner s \<in> {O_quitting, O_waking, O_joining, O_destroyed, O_dangling} \<and>
     ls_pos s \<noteq> At_start \<and> (if th_owner s = O_dangling then th_pos s = T_gone else th_owner s \<noteq> O_quitting \<longrightarrow> el_quit (ls_loop s))"

text \<open>Hanging: the destructor has set \<open>quit_\<close>, and \<open>loop()\<close> has cleared it.\<close>

definition hanging :: "'f thread_sys \<Rightarrow> bool" where
  "hanging s \<longleftrightarrow> th_pos s = T_loop \<and> ls_pos s \<notin> {At_start, Left} \<and> \<not> el_quit (ls_loop s) \<and>
     th_owner s \<in> {O_waking, O_joining}"

text \<open>Abandoned: somebody else has asked the loop to quit, and the owner does not know.\<close>

definition abandoned :: "'f thread_sys \<Rightarrow> bool" where
  "abandoned s \<longleftrightarrow> th_owner s = O_started \<and> ls_pos s \<noteq> At_start \<and> el_quit (ls_loop s)"

lemmas phase_defs = starting_def ending_def hanging_def abandoned_def

lemma loop_step_quit:
  "loop_step s s' \<Longrightarrow> (ls_pos s = At_start \<and> \<not> el_quit (ls_loop s') \<or> el_quit (ls_loop s') = el_quit (ls_loop s)) \<and>
     ls_pos s' \<noteq> At_start \<or> ls_pos s' = ls_pos s \<and> el_quit (ls_loop s') = el_quit (ls_loop s)"
  by (erule loop_stepE) (auto simp: at_pos_def loop_actions)

lemma loop_step_left: "loop_step s s' \<Longrightarrow> ls_pos s \<noteq> Left \<Longrightarrow> \<not> el_quit (ls_loop s) \<Longrightarrow> ls_pos s' \<noteq> Left"
  by (erule loop_stepE) (auto simp: at_pos_def)

lemmas step_elims = thread_stepE threadFunc_stepE owner_stepE

lemma starting_step: "starting s \<Longrightarrow> thread_step s s' \<Longrightarrow> starting s'"
  by (elim step_elims; (frule loop_step_thread, frule loop_step_quit, frule loop_step_left)?)
    (auto simp: starting_def in_start_def notify_owner_def)

lemma ending_step: "ending s \<Longrightarrow> thread_step s s' \<Longrightarrow> ending s'"
  by (elim step_elims; (frule loop_step_thread, frule loop_step_quit)?)
    (auto simp: ending_def notify_owner_def loop_actions split: if_splits)

lemma hanging_step: "hanging s \<Longrightarrow> thread_step s s' \<Longrightarrow> hanging s'"
  by (elim step_elims; (frule loop_step_thread, frule loop_step_quit, frule loop_step_left)?)
    (auto simp: hanging_def loop_actions)

lemma abandoned_step: "abandoned s \<Longrightarrow> thread_step s s' \<Longrightarrow> abandoned s'"
  by (elim step_elims; (frule loop_step_thread, frule loop_step_quit)?)
    (auto simp: abandoned_def notify_owner_def)

text \<open>A phase that ends where nobody can move.\<close>

lemma phase_settles:
  assumes "thread_inv s" "P s" "\<And>x y. P x \<Longrightarrow> thread_step x y \<Longrightarrow> P y"
    and "\<And>s'. thread_inv s' \<Longrightarrow> P s' \<Longrightarrow> (\<And>u. \<not> thread_step s' u) \<Longrightarrow> Q s'"
  shows "settles thread_step (thread_work s) s Q"
proof (rule thread_rest.settlesI [OF assms(1)])
  show "Q s'" if run: "thread_step\<^sup>*\<^sup>* s s'" and "thread_inv s'" "\<And>u. \<not> thread_step s' u" for s'
  proof (rule assms(4) [OF that(2) _ that(3)])
    show "P s'" by (rule phase_run [where P = P, OF run assms(2)]) (rule assms(3))
  qed
qed

text \<open>A loop that is asked to quit does not sleep in \<open>poll\<close>.\<close>

lemma quit_at_rest:
  assumes "thread_inv s" "\<And>u. \<not> thread_step s u" "el_quit (ls_loop s)"
  shows "th_pos s \<noteq> T_loop"
proof
  assume "th_pos s = T_loop"
  then have "ls_pos s = At_poll" "\<not> alarm s" using thread_at_rest(2) [OF assms(1,2)] by auto
  with thread_invD(1) [OF assms(1)] assms(3) show False by (simp add: loop_inv_def)
qed

section \<open>Properties\<close>

text \<open>
  C15. \<open>startLoop\<close> returns: once the owner has called it, the threads come to rest after a
  bounded number of steps, in every interleaving, and when they have, the owner has returned
  with the pointer of a loop that is in \<open>poll\<close>.
\<close>

theorem startLoop_returns:
  assumes "new_loop el" "0 < cap" "thread_run_step\<^sup>*\<^sup>* (thread_init el cap) s" "in_start (th_owner s)"
  shows "settles thread_step (thread_work s) s
    (\<lambda>s'. th_owner s' = O_started \<and> th_loop s' \<and> th_pos s' = T_loop \<and> ls_pos s' = At_poll)"
proof (rule phase_settles [where P = starting, OF _ _ starting_step])
  show inv: "thread_inv s" by (rule thread_reach_inv [OF assms(3,1,2)])
  show "starting s" using thread_invD(7) [OF inv assms(4)] assms(4) by (simp add: starting_def)
  show "th_owner s' = O_started \<and> th_loop s' \<and> th_pos s' = T_loop \<and> ls_pos s' = At_poll"
    if inv': "thread_inv s'" and phase: "starting s'" and rest: "\<And>u. \<not> thread_step s' u" for s'
  proof -
    have "th_owner s' = O_started" using thread_at_rest(1) [OF inv' rest] phase by (auto simp: starting_def in_start_def)
    moreover have T: "th_pos s' = T_loop" using thread_at_rest(3) [OF inv' rest] phase by (auto simp: starting_def)
    moreover have "ls_pos s' = At_poll" using thread_at_rest(2) [OF inv' rest T] by simp
    ultimately show ?thesis using thread_invD(4) [OF inv'] by simp
  qed
qed

text \<open>An owner in \<open>startLoop\<close>.\<close>

definition starting_thread :: "nat thread_sys" where
  "starting_thread = (thread_init fresh_el 1)\<lparr>th_pos := T_setup, th_owner := O_entering\<rparr>"

lemma starting_thread_reached: "thread_run_step\<^sup>*\<^sup>* (thread_init fresh_el 1) starting_thread"
  unfolding starting_thread_def
  by (rule r_into_rtranclp, rule startLoop) (simp add: thread_init_def loop_sys.defs)

theorem startLoop_returns_witness:
  "settles thread_step 11 starting_thread
    (\<lambda>s'. th_owner s' = O_started \<and> th_loop s' \<and> th_pos s' = T_loop \<and> ls_pos s' = At_poll)"
  using startLoop_returns [OF fresh_el_new _ starting_thread_reached]
  by (simp add: starting_thread_def thread_works pos_work_def in_start_def thread_init_def loop_sys.defs loop_init_def fresh_el_def)

text \<open>
  C16. A destructor called while \<open>loop()\<close> runs does not wait for ever: the threads come to
  rest after a bounded number of steps, and when they have, the owner has joined the thread,
  or it was overtaken by it inside \<open>quit\<close> and touches a loop that does not exist any more.
\<close>

theorem destructor_comes_to_an_end:
  assumes "new_loop el" "0 < cap" "thread_run_step\<^sup>*\<^sup>* (thread_init el cap) s"
    and "th_owner s = O_quitting" "ls_pos s \<noteq> At_start"
  shows "settles thread_step (thread_work s) s
    (\<lambda>s'. th_pos s' = T_gone \<and> th_owner s' \<in> {O_destroyed, O_dangling})"
proof (rule phase_settles [where P = ending, OF _ _ ending_step])
  show inv: "thread_inv s" by (rule thread_reach_inv [OF assms(3,1,2)])
  show "ending s" using assms(4,5) by (simp add: ending_def)
  show "th_pos s' = T_gone \<and> th_owner s' \<in> {O_destroyed, O_dangling}"
    if inv': "thread_inv s'" and phase: "ending s'" and rest: "\<And>u. \<not> thread_step s' u" for s'
  proof -
    have "th_pos s' = T_gone"
      using thread_at_rest(3) [OF inv' rest] quit_at_rest [OF inv' rest] thread_invD(2,5,10) [OF inv'] phase
        thread_at_rest(1) [OF inv' rest]
      by (auto simp: ending_def)
    then show ?thesis using thread_at_rest(1,4) [OF inv' rest] phase by (auto simp: ending_def)
  qed
qed

text \<open>The owner has the loop, before and after the thread has entered \<open>loop()\<close>.\<close>

definition published_thread :: "nat thread_sys" where
  "published_thread = starting_thread\<lparr>th_pos := T_published, th_loop := True, th_owner := O_started\<rparr>"

definition entered_thread :: "nat thread_sys" where
  "entered_thread = at_pos enter_loop At_test (published_thread\<lparr>th_pos := T_loop\<rparr>)"

lemmas example_threads = entered_thread_def published_thread_def starting_thread_def thread_init_def loop_sys.defs
  loop_init_def fresh_el_def at_pos_def loop_actions

lemma published_thread_reached: "thread_run_step\<^sup>*\<^sup>* (thread_init fresh_el 1) published_thread"
proof -
  let ?s1 = "starting_thread\<lparr>th_pos := T_published, th_loop := True\<rparr>"
  have "thread_run_step starting_thread ?s1"
    by (intro thread_run_step.inside thread publish) (simp_all add: example_threads)
  moreover have "thread_run_step ?s1 published_thread"
    using thread_run_step.inside [OF owner [OF test_true [of ?s1]]] by (simp add: example_threads)
  ultimately show ?thesis using starting_thread_reached by (meson rtranclp.rtrancl_into_rtrancl)
qed

lemma entered_thread_reached: "thread_run_step\<^sup>*\<^sup>* (thread_init fresh_el 1) entered_thread"
proof -
  let ?s1 = "published_thread\<lparr>th_pos := T_loop\<rparr>"
  have "thread_run_step published_thread ?s1"
    using thread_run_step.inside [OF thread [OF notify_all [of published_thread]]] by (simp add: example_threads notify_owner_def)
  moreover have "thread_run_step ?s1 entered_thread"
    unfolding entered_thread_def by (intro thread_run_step.inside thread loop enter) (simp_all add: example_threads)
  ultimately show ?thesis using published_thread_reached by (meson rtranclp.rtrancl_into_rtrancl)
qed

lemma destructor_called:
  assumes "thread_run_step\<^sup>*\<^sup>* s0 s" "th_owner s = O_started" "th_loop s"
  shows "thread_run_step\<^sup>*\<^sup>* s0 (s\<lparr>th_owner := O_quitting\<rparr>)"
  using assms(1) destructor_running [OF assms(2,3)] by (rule rtranclp.rtrancl_into_rtrancl)

theorem destructor_comes_to_an_end_witness:
  "settles thread_step 13 (entered_thread\<lparr>th_owner := O_quitting\<rparr>)
    (\<lambda>s'. th_pos s' = T_gone \<and> th_owner s' \<in> {O_destroyed, O_dangling})"
  using destructor_comes_to_an_end [OF fresh_el_new _ destructor_called [OF entered_thread_reached]]
  by (simp add: example_threads thread_works pos_work_def)

text \<open>
  The second outcome happens: a loop that tests \<open>quit_\<close> just after the owner has set it ends
  the thread before the owner has written its byte.
\<close>

lemma destructor_overtaken:
  assumes "thread_inv s" "th_owner s = O_quitting" "th_pos s = T_loop" "ls_pos s = At_test"
  shows "\<exists>s'. thread_step\<^sup>*\<^sup>* s s' \<and> th_owner s' = O_dangling"
proof -
  let ?s1 = "s\<lparr>ls_loop := set_quit True (ls_loop s), ls_posting := Suc (ls_posting s), th_owner := O_waking\<rparr>"
  let ?s2 = "at_pos leave_loop Left ?s1"
  let ?s3 = "?s2\<lparr>th_pos := T_cleared, th_loop := False\<rparr>"
  let ?s4 = "?s3\<lparr>th_pos := T_gone\<rparr>"
  let ?s5 = "?s4\<lparr>th_owner := O_dangling\<rparr>"
  have "thread_step s ?s1" by (rule owner, rule owner_step.quit) (simp_all add: assms)
  moreover have "thread_step ?s1 ?s2" by (intro thread loop leave) (simp_all add: assms at_pos_def loop_actions)
  moreover have "thread_step ?s2 ?s3" by (intro thread clear) (simp_all add: assms at_pos_def)
  moreover have "thread_step ?s3 ?s4" by (intro thread destroy) simp
  moreover have "thread_step ?s4 ?s5" by (intro owner wake_freed) (simp_all add: at_pos_def)
  ultimately have "thread_step\<^sup>*\<^sup>* s ?s5" by (meson converse_rtranclp_into_rtranclp rtranclp.rtrancl_refl)
  then show ?thesis by (intro exI [of _ ?s5]) simp
qed

text \<open>
  C33. A destructor that runs before the thread has entered \<open>loop()\<close> can wait for ever,
  although \<open>startLoop\<close> has returned: \<open>loop()\<close> clears the \<open>quit_\<close> that the destructor has set,
  and from then on no step of the threads ends the loop or the join.
\<close>

theorem early_destructor_can_hang:
  assumes "new_loop el" "0 < cap" "thread_run_step\<^sup>*\<^sup>* (thread_init el cap) s"
    and "th_owner s = O_quitting" "ls_pos s = At_start"
  shows "\<exists>s'. thread_step\<^sup>*\<^sup>* s s' \<and>
    (\<forall>s''. thread_step\<^sup>*\<^sup>* s' s'' \<longrightarrow> th_owner s'' \<in> {O_waking, O_joining} \<and> th_pos s'' = T_loop)"
proof -
  have inv: "thread_inv s" by (rule thread_reach_inv [OF assms(3,1,2)])
  have pos: "th_pos s = T_published \<or> th_pos s = T_loop"
    using thread_invD(3,5,6) [OF inv] assms(4,5) by (cases "th_pos s") (auto simp: in_start_def)
  let ?s1 = "s\<lparr>ls_loop := set_quit True (ls_loop s), ls_posting := Suc (ls_posting s), th_owner := O_waking\<rparr>"
  let ?s2 = "?s1\<lparr>th_pos := T_loop\<rparr>"
  let ?s3 = "at_pos enter_loop At_test ?s2"
  have "thread_step s ?s1" by (intro owner owner_step.quit) (use pos assms(4) in auto)
  moreover have "thread_step\<^sup>*\<^sup>* ?s1 ?s2"
  proof (cases "th_pos s = T_loop")
    case False
    then have "threadFunc_step ?s1 (?s1\<lparr>th_pos := T_loop, th_owner := notify_owner (th_owner ?s1)\<rparr>)"
      using pos by (intro notify_all) simp
    also have "?s1\<lparr>th_pos := T_loop, th_owner := notify_owner (th_owner ?s1)\<rparr> = ?s2" by (cases s) (simp add: notify_owner_def)
    finally have "threadFunc_step ?s1 ?s2" .
    then show ?thesis by (blast intro: thread)
  next
    case True
    then have "?s2 = ?s1" by (cases s) simp
    then show ?thesis by (simp only: rtranclp.rtrancl_refl)
  qed
  moreover have "thread_step ?s2 ?s3"
    by (intro thread loop enter) (simp_all add: assms(5) at_pos_def)
  ultimately have "thread_step\<^sup>*\<^sup>* s ?s3"
    by (meson converse_rtranclp_into_rtranclp rtranclp.rtrancl_into_rtrancl)
  moreover have "hanging ?s3" by (simp add: hanging_def at_pos_def loop_actions)
  then have "hanging s''" if "thread_step\<^sup>*\<^sup>* ?s3 s''" for s''
    using phase_run [where P = hanging, OF that] hanging_step by blast
  ultimately show ?thesis by (intro exI [of _ ?s3]) (auto simp: hanging_def)
qed

theorem early_destructor_can_hang_witness:
  "\<exists>s'. thread_step\<^sup>*\<^sup>* (published_thread\<lparr>th_owner := O_quitting\<rparr>) s' \<and>
    (\<forall>s''. thread_step\<^sup>*\<^sup>* s' s'' \<longrightarrow> th_owner s'' \<in> {O_waking, O_joining} \<and> th_pos s'' = T_loop)"
  by (rule early_destructor_can_hang [OF fresh_el_new _ destructor_called [OF published_thread_reached]])
    (simp_all add: example_threads)

text \<open>
  If a user of the loop ends it with \<open>quit\<close>, the destructor terminates the program: the
  thread ends after a bounded number of steps and clears \<open>loop_\<close>; the destructor then skips
  the \<open>join\<close>, and its \<open>std::thread\<close> is destroyed while it is joinable.
\<close>

theorem destructor_after_quit_terminates:
  assumes "new_loop el" "0 < cap" "thread_run_step\<^sup>*\<^sup>* (thread_init el cap) s"
    and "th_owner s = O_started" "ls_pos s \<noteq> At_start" "el_quit (ls_loop s)"
  shows "settles thread_step (thread_work s) s
    (\<lambda>s'. th_pos s' = T_gone \<and> (\<exists>u. thread_run_step s' u) \<and> (\<forall>u. thread_run_step s' u \<longrightarrow> th_owner u = O_terminated))"
proof (rule phase_settles [where P = abandoned, OF _ _ abandoned_step])
  show inv: "thread_inv s" by (rule thread_reach_inv [OF assms(3,1,2)])
  show "abandoned s" using assms(4,5,6) by (simp add: abandoned_def)
  show "th_pos s' = T_gone \<and> (\<exists>u. thread_run_step s' u) \<and> (\<forall>u. thread_run_step s' u \<longrightarrow> th_owner u = O_terminated)"
    if inv': "thread_inv s'" and phase: "abandoned s'" and rest: "\<And>u. \<not> thread_step s' u" for s'
  proof -
    have ow: "th_owner s' = O_started" using phase by (simp add: abandoned_def)
    have gone: "th_pos s' = T_gone"
      using thread_at_rest(3) [OF inv' rest] quit_at_rest [OF inv' rest] thread_invD(5) [OF inv'] phase by (auto simp: abandoned_def)
    then have cleared: "\<not> th_loop s'" using thread_invD(4) [OF inv'] by simp
    have "th_owner u = O_terminated" if "thread_run_step s' u" for u
      using that by (cases rule: thread_run_step.cases) (use ow gone cleared rest in auto)
    with gone destructor_cleared [OF ow cleared] show ?thesis by blast
  qed
qed

theorem destructor_after_quit_terminates_witness:
  "\<exists>s'. thread_step\<^sup>*\<^sup>* (entered_thread\<lparr>ls_loop := set_quit True (ls_loop entered_thread), ls_posting := 1\<rparr>) s' \<and>
    (\<forall>u. thread_run_step s' u \<longrightarrow> th_owner u = O_terminated)"
proof -
  let ?s = "entered_thread\<lparr>ls_loop := set_quit True (ls_loop entered_thread), ls_posting := 1\<rparr>"
  have "thread_run_step entered_thread ?s"
    using use [OF _ _ _ loop_call.quit [of entered_thread]] by (simp add: example_threads in_start_def)
  then have reached: "thread_run_step\<^sup>*\<^sup>* (thread_init fresh_el 1) ?s"
    using entered_thread_reached by (meson rtranclp.rtrancl_into_rtrancl)
  have s: "th_owner ?s = O_started" "ls_pos ?s \<noteq> At_start" "el_quit (ls_loop ?s)" by (simp_all add: example_threads)
  show ?thesis using settles_run [OF destructor_after_quit_terminates [OF fresh_el_new _ reached s]] by auto
qed

end
