(* ===== verification/TimerFd.thy ===== *)
theory TimerFd
  imports Interleaving "HOL-Library.Word"
begin

text \<open>
  \<open>TimerFd.cpp\<close>: a timer that writes a byte into a pipe after a timeout. Every accepted
  \<open>setTime\<close> starts a detached thread; \<open>isTiming_\<close> is tested and set by separate atomic
  actions. The interleavings are a step relation over the callers inside \<open>setTime\<close> and the
  timer threads. A thread's \<open>poll\<close> without descriptors ends when its timeout is over, and
  never when the timeout is negative.
\<close>

section \<open>State\<close>

text \<open>
  \<open>tf_checked\<close>: the arguments of the callers that have found \<open>isTiming_\<close> clear and not set it
  yet; \<open>tf_polling\<close>: the timeouts of the timer threads in \<open>poll\<close>; \<open>tf_done\<close>: the number of
  those that have written their byte; \<open>tf_bytes\<close>: the bytes in the pipe; \<open>tf_fault\<close>: a timer
  thread has used the object after its destructor. \<open>tf_accepted\<close> and
  \<open>tf_written\<close> log the timeouts of all timers started and count the bytes written.
\<close>

record timer_sys =
  tf_isTiming :: bool
  tf_checked :: "64 word list"
  tf_polling :: "32 word list"
  tf_done :: nat
  tf_bytes :: nat
  tf_alive :: bool
  tf_fault :: bool
  tf_accepted :: "32 word list"
  tf_written :: nat

text \<open>The constructor; \<open>None\<close> when \<open>pipe\<close> fails and the program exits.\<close>

definition TimerFd_new :: "bool \<Rightarrow> timer_sys option" where
  "TimerFd_new pipe_ok = (if pipe_ok
     then Some \<lparr>tf_isTiming = False, tf_checked = [], tf_polling = [], tf_done = 0, tf_bytes = 0, tf_alive = True, tf_fault = False,
       tf_accepted = [], tf_written = 0\<rparr>
     else None)"

text \<open>\<open>static_cast<int>(timeout.count())\<close>.\<close>

definition timeoutMs :: "64 word \<Rightarrow> 32 word" where
  "timeoutMs count = ucast count"

text \<open>The \<open>poll\<close> of a timer thread ends.\<close>

definition expires :: "32 word \<Rightarrow> bool" where
  "expires ms \<longleftrightarrow> 0 \<le> sint ms"

text \<open>The destructor closes the pipe; nothing stops the detached threads.\<close>

definition TimerFd_destroy :: "timer_sys \<Rightarrow> timer_sys" where
  "TimerFd_destroy s = s\<lparr>tf_alive := False, tf_bytes := 0\<rparr>"

definition touch :: "timer_sys \<Rightarrow> timer_sys" where
  "touch s = (if tf_alive s then s else s\<lparr>tf_fault := True\<rparr>)"

section \<open>Steps\<close>

definition start_timer :: "64 word \<Rightarrow> timer_sys \<Rightarrow> timer_sys" where
  "start_timer count s = s\<lparr>tf_isTiming := True, tf_polling := tf_polling s @ [timeoutMs count],
     tf_accepted := tf_accepted s @ [timeoutMs count]\<rparr>"

inductive timer_step :: "timer_sys \<Rightarrow> timer_sys \<Rightarrow> bool" where
  start: "tf_checked s = xs @ count # ys \<Longrightarrow> timer_step s (start_timer count (s\<lparr>tf_checked := xs @ ys\<rparr>))"
| expire: "tf_polling s = xs @ ms # ys \<Longrightarrow> expires ms \<Longrightarrow>
     timer_step s (touch (s\<lparr>tf_polling := xs @ ys, tf_bytes := Suc (tf_bytes s), tf_done := Suc (tf_done s),
       tf_written := Suc (tf_written s)\<rparr>))"
| finish: "tf_done s = Suc n \<Longrightarrow> timer_step s (touch (s\<lparr>tf_done := n, tf_isTiming := False\<rparr>))"

text \<open>
  The calls: \<open>setTime\<close> while no timer seems to run or while one does, reading \<open>fd()\<close>, and the
  destructor.
\<close>

inductive timer_run_step :: "timer_sys \<Rightarrow> timer_sys \<Rightarrow> bool" where
  inside: "timer_step s s' \<Longrightarrow> timer_run_step s s'"
| setTime: "tf_alive s \<Longrightarrow> \<not> tf_isTiming s \<Longrightarrow> timer_run_step s (s\<lparr>tf_checked := tf_checked s @ [count]\<rparr>)"
| setTime_running: "tf_alive s \<Longrightarrow> tf_isTiming s \<Longrightarrow> timer_run_step s s"
| read_fd: "tf_bytes s = Suc n \<Longrightarrow> timer_run_step s (s\<lparr>tf_bytes := n\<rparr>)"
| destroy: "tf_alive s \<Longrightarrow> tf_checked s = [] \<Longrightarrow> timer_run_step s (TimerFd_destroy s)"

lemma touch_simps [simp]:
  "tf_isTiming (touch s) = tf_isTiming s" "tf_checked (touch s) = tf_checked s" "tf_polling (touch s) = tf_polling s"
  "tf_done (touch s) = tf_done s" "tf_bytes (touch s) = tf_bytes s" "tf_alive (touch s) = tf_alive s"
  "tf_accepted (touch s) = tf_accepted s" "tf_written (touch s) = tf_written s"
  by (simp_all add: touch_def)

lemma touch_alive: "tf_alive s \<Longrightarrow> touch s = s"
  by (simp add: touch_def)

inductive_cases timer_stepE: "timer_step s s'"
inductive_cases timer_run_stepE: "timer_run_step s s'"

section \<open>Invariant\<close>

text \<open>
  Each timer that was started and can expire has written its byte or still polls; those
  that cannot expire all poll.
\<close>

definition timer_inv :: "timer_sys \<Rightarrow> bool" where
  "timer_inv s \<longleftrightarrow>
     tf_written s + length (filter expires (tf_polling s)) = length (filter expires (tf_accepted s)) \<and>
     length (filter (\<lambda>ms. \<not> expires ms) (tf_polling s)) = length (filter (\<lambda>ms. \<not> expires ms) (tf_accepted s))"

lemma timer_inv_new: "TimerFd_new ok = Some s \<Longrightarrow> timer_inv s"
  by (auto simp: TimerFd_new_def timer_inv_def split: if_splits)

lemma timer_inv_step: "timer_inv s \<Longrightarrow> timer_step s s' \<Longrightarrow> timer_inv s'"
  by (erule timer_stepE) (auto simp: timer_inv_def start_timer_def)

lemma timer_inv_run_step: "timer_inv s \<Longrightarrow> timer_run_step s s' \<Longrightarrow> timer_inv s'"
  by (erule timer_run_stepE) (erule (1) timer_inv_step, simp_all add: timer_inv_def TimerFd_destroy_def)

lemma timer_reach_inv:
  assumes "timer_run_step\<^sup>*\<^sup>* s0 s" "TimerFd_new ok = Some s0"
  shows "timer_inv s"
  using assms(1) by (induction rule: rtranclp_induct) (auto intro: timer_inv_new [OF assms(2)] timer_inv_run_step)

definition timer_work :: "timer_sys \<Rightarrow> nat" where
  "timer_work s = 3 * length (tf_checked s) + 2 * length (tf_polling s) + tf_done s"

interpretation timer_rest: settling timer_step timer_inv timer_work
  by unfold_locales (erule (1) timer_inv_step, auto elim!: timer_stepE simp: timer_work_def start_timer_def)

lemma timer_at_rest:
  assumes "\<And>u. \<not> timer_step s u"
  shows "tf_checked s = []" "tf_done s = 0" "filter expires (tf_polling s) = []"
proof -
  show "tf_checked s = []" using assms start [of s "[]"] by (cases "tf_checked s") auto
  show "tf_done s = 0" using assms finish [of s] by (cases "tf_done s") auto
  show "filter expires (tf_polling s) = []"
  proof (rule ccontr)
    assume "filter expires (tf_polling s) \<noteq> []"
    then obtain ms where "ms \<in> set (tf_polling s)" "expires ms" by (auto simp: filter_empty_conv)
    then show False using assms expire by (metis split_list)
  qed
qed

lemma accepted_run_prefix: "timer_step\<^sup>*\<^sup>* s s' \<Longrightarrow> tf_checked s = [] \<Longrightarrow> tf_checked s' = [] \<and> tf_accepted s' = tf_accepted s"
  by (induction rule: rtranclp_induct) (auto elim!: timer_stepE simp: start_timer_def)

text \<open>A destructor that runs while a timer does: the timer's thread uses the object after it.\<close>

lemma destroyed_timer_is_used:
  assumes "timer_inv s" "\<not> tf_alive s" "filter expires (tf_polling s) \<noteq> [] \<or> 0 < tf_done s"
  shows "settles timer_step (timer_work s) s tf_fault"
proof (rule timer_rest.settlesI [OF assms(1)])
  let ?P = "\<lambda>u. \<not> tf_alive u \<and> (tf_fault u \<or> filter expires (tf_polling u) \<noteq> [] \<or> 0 < tf_done u)"
  show "tf_fault s'" if run: "timer_step\<^sup>*\<^sup>* s s'" and rest: "\<And>u. \<not> timer_step s' u" for s'
  proof -
    have "?P s'" using run
      by (induction rule: rtranclp_induct) (use assms(2,3) in \<open>auto elim!: timer_stepE simp: touch_def start_timer_def\<close>)
    then show ?thesis using timer_at_rest [OF rest] by simp
  qed
qed

section \<open>Properties\<close>


text \<open>Two callers have tested \<open>isTiming_\<close> at the same time.\<close>

definition racing_timer :: timer_sys where
  "racing_timer = \<lparr>tf_isTiming = False, tf_checked = [100, 200], tf_polling = [], tf_done = 0, tf_bytes = 0, tf_alive = True, tf_fault = False,
     tf_accepted = [], tf_written = 0\<rparr>"



text \<open>
  The test and the setting of \<open>isTiming_\<close> are two actions: callers that have both tested it
  start two timers, and the first to finish clears the flag while the second runs.
\<close>

lemma racing_callers_start_two_timers:
  "\<exists>s'. timer_step\<^sup>*\<^sup>* racing_timer s' \<and> tf_polling s' = [200] \<and> \<not> tf_isTiming s'"
proof -
  let ?s1 = "start_timer 100 (racing_timer\<lparr>tf_checked := [200]\<rparr>)"
  let ?s2 = "start_timer 200 (?s1\<lparr>tf_checked := []\<rparr>)"
  let ?s3 = "?s2\<lparr>tf_polling := [200], tf_bytes := 1, tf_written := 1, tf_done := 1\<rparr>"
  let ?s4 = "?s3\<lparr>tf_done := 0, tf_isTiming := False\<rparr>"
  have "timer_step racing_timer ?s1" using start [of racing_timer "[]" 100 "[200]"] by (simp add: racing_timer_def)
  moreover have "timer_step ?s1 ?s2" using start [of ?s1 "[]" 200 "[]"] by (simp add: racing_timer_def start_timer_def)
  moreover have "timer_step ?s2 ?s3"
    using expire [of ?s2 "[]" 100 "[200]"] by (simp add: racing_timer_def start_timer_def timeoutMs_def expires_def touch_alive)
  moreover have "timer_step ?s3 ?s4" using finish [of ?s3 0] by (simp add: racing_timer_def start_timer_def touch_alive)
  ultimately have "timer_step\<^sup>*\<^sup>* racing_timer ?s4" by (meson converse_rtranclp_into_rtranclp rtranclp.rtrancl_refl)
  then show ?thesis by (intro exI [of _ ?s4]) simp
qed

lemma timeout_value:
  "sint (timeoutMs count) =
     (if uint count mod 2 ^ 32 < 2 ^ 31 then uint count mod 2 ^ 32 else uint count mod 2 ^ 32 - 2 ^ 32)"
proof -
  let ?m = "uint count mod 2 ^ 32"
  have "sint (timeoutMs count) = (uint count + 2 ^ 31) mod 2 ^ 32 - 2 ^ 31"
    by (simp add: timeoutMs_def signed_ucast_eq signed_take_bit_eq_take_bit_shift take_bit_eq_mod)
  also have "(uint count + 2 ^ 31) mod 2 ^ 32 = (?m + 2 ^ 31) mod 2 ^ 32" by (simp only: mod_add_left_eq)
  also have "\<dots> = (if ?m < 2 ^ 31 then ?m + 2 ^ 31 else ?m - 2 ^ 31)"
  proof (cases "?m < 2 ^ 31")
    case True
    then show ?thesis by simp
  next
    case False
    have "?m < 2 ^ 32" by (rule pos_mod_bound) simp
    moreover have "x - 2 ^ 31 < 2 ^ 32" if "x < 2 ^ 32" for x :: int using that by simp
    ultimately have "0 \<le> ?m - 2 ^ 31" "?m - 2 ^ 31 < 2 ^ 32" using False by (simp_all only: not_less le_diff_eq add_0)
    then have "(?m - 2 ^ 31) mod 2 ^ 32 = ?m - 2 ^ 31" by (rule mod_pos_pos_trivial)
    moreover have "?m + 2 ^ 31 = (?m - 2 ^ 31) + 2 ^ 32" by simp
    ultimately show ?thesis using False by (simp only: mod_add_self2 if_False)
  qed
  finally show ?thesis by simp
qed

lemma expires_iff: "expires (timeoutMs count) \<longleftrightarrow> uint count mod 2 ^ 32 < 2 ^ 31"
proof -
  have "0 \<le> uint count mod 2 ^ 32" "uint count mod 2 ^ 32 < 2 ^ 32" by (rule pos_mod_sign, simp, rule pos_mod_bound, simp)
  then show ?thesis unfolding expires_def timeout_value by (simp split: if_splits) linarith
qed

text \<open>
  C40. The number of milliseconds is cut down to an \<open>int\<close>, so that what counts is its value
  modulo \<open>2 ^ 32\<close>. Take a timer that is set while no other timer or caller is at work. If that
  value is \<open>2 ^ 31\<close> or more, the timeout is negative, its thread polls for ever, and nothing
  ever clears \<open>isTiming_\<close>: no byte is written and no later \<open>setTime\<close> is accepted, whatever is
  called. Otherwise the thread writes its byte and clears \<open>isTiming_\<close> after that many
  milliseconds, which from \<open>2 ^ 32\<close> on is not the time it was set to.
\<close>

theorem long_timeout_stops_the_timer:
  assumes "TimerFd_new ok = Some s0" "timer_run_step\<^sup>*\<^sup>* s0 s"
    and "\<not> tf_isTiming s" "tf_checked s = [count]" "tf_polling s = []" "tf_done s = 0"
  shows "if 2 ^ 31 \<le> uint count mod 2 ^ 32
    then \<forall>s'. timer_run_step\<^sup>*\<^sup>* (start_timer count (s\<lparr>tf_checked := []\<rparr>)) s' \<longrightarrow>
      tf_isTiming s' \<and> tf_written s' = tf_written s \<and> tf_accepted s' = tf_accepted s @ [timeoutMs count] \<and>
      tf_bytes s' \<le> tf_bytes s
    else sint (timeoutMs count) = uint count mod 2 ^ 32 \<and>
      settles timer_step 2 (start_timer count (s\<lparr>tf_checked := []\<rparr>))
        (\<lambda>s'. \<not> tf_isTiming s' \<and> tf_written s' = Suc (tf_written s))"
proof (cases "2 ^ 31 \<le> uint count mod 2 ^ 32")
  case True
  then have neg: "\<not> expires (timeoutMs count)" by (simp add: expires_iff)
  define stuck :: "timer_sys \<Rightarrow> bool" where "stuck u \<longleftrightarrow> tf_isTiming u \<and> tf_checked u = [] \<and> tf_polling u = [timeoutMs count] \<and> tf_done u = 0 \<and>
    tf_written u = tf_written s \<and> tf_accepted u = tf_accepted s @ [timeoutMs count] \<and> tf_bytes u \<le> tf_bytes s" for u
  have init: "stuck (start_timer count (s\<lparr>tf_checked := []\<rparr>))" using assms(3-6) by (simp add: stuck_def start_timer_def)
  have kept: "stuck v" if "stuck u" "timer_run_step u v" for u v
    using that(2) that(1) neg
    by (auto elim!: timer_run_stepE timer_stepE simp: stuck_def TimerFd_destroy_def append_eq_Cons_conv)
  have "stuck s'" if "timer_run_step\<^sup>*\<^sup>* (start_timer count (s\<lparr>tf_checked := []\<rparr>)) s'" for s'
    using that by (induction rule: rtranclp_induct) (auto intro: init kept)
  with True show ?thesis by (simp add: stuck_def)
next
  case False
  then have pos: "expires (timeoutMs count)" by (simp add: expires_iff)
  let ?s1 = "start_timer count (s\<lparr>tf_checked := []\<rparr>)"
  have "timer_step s ?s1" using start [of s "[]" count "[]"] assms(4) by simp
  with timer_reach_inv [OF assms(2,1)] have inv: "timer_inv ?s1" by (rule timer_inv_step)
  have "settles timer_step (timer_work ?s1) ?s1 (\<lambda>s'. \<not> tf_isTiming s' \<and> tf_written s' = Suc (tf_written s))"
  proof (rule timer_rest.settlesI [OF inv])
    let ?P = "\<lambda>u. tf_checked u = [] \<and> tf_accepted u = tf_accepted ?s1 \<and>
      tf_written u + length (tf_polling u) = Suc (tf_written s) \<and> set (tf_polling u) \<subseteq> {timeoutMs count} \<and>
      (tf_isTiming u \<longrightarrow> 0 < tf_done u + length (tf_polling u))"
    show "\<not> tf_isTiming s' \<and> tf_written s' = Suc (tf_written s)"
      if run: "timer_step\<^sup>*\<^sup>* ?s1 s'" and rest: "\<And>u. \<not> timer_step s' u" for s'
    proof -
      have "?P s'" using run
        by (induction rule: rtranclp_induct)
          (use assms(5,6) in \<open>auto elim!: timer_stepE simp: start_timer_def\<close>)
      with pos timer_at_rest [OF rest] have "tf_polling s' = []" by (cases "tf_polling s'") (auto simp: filter_empty_conv)
      with \<open>?P s'\<close> timer_at_rest(2) [OF rest] show ?thesis by simp
    qed
  qed
  moreover have "timer_work ?s1 = 2" using assms(5,6) by (simp add: timer_work_def start_timer_def)
  moreover have "sint (timeoutMs count) = uint count mod 2 ^ 32" using False by (simp add: timeout_value)
  ultimately show ?thesis using False by simp
qed

text \<open>Timers set to 25 days, just over the largest \<open>int\<close>, and to 5 milliseconds more than \<open>2 ^ 32\<close>.\<close>

definition set_timer :: "64 word \<Rightarrow> timer_sys" where
  "set_timer count = racing_timer\<lparr>tf_checked := [count]\<rparr>"

lemma set_timer_reached: "\<exists>s0. TimerFd_new True = Some s0 \<and> timer_run_step\<^sup>*\<^sup>* s0 (set_timer count)"
proof -
  have "timer_run_step (racing_timer\<lparr>tf_checked := []\<rparr>) (set_timer count)"
    using setTime [of "racing_timer\<lparr>tf_checked := []\<rparr>" count] by (simp add: racing_timer_def set_timer_def)
  then show ?thesis by (auto simp: TimerFd_new_def racing_timer_def)
qed

theorem long_timeout_stops_the_timer_witness:
  "tf_isTiming (TimerFd_destroy (start_timer (25 * 24 * 60 * 60 * 1000) (racing_timer\<lparr>tf_checked := []\<rparr>))) \<and>
   (\<exists>s'. timer_step\<^sup>*\<^sup>* (start_timer (2 ^ 32 + 5) (racing_timer\<lparr>tf_checked := []\<rparr>)) s' \<and> \<not> tf_isTiming s' \<and> tf_written s' = 1)"
proof
  let ?days = "25 * 24 * 60 * 60 * 1000 :: 64 word"
  let ?s = "start_timer ?days (racing_timer\<lparr>tf_checked := []\<rparr>)"
  obtain s0 where s0: "TimerFd_new True = Some s0" "timer_run_step\<^sup>*\<^sup>* s0 (set_timer ?days)"
    using set_timer_reached by blast
  have "timer_run_step ?s (TimerFd_destroy ?s)" by (rule destroy) (simp_all add: racing_timer_def start_timer_def)
  then have "timer_run_step\<^sup>*\<^sup>* ?s (TimerFd_destroy ?s)" by (rule r_into_rtranclp)
  with long_timeout_stops_the_timer [OF s0, of ?days] show "tf_isTiming (TimerFd_destroy ?s)"
    by (simp add: set_timer_def racing_timer_def)
next
  let ?s = "start_timer (2 ^ 32 + 5) (racing_timer\<lparr>tf_checked := []\<rparr>)"
  obtain s0 where s0: "TimerFd_new True = Some s0" "timer_run_step\<^sup>*\<^sup>* s0 (set_timer (2 ^ 32 + 5))"
    using set_timer_reached by blast
  from long_timeout_stops_the_timer [OF s0, of "2 ^ 32 + 5"]
  have "settles timer_step 2 ?s (\<lambda>s'. \<not> tf_isTiming s' \<and> tf_written s' = Suc 0)"
    by (simp add: set_timer_def racing_timer_def)
  from settles_run [OF this] show "\<exists>s'. timer_step\<^sup>*\<^sup>* ?s s' \<and> \<not> tf_isTiming s' \<and> tf_written s' = 1" by auto
qed

end
