(* ===== verification/Timer.thy ===== *)
theory Timer
  imports Prelude Complex_Main
begin

text \<open>
  \<open>Timer.h\<close>: a callback with a time to run it at, which nothing in the program uses yet. The
  header does not compile as it is (a static atomic member is initialised in the class, and a
  duration is compared with a number); the model is of what it says. Points of time and
  durations are rational numbers of seconds; a callback is known by a number. The counter
  \<open>created_timer\<close> is passed to and returned by the constructor.
\<close>

record timer =
  tm_sequence :: "64 word"
  tm_callback :: nat
  tm_interval :: rat
  tm_repeat :: bool
  tm_expiration :: rat

definition Timer_new :: "nat \<Rightarrow> rat \<Rightarrow> rat \<Rightarrow> 64 word \<Rightarrow> timer \<times> 64 word" where
  "Timer_new callback expi interval created_timer =
     (\<lparr>tm_sequence = created_timer, tm_callback = callback, tm_interval = interval, tm_repeat = (interval > 0),
       tm_expiration = expi\<rparr>, created_timer + 1)"

definition Timer_run :: "(nat \<Rightarrow> 'w stmt) \<Rightarrow> timer \<Rightarrow> 'w stmt" where
  "Timer_run call t = call (tm_callback t)"

text \<open>\<open>clock\<close> is what \<open>system_clock::now()\<close> gives, which need not be \<open>now\<close>.\<close>

definition Timer_restart :: "rat \<Rightarrow> rat \<Rightarrow> timer \<Rightarrow> timer" where
  "Timer_restart now clock t =
     (if tm_repeat t then t\<lparr>tm_expiration := now + tm_interval t\<rparr> else t\<lparr>tm_expiration := clock - 1\<rparr>)"

section \<open>Sequence numbers\<close>

primrec new_timers :: "(nat \<times> rat \<times> rat) list \<Rightarrow> 64 word \<Rightarrow> timer list \<times> 64 word" where
  "new_timers [] n = ([], n)"
| "new_timers (a # as) n = (case a of (callback, expi, interval) \<Rightarrow>
     (let (t, n1) = Timer_new callback expi interval n; (ts, n2) = new_timers as n1 in (t # ts, n2)))"

lemma new_timers_sequences:
  "map tm_sequence (fst (new_timers as n)) = map (\<lambda>i. n + of_nat i) [0..<length as] \<and>
   snd (new_timers as n) = n + of_nat (length as)"
proof (induction as arbitrary: n)
  case (Cons a as)
  have "map (\<lambda>i. n + 1 + of_nat i) [0..<length as] = map (\<lambda>i. n + of_nat i) (map Suc [0..<length as])"
    by (simp add: add.assoc)
  then show ?case
    using Cons.IH [of "n + 1"] by (cases a) (simp add: Timer_new_def split_beta Let_def map_Suc_upt upt_conv_Cons del: upt_Suc)
qed simp

text \<open>Up to \<open>2\<^sup>6\<^sup>4\<close> timers have different sequence numbers; then the counter has wrapped around.\<close>

lemma new_timers_distinct: "distinct (map tm_sequence (fst (new_timers as n))) \<longleftrightarrow> length as \<le> 2 ^ 64"
proof -
  have inj: "inj_on (\<lambda>i. n + of_nat i :: 64 word) {0..<m} \<longleftrightarrow> m \<le> 2 ^ 64" for m
  proof
    assume inj: "inj_on (\<lambda>i. n + of_nat i :: 64 word) {0..<m}"
    show "m \<le> 2 ^ 64"
    proof (rule ccontr)
      assume "\<not> m \<le> 2 ^ 64"
      moreover have "n + of_nat 0 = n + (of_nat (2 ^ 64) :: 64 word)" by simp
      ultimately show False using inj_onD [OF inj, of 0 "2 ^ 64"] by simp
    qed
  next
    assume "m \<le> 2 ^ 64"
    then show "inj_on (\<lambda>i. n + of_nat i :: 64 word) {0..<m}"
      by (intro inj_onI) (auto dest!: arg_cong [where f = unat] simp: unat_of_nat take_bit_nat_eq_self)
  qed
  then show ?thesis using new_timers_sequences [of as n] by (simp add: distinct_map)
qed

section \<open>Restarting\<close>

text \<open>
  A repeating timer that is restarted whenever it expires runs at the multiples of its
  interval; one that does not repeat is expired after a restart, at any later time.
\<close>

lemma restarted_timer_is_periodic:
  assumes "tm_repeat t"
  shows "tm_expiration (((\<lambda>t. Timer_restart (tm_expiration t) clock t) ^^ n) t) = tm_expiration t + of_nat n * tm_interval t"
proof -
  have "((\<lambda>t. Timer_restart (tm_expiration t) clock t) ^^ n) t = t\<lparr>tm_expiration := tm_expiration t + of_nat n * tm_interval t\<rparr>"
    using assms by (induction n) (simp_all add: Timer_restart_def algebra_simps)
  then show ?thesis by simp
qed

lemma restarted_once_is_expired:
  assumes "\<not> tm_repeat t" "clock \<le> later"
  shows "tm_expiration (Timer_restart now clock t) < later"
  using assms by (simp add: Timer_restart_def)

end
