(* ===== verification/CountdownLatch.thy ===== *)
theory CountdownLatch
  imports Interleaving
begin

text \<open>
  \<open>CountdownLatch.h\<close>: threads that wait for a count to reach zero. The header does not compile
  as it is (a misspelt directive in line 8, and \<open>count\<close> for the member \<open>count_\<close> in the
  predicate of the wait); the model is of the code with these two spellings put right. A wait
  tests its predicate with the mutex held and gives the mutex up when it sleeps; \<open>countdown\<close>
  notifies inside its critical section. The range of \<open>int\<close> is left after two thousand million
  calls only, so the count is an integer.
\<close>

section \<open>State and steps\<close>

text \<open>
  \<open>la_entering\<close>: threads in \<open>wait\<close> that are about to test the predicate, the woken ones
  included; \<open>la_tested\<close>: a thread has found the count different from zero and still holds the
  mutex; \<open>la_waiting\<close>: threads asleep; \<open>la_passed\<close>: returns of \<open>wait\<close>; \<open>la_calls\<close>: calls of
  \<open>countdown\<close>.
\<close>

record latch_sys =
  la_count :: int
  la_tested :: bool
  la_entering :: nat
  la_waiting :: nat
  la_passed :: nat
  la_calls :: nat

definition CountdownLatch_new :: "int \<Rightarrow> latch_sys" where
  "CountdownLatch_new count = \<lparr>la_count = count, la_tested = False, la_entering = 0, la_waiting = 0,
     la_passed = 0, la_calls = 0\<rparr>"

definition latch_predicate :: "latch_sys \<Rightarrow> bool" where
  "latch_predicate s \<longleftrightarrow> la_count s = 0"

definition latch_notify_all :: "latch_sys \<Rightarrow> latch_sys" where
  "latch_notify_all s = s\<lparr>la_entering := la_entering s + la_waiting s, la_waiting := 0\<rparr>"

definition CountdownLatch_countdown :: "latch_sys \<Rightarrow> latch_sys" where
  "CountdownLatch_countdown s =
     (let s1 = s\<lparr>la_count := la_count s - 1, la_calls := Suc (la_calls s)\<rparr>
      in if la_count s1 = 0 then latch_notify_all s1 else s1)"

text \<open>The steps of the threads inside \<open>wait\<close>.\<close>

inductive latch_step :: "latch_sys \<Rightarrow> latch_sys \<Rightarrow> bool" where
  pass: "la_entering s = Suc n \<Longrightarrow> \<not> la_tested s \<Longrightarrow> latch_predicate s \<Longrightarrow>
     latch_step s (s\<lparr>la_entering := n, la_passed := Suc (la_passed s)\<rparr>)"
| test: "la_entering s = Suc n \<Longrightarrow> \<not> la_tested s \<Longrightarrow> \<not> latch_predicate s \<Longrightarrow>
     latch_step s (s\<lparr>la_entering := n, la_tested := True\<rparr>)"
| sleep: "la_tested s \<Longrightarrow> latch_step s (s\<lparr>la_tested := False, la_waiting := Suc (la_waiting s)\<rparr>)"

text \<open>With the calls of both operations and spurious wake-ups.\<close>

inductive latch_run_step :: "latch_sys \<Rightarrow> latch_sys \<Rightarrow> bool" where
  inside: "latch_step s s' \<Longrightarrow> latch_run_step s s'"
| countdown: "\<not> la_tested s \<Longrightarrow> latch_run_step s (CountdownLatch_countdown s)"
| wait: "latch_run_step s (s\<lparr>la_entering := Suc (la_entering s)\<rparr>)"
| spurious: "la_waiting s = Suc n \<Longrightarrow> latch_run_step s (s\<lparr>la_waiting := n, la_entering := Suc (la_entering s)\<rparr>)"

inductive_cases latch_stepE: "latch_step s s'"
inductive_cases latch_run_stepE: "latch_run_step s s'"

lemmas latch_defs = latch_predicate_def latch_notify_all_def CountdownLatch_countdown_def CountdownLatch_new_def Let_def

section \<open>Invariant\<close>

text \<open>
  The count is the start value less the calls; nobody has passed before it reached zero; while
  it is zero nobody sleeps or is about to.
\<close>

definition latch_inv :: "int \<Rightarrow> latch_sys \<Rightarrow> bool" where
  "latch_inv n s \<longleftrightarrow> la_count s = n - int (la_calls s) \<and> (0 < la_passed s \<longrightarrow> la_count s \<le> 0) \<and>
     (la_count s = 0 \<longrightarrow> la_waiting s = 0 \<and> \<not> la_tested s)"

lemma latch_inv_new: "latch_inv n (CountdownLatch_new n)"
  by (simp add: latch_inv_def latch_defs)

lemma latch_inv_step: "latch_inv n s \<Longrightarrow> latch_step s s' \<Longrightarrow> latch_inv n s'"
  by (erule latch_stepE) (auto simp: latch_inv_def latch_defs)

lemma latch_inv_run_step:
  assumes "latch_inv n s" "latch_run_step s s'"
  shows "latch_inv n s'"
  using assms(2)
proof (cases rule: latch_run_step.cases)
  case inside
  with assms(1) show ?thesis by (rule latch_inv_step)
qed (use assms(1) in \<open>auto simp: latch_inv_def latch_defs\<close>)

lemma latch_reached:
  assumes "latch_run_step\<^sup>*\<^sup>* (CountdownLatch_new n) s"
  shows "latch_inv n s"
  using assms by (induction rule: rtranclp_induct) (auto intro: latch_inv_new latch_inv_run_step)

text \<open>The work left for the threads inside \<open>wait\<close>.\<close>

definition latch_work :: "latch_sys \<Rightarrow> nat" where
  "latch_work s = 2 * la_entering s + (if la_tested s then 1 else 0)"

interpretation latch_rest: settling latch_step "latch_inv n" latch_work for n
  by unfold_locales (erule (1) latch_inv_step, auto elim!: latch_stepE simp: latch_work_def)

text \<open>Every thread inside \<open>wait\<close> is in one place; the steps only move them.\<close>

definition latch_threads :: "latch_sys \<Rightarrow> nat" where
  "latch_threads s = la_entering s + la_waiting s + (if la_tested s then 1 else 0) + la_passed s"

lemma latch_step_threads: "latch_step s s' \<Longrightarrow> latch_threads s' = latch_threads s \<and> la_count s' = la_count s"
  by (erule latch_stepE) (auto simp: latch_threads_def)

lemma latch_steps_threads:
  "latch_step\<^sup>*\<^sup>* s s' \<Longrightarrow> latch_threads s' = latch_threads s \<and> la_count s' = la_count s"
  by (induction rule: rtranclp_induct) (auto dest: latch_step_threads)

lemma latch_at_rest:
  assumes "\<And>u. \<not> latch_step s u"
  shows "la_entering s = 0" "\<not> la_tested s"
proof -
  show t: "\<not> la_tested s" using assms latch_step.sleep by blast
  show "la_entering s = 0" using assms latch_step.pass latch_step.test t by (metis not0_implies_Suc)
qed

section \<open>Properties\<close>

text \<open>
  C29. The latch opens neither early nor late: whatever the interleaving of waiting and counting
  threads, no \<open>wait\<close> has returned before \<open>countdown\<close> was called \<open>n\<close> times; and if it was called
  exactly \<open>n\<close> times, all threads in \<open>wait\<close> return after a bounded number of steps.
\<close>

theorem latch_opens_at_zero:
  assumes "latch_run_step\<^sup>*\<^sup>* (CountdownLatch_new n) s"
  shows "(0 < la_passed s \<longrightarrow> n \<le> int (la_calls s)) \<and>
    (n = int (la_calls s) \<longrightarrow> settles latch_step (latch_work s) s (\<lambda>s'. la_passed s' = latch_threads s))"
proof (intro conjI impI)
  note inv = latch_reached [OF assms]
  show "n \<le> int (la_calls s)" if "0 < la_passed s" using that inv by (auto simp: latch_inv_def)
  show "settles latch_step (latch_work s) s (\<lambda>s'. la_passed s' = latch_threads s)" if "n = int (la_calls s)"
  proof (rule latch_rest.settlesI [OF inv])
    fix s' assume run: "latch_step\<^sup>*\<^sup>* s s'" and s': "latch_inv n s'" "\<And>u. \<not> latch_step s' u"
    have "la_count s' = 0" "latch_threads s' = latch_threads s"
      using latch_steps_threads [OF run] inv that by (auto simp: latch_inv_def)
    then show "la_passed s' = latch_threads s"
      using latch_at_rest [OF s'(2)] s'(1) by (auto simp: latch_inv_def latch_threads_def)
  qed
qed

text \<open>
  Counting past zero closes the latch for good: the predicate asks for exactly zero, so a
  thread that has not passed by then never does, whatever happens afterwards.
\<close>

lemma latch_below_zero_is_closed:
  assumes "latch_run_step\<^sup>*\<^sup>* s s'" "la_count s < 0"
  shows "la_passed s' = la_passed s \<and> la_count s' < 0"
  using assms
proof (induction rule: rtranclp_induct)
  case (step u v)
  from step.hyps(2) step.IH [OF step.prems] show ?case
    by (auto elim!: latch_run_stepE latch_stepE simp: latch_defs)
qed simp

text \<open>Two threads wait for one call; both are woken, neither has returned yet.\<close>

definition example_latch :: latch_sys where
  "example_latch = \<lparr>la_count = 0, la_tested = False, la_entering = 2, la_waiting = 0, la_passed = 0, la_calls = 1\<rparr>"

lemma example_latch_reached: "latch_run_step\<^sup>*\<^sup>* (CountdownLatch_new 1) example_latch"
proof -
  let ?s0 = "CountdownLatch_new 1"
  let ?s1 = "?s0\<lparr>la_entering := 1\<rparr>" and ?s2 = "?s0\<lparr>la_tested := True\<rparr>" and ?s3 = "?s0\<lparr>la_waiting := 1\<rparr>"
  let ?s4 = "?s3\<lparr>la_entering := 1\<rparr>"
  have "latch_run_step ?s0 ?s1" using wait [of ?s0] by (simp add: latch_defs)
  moreover have "latch_run_step ?s1 ?s2" using inside [OF test [of ?s1 0]] by (simp add: latch_defs)
  moreover have "latch_run_step ?s2 ?s3" using inside [OF sleep [of ?s2]] by (simp add: latch_defs)
  moreover have "latch_run_step ?s3 ?s4" using wait [of ?s3] by (simp add: latch_defs)
  moreover have "latch_run_step ?s4 example_latch"
    using countdown [of ?s4] by (simp add: latch_defs example_latch_def numeral_2_eq_2)
  ultimately show ?thesis by (meson converse_rtranclp_into_rtranclp rtranclp.rtrancl_refl)
qed

theorem latch_opens_at_zero_witness:
  "settles latch_step 4 example_latch (\<lambda>s'. la_passed s' = 2)"
  using latch_opens_at_zero [OF example_latch_reached]
  by (simp add: example_latch_def latch_work_def latch_threads_def)

text \<open>One call more and the two woken threads go back to sleep for ever.\<close>

lemma one_call_too_many:
  assumes "latch_run_step\<^sup>*\<^sup>* (CountdownLatch_countdown example_latch) s"
  shows "la_passed s = 0"
  using latch_below_zero_is_closed [OF assms] by (simp add: example_latch_def latch_defs)

end
