(* ===== verification/Messages.thy ===== *)
theory Messages
  imports TcpConnection
begin

text \<open>
  The callbacks that print a message: \<open>defaultConnectionCallback\<close> and
  \<open>defaultMessageCallback\<close> of \<open>TcpConnection.cpp\<close>, and what \<open>main.cpp\<close> installs in their
  place. They get the pointer to the read buffer, that is the data received followed by the
  rest of the buffer, which the code does not initialise. Their result here is the text they
  write to the standard output.
\<close>

definition endl :: byte where
  "endl = 10"

definition text_bytes :: "string \<Rightarrow> byte list" where
  "text_bytes s = map of_char s"

definition str_resize :: "nat \<Rightarrow> byte list \<Rightarrow> byte list" where
  "str_resize len s = take len s @ replicate (len - length s) 0"

text \<open>\<open>std::string mess(buf); if(mess.size() != len) mess.resize(len);\<close>\<close>

definition message_string :: "char_ptr \<Rightarrow> nat \<Rightarrow> byte list res" where
  "message_string buf len = (case c_string buf of
     None \<Rightarrow> Fault UndefinedBehaviour
   | Some mess \<Rightarrow> Ok (if length mess \<noteq> len then str_resize len mess else mess))"

definition received_line :: "tcp_connection \<Rightarrow> byte list \<Rightarrow> byte list res" where
  "received_line conn mess = (case InetAddress_toIpPort (tc_peerAddr conn) of
     Inl e \<Rightarrow> Fault e
   | Inr addr \<Rightarrow> Ok (text_bytes ''Received message from: '' @ text_bytes addr @ text_bytes '' '' @ mess @ [endl]))"

definition print_defaultConnectionCallback :: "tcp_connection \<Rightarrow> byte list res" where
  "print_defaultConnectionCallback conn =
     (case InetAddress_toIpPort (tc_localAddr conn) of
        Inl e \<Rightarrow> Fault e
      | Inr a \<Rightarrow>
          (case InetAddress_toIpPort (tc_peerAddr conn) of
             Inl e \<Rightarrow> Fault e
           | Inr b \<Rightarrow> Ok (text_bytes (a @ '' -> '' @ b @ '' is '' @
               (if TcpConnection_connected conn then ''connected'' else ''connecting'')) @ [endl])))"

definition print_defaultMessageCallback :: "tcp_connection \<Rightarrow> char_ptr \<Rightarrow> nat \<Rightarrow> byte list res" where
  "print_defaultMessageCallback conn buf len =
     (case message_string buf len of Inl e \<Rightarrow> Fault e | Inr mess \<Rightarrow> received_line conn mess)"

text \<open>
  \<open>clientMessageCallback\<close> of \<open>main.cpp\<close> is the same; \<open>messageCallback\<close> writes the bytes in
  hexadecimal, one to a line, if \<open>strlen\<close> does not agree with the length.
\<close>

definition print_clientMessageCallback :: "tcp_connection \<Rightarrow> char_ptr \<Rightarrow> nat \<Rightarrow> byte list res" where
  "print_clientMessageCallback conn buf len =
     (case message_string buf len of Inl e \<Rightarrow> Fault e | Inr mess \<Rightarrow> received_line conn mess)"

datatype printed = Hex_lines "byte list" | Text_line "byte list"

definition print_messageCallback :: "tcp_connection \<Rightarrow> char_ptr \<Rightarrow> nat \<Rightarrow> printed res" where
  "print_messageCallback conn buf len = (case c_string buf of
     None \<Rightarrow> Fault UndefinedBehaviour
   | Some s \<Rightarrow>
       if length s \<noteq> len
       then (if len \<le> length buf then Ok (Hex_lines (take len buf)) else Fault UndefinedBehaviour)
       else (case message_string buf len of
               Inl e \<Rightarrow> Fault e
             | Inr mess \<Rightarrow>
                 (case received_line conn mess of Inl e \<Rightarrow> Fault e | Inr t \<Rightarrow> Ok (Text_line t))))"

section \<open>What is printed\<close>

lemma takeWhile_append_zero:
  "takeWhile (\<lambda>b. b \<noteq> 0) (xs @ ys) = (if (0 :: byte) \<in> set xs then takeWhile (\<lambda>b. b \<noteq> 0) xs
     else xs @ takeWhile (\<lambda>b. b \<noteq> 0) ys)"
  by (induction xs) auto

lemma length_takeWhile_zero: "(0 :: byte) \<in> set xs \<Longrightarrow> length (takeWhile (\<lambda>b. b \<noteq> 0) xs) < length xs"
  by (induction xs) auto

text \<open>
  The string made of received data: the data if it holds no zero byte and the rest of the
  buffer happens to hold one; the data up to its first zero byte, padded with zeros, if it holds
  one; otherwise the copy runs past the end of the buffer.
\<close>

lemma message_string_cases:
  "message_string (data @ rest) (length data) =
     (if 0 \<in> set data
      then Ok (takeWhile (\<lambda>b. b \<noteq> 0) data @ replicate (length data - length (takeWhile (\<lambda>b. b \<noteq> 0) data)) 0)
      else if 0 \<in> set rest then Ok data else Fault UndefinedBehaviour)"
  using length_takeWhile_zero [of data]
  by (cases "0 \<in> set data") (auto simp: message_string_def c_string_def str_resize_def takeWhile_append_zero)

lemma replicate_iff: "xs = replicate (length xs) x \<longleftrightarrow> set xs \<subseteq> {x}"
  by (induction xs) auto

text \<open>
  The message is printed as it was received exactly when nothing but zeros follows its first
  zero byte, or when it has none and the rest of the buffer has one.
\<close>

lemma message_printed_faithfully:
  "message_string (data @ rest) (length data) = Ok data \<longleftrightarrow>
     (if 0 \<in> set data then set (dropWhile (\<lambda>b. b \<noteq> 0) data) \<subseteq> {0} else 0 \<in> set rest)"
proof (cases "0 \<in> set data")
  case True
  let ?t = "takeWhile (\<lambda>b. b \<noteq> 0) data" and ?d = "dropWhile (\<lambda>b. b \<noteq> 0) data"
  have len: "length data - length ?t = length ?d"
    by (metis add_diff_cancel_left' length_append takeWhile_dropWhile_id)
  have "?t @ replicate (length ?d) 0 = data \<longleftrightarrow> ?t @ replicate (length ?d) 0 = ?t @ ?d"
    by (simp only: takeWhile_dropWhile_id)
  also have "\<dots> \<longleftrightarrow> ?d = replicate (length ?d) 0" by (simp only: same_append_eq eq_commute)
  also have "\<dots> \<longleftrightarrow> set ?d \<subseteq> {0}"
    by (rule replicate_iff)
  finally show ?thesis using True by (simp add: message_string_cases len)
qed (simp add: message_string_cases)

text \<open>
  In \<open>messageCallback\<close> the byte behind the data, which \<open>read\<close> did not write, decides how a
  message without zero bytes is printed.
\<close>

lemma messageCallback_depends_on_rest:
  assumes "0 \<notin> set data"
  shows "print_messageCallback conn (data @ 0 # rest) (length data) =
      map_sum id Text_line (received_line conn data)"
    and "b \<noteq> 0 \<Longrightarrow> print_messageCallback conn (data @ b # rest @ [0]) (length data) = Ok (Hex_lines data)"
  using assms
  by (simp_all add: print_messageCallback_def message_string_cases c_string_def takeWhile_append_zero map_sum_def
      split: sum.splits)

end
