(* ===== verification/Demo.thy ===== *)
theory Demo
  imports RPC_Client RPC_Server ServerStart Messages
begin

text \<open>
  \<open>main.cpp\<close>: an RPC client that calls a function without connecting first, and the programs
  that \<open>main\<close> has commented out, an echo server and its client. The message callbacks are in
  \<open>Messages\<close>. The last section has the handler of \<open>SIGSEGV\<close>, which prints the stack
  and ends the program.
\<close>

section \<open>The echo server and its client\<close>

text \<open>
  \<open>messageCallback\<close>, installed as the callback with number 0: it prints, which goes wrong only
  where \<open>print_messageCallback\<close> does. \<open>rest\<close> is what the read buffer holds behind the data.
\<close>

definition messageCallback :: "(conn_id \<Rightarrow> byte list \<Rightarrow> byte list) \<Rightarrow> 'z server_call" where
  "messageCallback rest cb c buf =
     (if cb = Cb_user 0
      then with_conn c (\<lambda>k w. case print_messageCallback k (buf @ rest c buf) (length buf) of Inl e \<Rightarrow> Fault e | Inr _ \<Rightarrow> Ok w)
      else skip)"

text \<open>
  \<open>serverCode\<close>: what \<open>server_setup\<close> makes runs until somebody calls \<open>quit\<close>; the two
  destructors run when the loop has been left. \<open>entered\<close> are the loops whose threads have entered
  \<open>loop()\<close> by then; \<open>last_polls\<close> gives what \<open>poll\<close> reports to the threads of the pool.
\<close>

definition serverCode :: "'z server_call \<Rightarrow> nat \<Rightarrow> loop_id \<Rightarrow> chan_id \<Rightarrow> (int \<times> int) option \<Rightarrow> chan_id \<Rightarrow> int \<Rightarrow> int \<Rightarrow> int \<Rightarrow>
    thread_resources list \<Rightarrow> loop_id list \<Rightarrow> (int \<times> 16 word list) list \<Rightarrow> (loop_id \<Rightarrow> (int \<times> 16 word list) list) \<Rightarrow> int \<Rightarrow>
    'z server_net_scheme stmt" where
  "serverCode user n l c pipe_res chan sock idle hw rs entered polls last_polls serverPort = block
     [server_setup (server_exec user n) l c pipe_res chan sock idle hw rs serverPort,
      block (map threadFunc_enters entered),
      EventLoop_loop (server_fire user n) (server_exec user n) release_functor l polls,
      with_loop l (\<lambda>el. if el_looping el then skip else block
        [TcpServer_destroy (threadFunc_end (server_fire user n) (server_exec user n) release_functor last_polls),
         EventLoop_destroy release_functor l])]"

text \<open>
  \<open>clientConnectionCallback\<close>: the text it prints; \<open>one\<close> and \<open>two\<close> are the numbers as JSON
  values. It does not send what it packs. \<open>strlen\<close> counts up to the first zero byte.
\<close>

definition print_clientConnectionCallback :: "'j json_api \<Rightarrow> 'j \<Rightarrow> 'j \<Rightarrow> byte list" where
  "print_clientConnectionCallback api one two =
     (let j = js_put api (js_null api) ''function_name'' (js_string api (lit ''add''));
          j = js_put api j ''arg1'' one;
          j = js_put api j ''arg2'' two;
          json_str = js_dump api j;
          bytes = length (takeWhile (\<lambda>b. b \<noteq> 0) json_str)
      in text_bytes ''Conenction established!'' @ [endl] @ text_bytes (show_nat bytes) @ [endl])"

text \<open>The implicit destructor of a client: its members in reverse order of declaration.\<close>

definition TcpClient_destroy :: "'z client_stmt" where
  "TcpClient_destroy = with_client (\<lambda>cl. block
     [(case cl_connection cl of None \<Rightarrow> skip | Some c \<Rightarrow> conn_unref c),
      Connector_destroy,
      modify (\<lambda>w. w\<lparr>n_client := None\<rparr>)])"

definition clientCode :: "(string \<Rightarrow> 32 word option) \<Rightarrow> 'z client_call_fn \<Rightarrow> nat \<Rightarrow> loop_id \<Rightarrow> chan_id \<Rightarrow> (int \<times> int) option \<Rightarrow>
    (int \<times> 16 word list) list \<Rightarrow> int \<Rightarrow> 'z client_stmt" where
  "clientCode inet_aton user n l c pipe_res polls serverPort = block
     [EventLoop_new l c 0 pipe_res (Cb_EventLoop_handleRead l),
      TcpClient_new l (InetAddress_ip inet_aton ''127.0.0.1'' (word_of_int serverPort)) ''echo client'',
      TcpClient_setConnectionCallback (Cb_user 1),
      TcpClient_setMessageCallback (Cb_user 2),
      TcpClient_connect (client_exec user n),
      EventLoop_loop (client_fire user n) (client_exec user n) release_functor l polls,
      with_loop l (\<lambda>el. if el_looping el then skip else block [TcpClient_destroy, EventLoop_destroy release_functor l])]"

text \<open>
  \<open>callfunc\<close>, which nobody calls: \<open>fd\<close> is the result of \<open>socket\<close>; the result of \<open>connect\<close> is not
  looked at, it only shows in what \<open>write\<close> takes.
\<close>

definition callfunc :: "int \<Rightarrow> 'z net_stmt" where
  "callfunc fd = block
     [modify (\<lambda>w. w\<lparr>k_socks := sys_socket fd (k_socks w)\<rparr>),
      sys_write fd (lit ''A'') (\<lambda>write_bytes. skip),
      Socket_destroy fd]"

section \<open>The program\<close>

text \<open>The text that is printed, and the world after the client's destruction.\<close>

definition demo_main :: "'j json_api \<Rightarrow> (string \<Rightarrow> 32 word option) \<Rightarrow> ('j \<Rightarrow> int option) \<Rightarrow> ('j, 'z) rc_exec \<Rightarrow>
    ('j, 'z) rc_stmt list \<Rightarrow> ('j, 'z) rc_stmt list \<Rightarrow> loop_id \<Rightarrow> chan_id \<Rightarrow> (int \<times> int) option \<Rightarrow> sockaddr_in \<Rightarrow> 'j \<Rightarrow>
    ('j, 'z) rpc_client_net_scheme \<Rightarrow> (byte list \<times> ('j, 'z) rpc_client_net_scheme) res" where
  "demo_main api inet_aton get_int exec early events l c pipe_res memory one w =
     (case block
        [EventLoop_new l c 0 pipe_res (Cb_EventLoop_handleRead l),
         RPC_Client_new api inet_aton l memory ''127.0.0.1'' 9000] w of
        Inl e \<Rightarrow> Fault e
      | Inr w1 \<Rightarrow>
          (case RPC_Client_call api get_int 0 exec early events [] (lit ''hello'') [one] w1 of
             Inl e \<Rightarrow> Fault e
           | Inr ((_, msg), w2) \<Rightarrow> (case TcpClient_destroy w2 of Inl e \<Rightarrow> Fault e | Inr w3 \<Rightarrow> Ok (msg, w3))))"

text \<open>The program tells that it is not connected; it neither sends nor waits for anything.\<close>

lemma demo_reports_no_connection:
  assumes "fresh_loop l c w"
  shows "\<exists>w'. demo_main api inet_aton get_int exec early events l c (Some fds) memory one w =
      Ok (lit ''Connection not established'', w') \<and>
    n_client w' = None \<and> n_connector w' = None \<and> n_conns w' = n_conns w \<and> k_wire w' = k_wire w"
proof (rule EventLoop_new_serves [OF assms, of fds "Cb_EventLoop_handleRead l"], goal_cases)
  case (1 w1 p ch)
  have same: "n_conns w1 = n_conns w" "k_wire w1 = k_wire w" by (subst 1(10), simp)+
  show ?case
    using same
    by (simp add: demo_main_def 1(1) RPC_Client_new_def TcpClient_new_def Connector_new_def modify_def connector_access
        client_access TcpClient_setConnectionCallback_def RPC_Client_call_def TcpClient_destroy_def Connector_destroy_def assertion_def check_def skip_def)
qed

text \<open>A call without \<open>pipe\<close> ends the program.\<close>

lemma demo_without_pipe:
  assumes "fresh_loop l c w"
  shows "demo_main api inet_aton get_int exec early events l c None memory one w = Fault (ProcessExit 1)"
  using assms by (simp add: demo_main_def EventLoop_new_def EventLoop_getEventLoopOfCurrentThread_def fresh_loop_def)

section \<open>The signal handler\<close>

text \<open>
  What the handler prints on the standard output, and the status with which it ends the
  program, if it does. The stack is given by the names of its frames, innermost first;
  \<open>symbols\<close> says whether \<open>backtrace_symbols\<close> gets its memory.
\<close>

definition BACKTRACE_SIZE :: nat where
  "BACKTRACE_SIZE = 16"

definition stack_line :: "string list \<Rightarrow> nat \<Rightarrow> byte list" where
  "stack_line frames i = text_bytes (show_nat i @ '': '' @ frames ! i) @ [endl]"

definition ShowStack :: "string list \<Rightarrow> bool \<Rightarrow> byte list \<times> int option" where
  "ShowStack frames symbols =
     (let n = min BACKTRACE_SIZE (length frames);
          out = text_bytes (''[ShowStack]:[34] n = '' @ show_nat n) @ [endl]
      in if \<not> symbols then (out, Some 1)
         else (out @ text_bytes ''[ShowStack]:[40]'' @ [endl] @ concat (map (stack_line frames) [0..<n]), None))"

definition SIGSEGV :: nat where
  "SIGSEGV = 11"

definition sigsegv_handler :: "string list \<Rightarrow> bool \<Rightarrow> nat \<Rightarrow> byte list \<times> int option" where
  "sigsegv_handler frames symbols signo =
     (if signo = SIGSEGV then
        (case ShowStack frames symbols of (out, status) \<Rightarrow>
           (text_bytes ''Receive SIGSEGV signal'' @ [endl] @ text_bytes ''-----call stack-----'' @ [endl] @ out,
            case status of None \<Rightarrow> Some (-1) | Some s \<Rightarrow> Some s))
      else (text_bytes (''this is sig '' @ show_nat signo), None))"

text \<open>The program ends on a \<open>SIGSEGV\<close> and on no other signal.\<close>

lemma sigsegv_handler_ends: "snd (sigsegv_handler frames symbols signo) \<noteq> None \<longleftrightarrow> signo = SIGSEGV"
  by (simp add: sigsegv_handler_def split: prod.splits option.splits)

text \<open>Of a deep stack the innermost frames are printed.\<close>

lemma ShowStack_innermost: "ShowStack (frames @ deeper) True = ShowStack frames True" if "BACKTRACE_SIZE \<le> length frames"
proof -
  have eq: "map (stack_line (frames @ deeper)) [0..<BACKTRACE_SIZE] = map (stack_line frames) [0..<BACKTRACE_SIZE]"
    using that by (intro map_cong) (auto simp: stack_line_def nth_append)
  from that show ?thesis by (simp add: ShowStack_def Let_def min_absorb1 eq del: map_eq_conv)
qed

end
