(* ===== verification/Spec2Isabelle.thy ===== *)
theory Spec2Isabelle
  imports Poller KqueuePoller ServerStop ConnStates RPC_Refs ClientRefs ThreadSafeQueue ThreadPool LoopThread TimerFd Timer CountdownLatch Demo
begin

text \<open>
  A verification development for the reactor and RPC library in \<open>src/\<close>: an event loop over
  \<open>poll(2)\<close>, TCP servers and clients on top of it, and remote calls over them.

  \<^bold>\<open>The program.\<close> A \<open>Channel\<close> ties a descriptor to callbacks; a \<open>Poller\<close> keeps the array
  for \<open>poll\<close> and a map from descriptors to channels; an \<open>EventLoop\<close> polls, calls the channels'
  \<open>handleEvent\<close> and runs the functors other threads posted, which wake it through a pipe. A
  \<open>TcpConnection\<close> owns a socket, a channel and an output buffer; an \<open>Acceptor\<close> or a \<open>Connector\<close>
  makes connections for a \<open>TcpServer\<close>, which spreads them over the loops of an
  \<open>EventLoopThreadPool\<close>, or a \<open>TcpClient\<close>. \<open>RPC_Server\<close> and \<open>RPC_Client\<close> exchange length-prefixed
  JSON packed by \<open>Codec\<close>. \<open>ThreadPool\<close>, \<open>ThreadSafeQueue\<close>, \<open>CountdownLatch\<close> and \<open>TimerFd\<close>
  stand alone.

  \<^bold>\<open>Theories and sources.\<close> Operations keep the names of the C++ functions, records those of
  the classes, with one field per member.
    \<^item> \<open>Prelude\<close>: statements as functions from a world to an error or a world (\<open>block\<close> for
      sequences, \<open>check\<close> and \<open>assertion\<close> for \<open>exit(1)\<close> and \<open>assert\<close>), the errors, invariants
      kept by statements.
    \<^item> \<open>Channel\<close>, \<open>PollPoller\<close>, \<open>EventLoop\<close>: the files of these names. The world holds the
      channel objects by address, so that a destroyed channel is seen by whoever uses it next.
    \<^item> \<open>Poller\<close>: \<open>Poller.cpp\<close>, which the build lists instead of \<open>PollPoller.cpp\<close>, read over the state
      of a \<open>PollPoller\<close> and then equal to it; \<open>KqueuePoller\<close>: the unfinished poller over \<open>kqueue\<close>.
    \<^item> \<open>InetAddress\<close>, \<open>Socket\<close> (flags and options), \<open>TcpConnection\<close> (with the rest of
      \<open>Socket.cpp\<close>), \<open>TcpStream\<close> (the byte stream of a connection), \<open>TcpLifecycle\<close> (hang-up, release
      and destruction), \<open>Messages\<close> (the callbacks that print).
    \<^item> \<open>EventLoopThreadPool\<close> (with \<open>EventLoopThread.cpp\<close> run sequentially), \<open>Acceptor\<close>, \<open>TcpServer\<close>,
      \<open>ServerStart\<close> (the start of \<open>serverCode\<close>, for pools of any size), \<open>ServerStop\<close> (its end:
      the destructors of server, pool and loops), \<open>ConnStates\<close> (the order of a connection's states,
      through the functors and callbacks of the server and programs of its public operations).
    \<^item> \<open>Connector\<close>, \<open>TcpClient\<close>.
    \<^item> \<open>Codec\<close> (\<open>Codec.h\<close>, over a JSON interface), \<open>JsonInstance\<close> (a JSON library that satisfies
      the interface), \<open>CodecProperties\<close>, \<open>RPC_Server\<close>, \<open>RPC_Dispatch\<close> (\<open>traits.h\<close>, \<open>unpack\<close> and
      \<open>call_proxy\<close>), \<open>RPC_Client\<close>.
    \<^item> \<open>RefCounts\<close>, \<open>ServerRefs\<close>, \<open>ClientRefs\<close>, \<open>RPC_Refs\<close>: the use counts of connections, for
      whatever owns connections (the locale \<open>ownership\<close>), for servers (\<open>server_ownership\<close>), clients
      (\<open>client_ownership\<close>) and the RPC classes on top of them.
    \<^item> \<open>Interleaving\<close>: simulation of step relations and termination by a measure, as locales.
      They are interpreted by \<open>LoopWakeup\<close> (\<open>loop\<close>, \<open>runInLoop\<close> and \<open>quit\<close> of \<open>EventLoop.cpp\<close>
      with all their interleavings), \<open>LoopThread\<close> (\<open>EventLoopThread.cpp\<close>: the thread and its
      owner, on top of \<open>LoopWakeup\<close>), \<open>ThreadSafeQueue\<close>, \<open>ThreadPool\<close> (with \<open>ThreadJoiner.h\<close>),
      \<open>CountdownLatch\<close> and \<open>TimerFd\<close>.
    \<^item> \<open>Timer\<close>: \<open>Timer.h\<close>, which nothing uses. \<open>Demo\<close>: \<open>main.cpp\<close>.
    \<^item> This theory: properties across client, network and server.

  \<^bold>\<open>What is shown.\<close>
    \<^item> Registration: the poller's array, map and indices agree, every update keeps them so, and
      \<open>poll\<close> collects exactly the ready channels; removal is right for the newest channel only,
      and leaves the channels behind any other one with stale indices.
    \<^item> Events: which callbacks \<open>handleEvent\<close> calls, in which order, and the cases in which it
      goes on with a destroyed channel or closes a connection twice.
    \<^item> Connections: any mixture of sends and flushes, partial writes included, puts exactly the
      sent bytes on the wire in order; shutdown flushes first; in every schedule of a server the
      state only advances; closing releases channel and socket once.
    \<^item> Servers and clients: how they come up and go down, with the destructor that does not come back
      when a thread of the pool has not entered its loop; how connections are accepted, handed over,
      named, removed, retried.
    \<^item> Ownership: in every schedule of loops and users the use count of a connection is the
      number of its references in the server's map, or the client's members, and the queues, so
      none is leaked or freed too early; the RPC server's maps leak every connection that sent a
      request.
    \<^item> Remote calls: framing, which depends on the cut only through the first fragment; the header's
      round trip and where it fails; when a caller gets the response, when it waits for ever, and
      when it gets an older one; and a call from end to end, to a function that is never found.
    \<^item> Threads: posted functors and queued values come out in order (refinement of a sequential
      channel); no wake-up is lost; \<open>startLoop\<close>, the joins and the timers end, with the races
      in which they do not; what becomes of timeouts from \<open>2 ^ 31\<close> milliseconds on.

  \<^bold>\<open>Bounds.\<close> A functor that runs in place may run others in place; \<open>server_exec n\<close>,
  \<open>client_exec n\<close> and \<open>connector_exec n\<close> bound the nesting by \<open>n\<close> and fail with
  \<open>DepthExceeded\<close> beyond it. Every theorem holds for all depths above a stated one: two levels
  for a close on the server, one for the client's functors, and as many as there are refusals
  for a connector, since every attempt runs inside the one before it. \<open>EventLoop_loop\<close> runs
  over a list of results of \<open>poll\<close>, one per turn; a remote call over two lists of steps of the
  loop's thread, those before and those while the caller waits; the end of a server over any number
  of polls that time out. The step relations have no bound: their theorems give one, as a measure
  of the state, on the number of steps the threads make without a new call.

  \<^bold>\<open>The environment.\<close> Results of \<open>poll\<close>, \<open>read\<close>, \<open>write\<close> (how much room there is), \<open>accept\<close>,
  \<open>connect\<close>, \<open>socket\<close>, \<open>getsockname\<close>, \<open>pipe\<close>, \<open>inet_aton\<close> and the addresses of new objects
  are arguments or streams of the world, and theorems quantify over them. The JSON library is a
  record of functions with the laws of parsing and printing as a hypothesis (\<open>json_laws\<close>),
  which \<open>example_json\<close> satisfies. Sections under one mutex are one step. Atomic members are
  read and written in one step each; plain members that threads share are too, although C++
  calls that a data race.

  \<^bold>\<open>Code that does not compile.\<close> \<open>Poller.cpp\<close> uses an array that \<open>Poller.h\<close> does not declare, and
  defines the constructor a second time. \<open>CountdownLatch.h\<close> is modelled with its misspelt directive and
  member name put right, \<open>Timer.h\<close> with its static counter and its test of the interval as
  they are meant. No compiler instantiates \<open>Codec::unpack\<close>, which indexes a tuple at run
  time, and \<open>call_proxy\<close>, which passes a tuple type for its components: \<open>RPC_Dispatch\<close> states how
  they are read. \<open>RPC_Server\<close> leaves registered functions open, so that its theorems do not depend
  on that reading.

  \<^bold>\<open>Not modelled.\<close> What the code prints has no effect on the state; the text is modelled for the
  callbacks that print, for \<open>main\<close> and for the signal handler, error messages are left out. The
  declarations of the headers and their getters are the records and fields of the model, and
  \<open>InetAddress::resolve\<close> is inside a comment. What spawns processes or draws memory (threads,
  allocation) shows as arguments: addresses of new objects, and results of system calls.
\<close>

section \<open>A remote call, end to end\<close>

text \<open>
  C4. A remote call from the caller to the server and back, over two worlds that share nothing
  but the bytes on the wire. The client's loop runs the functors that \<open>call\<close> posts, and the
  framed call is appended to the client's stream; fed to the server in fragments, these bytes
  make it append a framed reply to its own stream; and when these bytes come back in fragments,
  before the caller waits or while it does, the call returns. It returns, as a success, the
  text ''Function name unregistered'', whatever function was called and whatever is registered
  on the server, as long as nothing is registered under the empty name. The conditions: both
  connections are idle with room for a header; both lengths are ones whose header is read back
  right; both first fragments hold the whole header; the reply does not come in one piece
  while the caller already waits. The client's \<open>onMessage\<close> is called with the fragments, as it
  would be if the constructor installed it.
\<close>

theorem remote_call_end_to_end:
  assumes laws: "json_laws api" "js_parse api [] = None" and call: "call = fst (Codec_pack_args api f args (rc_codec wc))"
    and reply: "reply = Codec_pack_result api (js_string api unregistered) False"
    and client: "can_call c wc" "rc_read_bytes wc = 0" "rc_readBuffer wc = []"
    and loop: "w_loops wc (tc_loop kc) = Some el" "el_pendingFunctors el = []"
    and sender: "established c (wc\<lparr>w_thread := el_threadId el\<rparr>) pc kc chc" "0 < tc_refs kc" "tc_outputBuffer kc = []"
      "4 \<le> shd (k_room wc)"
    and server: "established s ws p k ch" "tc_state k = kConnected" "tc_outputBuffer k = []" "4 \<le> shd (k_room ws)"
    and fresh: "rs_readBuffers ws s = None" "rs_read_bytes ws s = None" "rs_functions ws [] = None"
    and request: "first @ concat rest = Codec_cal_headers call @ call" "4 \<le> length first" "[] \<notin> set rest"
      "header_readable cs (length call)"
    and response: "first' @ concat rest' = Codec_cal_headers reply @ reply" "4 \<le> length first'" "[] \<notin> set rest'"
      "header_readable cs' (length reply)" and early: "rest' \<noteq> [] \<or> 1 < i"
    and conv: "conv (js_string api unregistered) = Some x"
  shows "\<exists>ws' wc'.
    RPC_Client_call api conv d exec' (take i (call_events user (Suc n) (tc_loop kc) cs' (first' # rest')))
      (drop i (call_events user (Suc n) (tc_loop kc) cs' (first' # rest'))) msg f args wc = Ok (((x, True), msg), wc') \<and>
    out_stream c wc' = out_stream c wc @ first @ concat rest \<and>
    block (map (RPC_Server_onMessage cs api handler exec s) (first # rest)) ws = Ok ws' \<and>
    out_stream s ws' = out_stream s ws @ first' @ concat rest'"
proof -
  obtain ws' where "block (map (RPC_Server_onMessage cs api handler exec s) (first # rest)) ws = Ok ws'"
    "out_stream s ws' = out_stream s ws @ Codec_cal_headers reply @ reply"
    using every_call_is_unregistered [OF server fresh laws(1) call request, of handler exec] reply by blast
  moreover obtain wc' where "RPC_Client_call api conv d exec' (take i (call_events user (Suc n) (tc_loop kc) cs' (first' # rest')))
      (drop i (call_events user (Suc n) (tc_loop kc) cs' (first' # rest'))) msg f args wc = Ok (((x, True), msg), wc')"
    "out_stream c wc' = out_stream c wc @ Codec_cal_headers call @ call"
    using call_answered [OF laws client loop sender call response [unfolded reply] early, of conv] conv by blast
  ultimately show ?thesis by (auto simp only: request(1) response(1))
qed

text \<open>Both ends of a connection, idle, with an empty call cut nowhere and its reply cut in two.\<close>

lemma example_sender:
  "established 0 ((example_caller [] 0)\<lparr>w_thread := 1\<rparr>) (example_conn_poller [])
     ((example_conn kConnected [])\<lparr>tc_messageCallback := Some defaultMessageCallback\<rparr>) (example_channel [])"
  using example_established [of kConnected "[]" "sconst 9"]
  by (simp add: established_def attached_def serves_def own_channel_def example_caller_def client_world_def connector_world_def
      net.defs connector_net.defs client_net.defs rpc_client_net.defs del: registered.simps updatable.simps)

theorem remote_call_end_to_end_witness:
  "\<exists>ws' wc'. RPC_Client_call example_json (js_get_string example_json) [] (\<lambda>_. skip)
      (take 1 (call_events (\<lambda>_ _ _. skip) 1 4 True [Codec_cal_headers example_reply, example_reply]))
      (drop 1 (call_events (\<lambda>_ _ _. skip) 1 4 True [Codec_cal_headers example_reply, example_reply])) [] [] []
      (example_caller [] 0) = Ok (((unregistered, True), []), wc') \<and>
    out_stream 0 wc' = Codec_cal_headers example_call @ example_call \<and>
    block [RPC_Server_onMessage True example_json (\<lambda>_ _ _. skip) (\<lambda>_. skip) 0 (Codec_cal_headers example_call @ example_call)]
      (example_rpc_net (sconst 9)) = Ok ws' \<and>
    out_stream 0 ws' = Codec_cal_headers example_reply @ example_reply"
proof -
  let ?first = "Codec_cal_headers example_call @ example_call" and ?first' = "Codec_cal_headers example_reply"
  let ?k = "(example_conn kConnected [])\<lparr>tc_messageCallback := Some defaultMessageCallback\<rparr>"
  let ?el = "the (w_loops (example_net kConnected [] (sconst 9)) 4)"
  have codec: "rc_codec (example_caller [] 0) = Codec_new example_json"
    by (simp add: example_caller_def rpc_client_net.defs client_net.defs)
  have defs: "example_call = fst (Codec_pack_args example_json [] [] (rc_codec (example_caller [] 0)))"
    "example_reply = Codec_pack_result example_json (js_string example_json unregistered) False"
    by (simp_all add: codec example_call_def example_reply_def)
  have loop: "w_loops (example_caller [] 0) (tc_loop ?k) = Some ?el" "el_threadId ?el = 1" "el_pendingFunctors ?el = []"
    "tc_loop ?k = 4" "0 < tc_refs ?k" "tc_outputBuffer ?k = []" "4 \<le> shd (k_room (example_caller [] 0))"
    by (simp_all add: example_caller_def client_world_def connector_world_def net.defs connector_net.defs client_net.defs
        rpc_client_net.defs example_net_def example_conn_def new_connection_def)
  have "example_reply \<noteq> []" "[] \<noteq> example_reply" using length_example_reply by (metis list.size(3) zero_neq_numeral)+
  moreover have "js_get_string example_json (js_string example_json unregistered) = Some unregistered"
    by (simp add: example_json_def)
  moreover have "js_parse example_json [] = None" by (simp add: example_json_def)
  ultimately have "\<exists>ws' wc'.
    RPC_Client_call example_json (js_get_string example_json) [] (\<lambda>_. skip)
      (take 1 (call_events (\<lambda>_ _ _. skip) (Suc 0) (tc_loop ?k) True (?first' # [example_reply])))
      (drop 1 (call_events (\<lambda>_ _ _. skip) (Suc 0) (tc_loop ?k) True (?first' # [example_reply]))) [] [] [] (example_caller [] 0) =
      Ok (((unregistered, True), []), wc') \<and>
    out_stream 0 wc' = out_stream 0 (example_caller [] 0) @ ?first @ concat [] \<and>
    block (map (RPC_Server_onMessage True example_json (\<lambda>_ _ _. skip) (\<lambda>_. skip) 0) (?first # [])) (example_rpc_net (sconst 9)) = Ok ws' \<and>
    out_stream 0 ws' = out_stream 0 (example_rpc_net (sconst 9)) @ ?first' @ concat [example_reply]"
    by (intro remote_call_end_to_end [OF example_json_laws _ defs example_can_call _ _ loop(1,3) _ loop(5-7) example_rpc_established])
      (use example_sender loop in \<open>simp_all add: length_example_call length_example_reply short_readable\<close>)
  moreover have "out_stream 0 (example_caller [] 0) = []"
    by (simp add: out_stream_def example_caller_def client_world_def connector_world_def net.defs connector_net.defs
        client_net.defs rpc_client_net.defs)
  ultimately show ?thesis unfolding loop(4) by (simp only: list.map) (auto simp: out_stream_def)
qed

end
